(* ===== verification/Buddy_Blocks.thy ===== *)
theory Buddy_Blocks
  imports Prelude
begin

text \<open>
  Aligned power-of-two blocks of page numbers, the arithmetic behind
  \<^verbatim>\<open>memory-management/buddy.c\<close>: two aligned blocks are nested or disjoint, the index
  \<open>i XOR 2 ^ k\<close> is the other half of the enclosing block of order \<open>k + 1\<close>, and
  \<open>i AND (i XOR 2 ^ k)\<close> is where that enclosing block begins.
\<close>

definition block :: "nat \<Rightarrow> nat \<Rightarrow> nat set" where
  "block i k = {i ..< i + 2 ^ k}"

definition aligned :: "nat \<Rightarrow> nat \<Rightarrow> bool" where
  "aligned i k \<longleftrightarrow> 2 ^ k dvd i"

lemma alignedE:
  assumes "aligned i k"
  obtains m where "i = 2 ^ k * m"
  using assms unfolding aligned_def dvd_def by blast

lemma aligned_0 [simp]: "aligned i 0" "aligned 0 k"
  by (simp_all add: aligned_def)

lemma aligned_mono: "aligned i k \<Longrightarrow> l \<le> k \<Longrightarrow> aligned i l"
  unfolding aligned_def by (rule power_le_dvd)

lemma aligned_add: "aligned i k \<Longrightarrow> aligned (i + 2 ^ k) k"
  by (simp add: aligned_def)

lemma block_iff_div:
  assumes "aligned i k"
  shows "x \<in> block i k \<longleftrightarrow> x div 2 ^ k = i div 2 ^ k"
proof -
  obtain m where i: "i = 2 ^ k * m" using assms by (rule alignedE)
  have "x div 2 ^ k = m \<longleftrightarrow> 2 ^ k * m \<le> x \<and> x < 2 ^ k * m + 2 ^ k"
    using div_nat_eqI [of "2 ^ k" m x] times_div_less_eq_dividend [of "2 ^ k" x]
      dividend_less_times_div [of "2 ^ k" x] by auto
  with i show ?thesis by (simp add: block_def)
qed

lemma block_nonempty [simp]: "i \<in> block i k" "block i k \<noteq> {}"
  by (auto simp: block_def)

lemma block_0 [simp]: "block i 0 = {i}"
  by (auto simp: block_def)

lemma finite_block [simp]: "finite (block i k)"
  by (simp add: block_def)

lemma card_block [simp]: "card (block i k) = 2 ^ k"
  by (simp add: block_def)

lemma start_bound: "i + 2 ^ k \<le> n \<Longrightarrow> i < (n::nat)"
  using zero_less_power [of "2::nat" k] by linarith

lemma block_bound:
  assumes "block i k \<subseteq> {..<n}"
  shows "i + 2 ^ k \<le> n"
proof -
  have pos: "0 < (2::nat) ^ k" by simp
  then have "i + (2 ^ k - 1) \<in> block i k" unfolding block_def atLeastLessThan_iff by linarith
  then have "i + (2 ^ k - 1) < n" using assms by blast
  then show ?thesis using pos by linarith
qed

lemma block_nested:
  assumes "aligned i a" and "aligned j b" and "a \<le> b" and "block i a \<inter> block j b \<noteq> {}"
  shows "block i a \<subseteq> block j b"
proof
  fix y assume "y \<in> block i a"
  from assms obtain x where x: "x \<in> block i a" "x \<in> block j b" by blast
  have split: "w div 2 ^ b = w div 2 ^ a div 2 ^ (b - a)" for w :: nat
    using assms(3) by (simp add: div_mult2_eq [symmetric] power_add [symmetric])
  from x \<open>y \<in> block i a\<close> show "y \<in> block j b"
    by (simp add: block_iff_div assms split [of y] split [of x])
qed

lemma block_inj: "block i a = block j b \<Longrightarrow> i = j"
  by (auto simp: block_def dest: atLeastLessThan_inj)

section \<open>Buddies\<close>

lemma xor_1_double: "2 * a XOR 1 = 2 * a + (1::nat)" "(2 * a + 1) XOR 1 = 2 * (a::nat)"
  by (simp_all add: xor_nat_unfold [of "2 * a"] xor_nat_unfold [of "Suc (2 * a)"])

lemma and_1_double: "2 * a AND (2 * a + 1) = 2 * (a::nat)" "(2 * a + 1) AND (2 * a) = 2 * (a::nat)"
  by (simp_all add: and_nat_unfold [of "2 * a"] and_nat_unfold [of "Suc (2 * a)"])

lemma xor_shift: "(2 ^ k * m XOR 2 ^ k) = 2 ^ k * (m XOR (1::nat))"
  using push_bit_xor [of k m 1] by (simp add: push_bit_eq_mult mult.commute)

lemma and_shift: "(2 ^ k * m AND 2 ^ k * l) = 2 ^ k * (m AND (l::nat))"
  using push_bit_and [of k m l] by (simp add: push_bit_eq_mult mult.commute)

text \<open>The two cases: the page is the lower or the upper half.\<close>

lemma buddy_cases:
  assumes "aligned i k"
  obtains (lower) "i XOR 2 ^ k = i + 2 ^ k" "i AND (i XOR 2 ^ k) = i" "aligned i (Suc k)"
    | (upper) j where "i = j + 2 ^ k" "i XOR 2 ^ k = j" "i AND (i XOR 2 ^ k) = j" "aligned j (Suc k)"
proof -
  obtain m where i: "i = 2 ^ k * m" using assms by (rule alignedE)
  show thesis
  proof (cases "even m")
    case True
    then obtain a where m: "m = 2 * a" by (rule evenE)
    show thesis
      by (rule lower) (simp_all only: i m xor_shift and_shift xor_1_double and_1_double,
        simp_all add: aligned_def)
  next
    case False
    then obtain a where m: "m = 2 * a + 1" by (rule oddE)
    show thesis
      by (rule upper [of "2 ^ k * (2 * a)"])
        (simp_all only: i m xor_shift and_shift xor_1_double and_1_double,
         simp_all add: aligned_def algebra_simps)
  qed
qed

lemma buddy_aligned: "aligned i k \<Longrightarrow> aligned (i XOR 2 ^ k) k"
  by (erule buddy_cases) (simp_all add: aligned_add aligned_mono [of _ "Suc k" k])

lemma merged_aligned: "aligned i k \<Longrightarrow> aligned (i AND (i XOR 2 ^ k)) (Suc k)"
  by (erule buddy_cases) simp_all

lemma merged_block: "aligned i k \<Longrightarrow>
    block (i AND (i XOR 2 ^ k)) (Suc k) = block i k \<union> block (i XOR 2 ^ k) k"
  by (erule buddy_cases) (auto simp: block_def)

lemma merged_bound: "aligned i k \<Longrightarrow> i + 2 ^ k \<le> n \<Longrightarrow> (i XOR 2 ^ k) + 2 ^ k \<le> n \<Longrightarrow>
    (i AND (i XOR 2 ^ k)) + 2 ^ Suc k \<le> n"
  by (erule buddy_cases) simp_all

lemma buddy_involution: "(i XOR 2 ^ k) XOR 2 ^ k = (i::nat)"
  by (simp add: xor.assoc)

lemma buddy_neq: "i XOR 2 ^ k \<noteq> (i::nat)"
proof
  assume "i XOR 2 ^ k = i"
  then have "bit (i XOR 2 ^ k) k = bit i k" by simp
  then show False by (simp add: bit_xor_iff bit_exp_iff)
qed

lemma buddy_upper_half:
  assumes "aligned i (Suc k)"
  shows "(i + 2 ^ k) XOR 2 ^ k = i"
proof -
  obtain a where "i = 2 ^ Suc k * a" using assms by (rule alignedE)
  then have "i + 2 ^ k = 2 ^ k * (2 * a + 1)" by simp
  with \<open>i = 2 ^ Suc k * a\<close> show ?thesis by (simp only: xor_shift xor_1_double) simp
qed

end
