(* ===== verification/Linked_List.thy ===== *)
theory Linked_List
  imports Prelude
begin

text \<open>
  The intrusive, circular, doubly linked lists of \<^verbatim>\<open>data_structures/list.c\<close> and the
  iteration macros of \<^verbatim>\<open>include/list.h\<close>.

  A \<^verbatim>\<open>struct list_head\<close> has two pointer fields; the heap of all list heads is a pair of
  functions from node addresses to node addresses, one per field.  The address type is a type
  variable with a zero, the null pointer: each client instantiates it with the addresses of its own
  embedded nodes.  The kernel maps page 0 (\<^verbatim>\<open>setup_paging\<close>), so a read or write through a null
  pointer is an access like any other and the field heaps are total.

  \<open>dlist h a xs\<close> says that the heap holds a well-formed circular list with sentinel \<open>a\<close> and
  entries \<open>xs\<close>, in order; \<open>dlists h A F\<close> says that for a whole family of pairwise disjoint lists,
  one for every sentinel in \<open>A\<close>.  The lemmas show what each operation does to them.
\<close>

section \<open>The operations of list.c\<close>

record 'p list_heap =
  next_of :: "'p \<Rightarrow> 'p"
  prev_of :: "'p \<Rightarrow> 'p"

definition set_next :: "'p \<Rightarrow> 'p \<Rightarrow> 'p list_heap \<Rightarrow> 'p list_heap" where
  "set_next p v h = h\<lparr>next_of := (next_of h)(p := v)\<rparr>"

definition set_prev :: "'p \<Rightarrow> 'p \<Rightarrow> 'p list_heap \<Rightarrow> 'p list_heap" where
  "set_prev p v h = h\<lparr>prev_of := (prev_of h)(p := v)\<rparr>"

definition INIT_LIST_HEAD :: "'p \<Rightarrow> 'p list_heap \<Rightarrow> 'p list_heap" where
  "INIT_LIST_HEAD l h = set_prev l l (set_next l l h)"

definition INIT_LIST_NULL :: "'p::zero \<Rightarrow> 'p list_heap \<Rightarrow> 'p list_heap" where
  "INIT_LIST_NULL n h = set_prev n 0 (set_next n 0 h)"

definition generic_add :: "'p \<Rightarrow> 'p \<Rightarrow> 'p \<Rightarrow> 'p list_heap \<Rightarrow> 'p list_heap" where
  "generic_add beg mid en h =
     (let h = set_next mid en h;
          h = set_prev mid beg h;
          h = set_next beg mid h
      in set_prev en mid h)"

definition generic_del :: "'p \<Rightarrow> 'p list_heap \<Rightarrow> 'p list_heap" where
  "generic_del mid h =
     (let h = set_prev (next_of h mid) (prev_of h mid) h
      in set_next (prev_of h mid) (next_of h mid) h)"

definition list_add :: "'p \<Rightarrow> 'p \<Rightarrow> 'p list_heap \<Rightarrow> 'p list_heap" where
  "list_add head new h = generic_add head new (next_of h head) h"

definition list_add_tail :: "'p \<Rightarrow> 'p \<Rightarrow> 'p list_heap \<Rightarrow> 'p list_heap" where
  "list_add_tail head new h = generic_add (prev_of h head) new head h"

definition list_del :: "'p::zero \<Rightarrow> 'p list_heap \<Rightarrow> 'p list_heap" where
  "list_del entry h = INIT_LIST_NULL entry (generic_del entry h)"

definition list_del_init :: "'p \<Rightarrow> 'p list_heap \<Rightarrow> 'p list_heap" where
  "list_del_init entry h = INIT_LIST_HEAD entry (generic_del entry h)"

definition list_is_empty :: "'p list_heap \<Rightarrow> 'p \<Rightarrow> bool" where
  "list_is_empty h head \<longleftrightarrow> next_of h head = head \<and> prev_of h head = head"

definition list_is_head :: "'p \<Rightarrow> 'p \<Rightarrow> bool" where
  "list_is_head l head \<longleftrightarrow> l = head"

section \<open>The iteration macros of list.h\<close>

text \<open>
  A loop over a list that never reaches its sentinel again does not end; it is \<open>None\<close> here.
  \<open>list_for_each\<close> collects the nodes \<^verbatim>\<open>pos\<close> runs through when the body neither breaks nor
  changes the list, and \<open>list_find\<close> is the loop whose body returns at the first node that
  satisfies a test.
\<close>

partial_function (option) list_walk :: "'p list_heap \<Rightarrow> 'p \<Rightarrow> 'p \<Rightarrow> 'p list option" where
  "list_walk h head pos =
     (if list_is_head pos head then Some []
      else do { ps \<leftarrow> list_walk h head (next_of h pos); Some (pos # ps) })"

definition list_for_each :: "'p list_heap \<Rightarrow> 'p \<Rightarrow> 'p list option" where
  "list_for_each h head = list_walk h head (next_of h head)"

partial_function (option) list_find_from ::
    "'p list_heap \<Rightarrow> 'p \<Rightarrow> ('p \<Rightarrow> bool) \<Rightarrow> 'p \<Rightarrow> 'p option option" where
  "list_find_from h head P pos =
     (if list_is_head pos head then Some None
      else if P pos then Some (Some pos)
      else list_find_from h head P (next_of h pos))"

declare list_walk.simps [code] list_find_from.simps [code]

definition list_find :: "'p list_heap \<Rightarrow> 'p \<Rightarrow> ('p \<Rightarrow> bool) \<Rightarrow> 'p option option" where
  "list_find h head P = list_find_from h head P (next_of h head)"

text \<open>
  \<^verbatim>\<open>list_for_each_del\<close> keeps the successor in \<^verbatim>\<open>save\<close> before the body deletes the node: the loop
  below is the macro with \<^verbatim>\<open>list_del(temp)\<close> as its body, as \<^verbatim>\<open>free_buddy_system\<close> uses it.
\<close>

partial_function (option) list_del_walk ::
    "'p::zero list_heap \<Rightarrow> 'p \<Rightarrow> 'p \<Rightarrow> 'p \<Rightarrow> 'p list_heap option" where
  "list_del_walk h head temp save =
     (if list_is_head temp head then Some h
      else let h' = list_del temp h in list_del_walk h' head save (next_of h' save))"

definition list_del_each :: "'p::zero \<Rightarrow> 'p list_heap \<Rightarrow> 'p list_heap option" where
  "list_del_each head h = list_del_walk h head (next_of h head) (next_of h (next_of h head))"

section \<open>Well-formed lists\<close>

fun linked :: "'p list_heap \<Rightarrow> 'p list \<Rightarrow> bool" where
  "linked h (x # y # zs) \<longleftrightarrow> next_of h x = y \<and> prev_of h y = x \<and> linked h (y # zs)"
| "linked h _ \<longleftrightarrow> True"

definition dlist :: "'p list_heap \<Rightarrow> 'p \<Rightarrow> 'p list \<Rightarrow> bool" where
  "dlist h a xs \<longleftrightarrow> distinct (a # xs) \<and> linked h (a # xs @ [a])"

definition dlists :: "'p list_heap \<Rightarrow> 'p set \<Rightarrow> ('p \<Rightarrow> 'p list) \<Rightarrow> bool" where
  "dlists h A F \<longleftrightarrow>
     (\<forall>a \<in> A. dlist h a (F a)) \<and>
     (\<forall>a \<in> A. \<forall>b \<in> A. a \<noteq> b \<longrightarrow> set (a # F a) \<inter> set (b # F b) = {})"

section \<open>Reads after writes\<close>

lemma next_set_next [heap_simps]: "next_of (set_next p v h) q = (if q = p then v else next_of h q)"
  by (simp add: set_next_def)

lemma prev_set_next [heap_simps]: "prev_of (set_next p v h) q = prev_of h q"
  by (simp add: set_next_def)

lemma next_set_prev [heap_simps]: "next_of (set_prev p v h) q = next_of h q"
  by (simp add: set_prev_def)

lemma prev_set_prev [heap_simps]: "prev_of (set_prev p v h) q = (if q = p then v else prev_of h q)"
  by (simp add: set_prev_def)

lemmas list_op_defs = INIT_LIST_HEAD_def INIT_LIST_NULL_def generic_add_def generic_del_def
  list_add_def list_add_tail_def list_del_def list_del_init_def Let_def

lemma next_list_add: "next_of (list_add a x h) q =
    (if q = a then x else if q = x then next_of h a else next_of h q)"
  by (simp add: list_op_defs heap_simps)

lemma prev_list_add: "prev_of (list_add a x h) q =
    (if q = next_of h a then x else if q = x then a else prev_of h q)"
  by (simp add: list_op_defs heap_simps)

lemma next_list_add_tail: "next_of (list_add_tail a x h) q =
    (if q = prev_of h a then x else if q = x then a else next_of h q)"
  by (simp add: list_op_defs heap_simps)

lemma prev_list_add_tail: "prev_of (list_add_tail a x h) q =
    (if q = a then x else if q = x then prev_of h a else prev_of h q)"
  by (simp add: list_op_defs heap_simps)

lemma next_generic_del: "next_of h x \<noteq> x \<Longrightarrow> next_of (generic_del x h) q =
    (if q = prev_of h x then next_of h x else next_of h q)"
  by (simp add: list_op_defs heap_simps)

lemma prev_generic_del: "prev_of (generic_del x h) q =
    (if q = next_of h x then prev_of h x else prev_of h q)"
  by (simp add: list_op_defs heap_simps)

section \<open>Segments\<close>

lemma linked_append: "linked h (xs @ y # ys) \<longleftrightarrow> linked h (xs @ [y]) \<and> linked h (y # ys)"
  by (induction h xs rule: linked.induct) (cases ys, auto)+

lemma linked_cong:
  assumes "\<And>p. p \<in> set (butlast xs) \<Longrightarrow> next_of h' p = next_of h p"
    and "\<And>p. p \<in> set (tl xs) \<Longrightarrow> prev_of h' p = prev_of h p"
  shows "linked h' xs = linked h xs"
  using assms
proof (induction xs rule: induct_list012)
  case (3 x y zs)
  have "linked h' (y # zs) = linked h (y # zs)"
  proof (rule "3.IH"(2))
    show "next_of h' p = next_of h p" if "p \<in> set (butlast (y # zs))" for p
      using that "3.prems"(1) by simp
    show "prev_of h' p = prev_of h p" if "p \<in> set (tl (y # zs))" for p
      using that "3.prems"(2) by (cases zs) auto
  qed
  then show ?case using "3.prems" by simp
qed simp_all

section \<open>One list\<close>

lemma linked_tl: "linked h (x # xs) \<Longrightarrow> linked h xs"
  by (cases xs) auto

lemma linked_first: "linked h (x # ys @ [z]) \<Longrightarrow> next_of h x = List.hd (ys @ [z])"
  by (cases ys) auto

lemma linked_last: "linked h (x # ys @ [z]) \<Longrightarrow> prev_of h z = last (x # ys)"
  by (induction ys arbitrary: x) auto

lemma dlist_next: "dlist h a xs \<Longrightarrow> next_of h a = List.hd (xs @ [a])"
  unfolding dlist_def by (blast intro: linked_first)

lemma dlist_prev: "dlist h a xs \<Longrightarrow> prev_of h a = last (a # xs)"
  unfolding dlist_def by (blast intro: linked_last)

lemma dlist_cong:
  assumes "\<And>p. p \<in> set (a # xs) \<Longrightarrow> next_of h' p = next_of h p"
    and "\<And>p. p \<in> set (a # xs) \<Longrightarrow> prev_of h' p = prev_of h p"
  shows "dlist h' a xs = dlist h a xs"
proof -
  have "linked h' (a # xs @ [a]) = linked h (a # xs @ [a])"
    by (rule linked_cong) (use assms in \<open>auto simp: butlast_append\<close>)
  then show ?thesis by (simp add: dlist_def)
qed

lemma dlist_Nil_iff: "dlist h a [] \<longleftrightarrow> next_of h a = a \<and> prev_of h a = a"
  by (auto simp: dlist_def)

lemma dlist_init: "dlist (INIT_LIST_HEAD a h) a []"
  by (simp add: dlist_Nil_iff list_op_defs heap_simps)

lemma list_is_empty_iff: "dlist h a xs \<Longrightarrow> list_is_empty h a \<longleftrightarrow> xs = []"
  using dlist_next [of h a xs]
  by (cases xs) (auto simp: list_is_empty_def dlist_Nil_iff, auto simp: dlist_def)

lemma dlist_list_add:
  assumes "dlist h a xs" and "x \<notin> set (a # xs)"
  shows "dlist (list_add a x h) a (x # xs)"
proof -
  let ?h = "list_add a x h"
  obtain y ys where yys: "xs @ [a] = y # ys" by (cases "xs @ [a]") auto
  have y: "next_of h a = y" using dlist_next [OF assms(1)] yys by simp
  have "distinct (xs @ [a])" and "linked h (xs @ [a])" and "x \<notin> set (xs @ [a])"
    using assms linked_tl [of h a "xs @ [a]"] by (auto simp: dlist_def)
  then have dist: "distinct (y # ys)" and lnk: "linked h (y # ys)" and "x \<notin> set (y # ys)"
    unfolding yys by auto
  have a: "a \<notin> set (butlast (y # ys))"
    using assms(1) unfolding yys [symmetric] by (simp add: dlist_def)
  have "linked ?h (y # ys) = linked h (y # ys)"
  proof (rule linked_cong)
    show "next_of ?h p = next_of h p" if "p \<in> set (butlast (y # ys))" for p
      using that a \<open>x \<notin> set (y # ys)\<close> in_set_butlastD [OF that] by (auto simp: next_list_add)
    show "prev_of ?h p = prev_of h p" if "p \<in> set (tl (y # ys))" for p
      using that dist \<open>x \<notin> set (y # ys)\<close> y by (auto simp: prev_list_add)
  qed
  with lnk have "linked ?h (a # x # y # ys)"
    using assms(2) \<open>x \<notin> set (y # ys)\<close> y by (auto simp: next_list_add prev_list_add)
  then have "linked ?h (a # x # xs @ [a])" unfolding yys .
  then show ?thesis using assms by (auto simp: dlist_def)
qed

lemma dlist_list_add_tail:
  assumes "dlist h a xs" and "x \<notin> set (a # xs)"
  shows "dlist (list_add_tail a x h) a (xs @ [x])"
proof -
  let ?h = "list_add_tail a x h"
  obtain us p where usp: "a # xs = us @ [p]" by (cases "a # xs" rule: rev_cases) auto
  have p: "prev_of h a = p" using dlist_prev [OF assms(1)] unfolding usp by simp
  have "linked h ((a # xs) @ a # [])" using assms(1) by (simp add: dlist_def)
  then have "linked h (us @ [p])" unfolding usp by (simp add: linked_append [of h us p "[a]"])
  moreover have dist: "distinct (us @ [p])" and "x \<notin> set (us @ [p])"
    using assms unfolding usp [symmetric] by (auto simp: dlist_def)
  moreover have a: "a \<notin> set (tl (us @ [p]))"
    using assms(1) unfolding usp [symmetric] by (simp add: dlist_def)
  moreover have "linked ?h (us @ [p]) = linked h (us @ [p])"
  proof (rule linked_cong)
    show "next_of ?h q = next_of h q" if "q \<in> set (butlast (us @ [p]))" for q
      using that dist \<open>x \<notin> set (us @ [p])\<close> p by (auto simp: next_list_add_tail)
    show "prev_of ?h q = prev_of h q" if "q \<in> set (tl (us @ [p]))" for q
      using that a \<open>x \<notin> set (us @ [p])\<close> list.set_sel(2) [OF _ that]
      by (auto simp: prev_list_add_tail)
  qed
  ultimately have "linked ?h (us @ p # [x, a])"
    using assms(2) p unfolding linked_append [of _ us p "[x, a]"]
    by (auto simp: next_list_add_tail prev_list_add_tail)
  moreover have "us @ p # [x, a] = a # xs @ [x, a]" using usp by simp
  ultimately show ?thesis using assms by (auto simp: dlist_def)
qed

lemma dlist_list_del:
  assumes "dlist h a (ys @ x # zs)"
  shows "dlist (list_del x h) a (ys @ zs)"
proof -
  let ?h = "list_del x h"
  obtain us p where usp: "a # ys = us @ [p]" by (cases "a # ys" rule: rev_cases) auto
  obtain n vs where nvs: "zs @ [a] = n # vs" by (cases "zs @ [a]") auto
  have "linked h ((a # ys) @ x # (zs @ [a]))" using assms by (simp add: dlist_def)
  then have "linked h (us @ p # x # n # vs)" unfolding usp nvs by simp
  then have l1: "linked h (us @ [p])" and l2: "linked h (n # vs)"
    and nx: "next_of h x = n" and px: "prev_of h x = p"
    unfolding linked_append [of h us p "x # n # vs"] by auto
  have d: "distinct (a # ys)" "distinct (zs @ [a])" "x \<notin> set (a # ys)" "x \<notin> set (zs @ [a])"
      "set ys \<inter> set (zs @ [a]) = {}" "set (a # ys) \<inter> set zs = {}"
    using assms by (auto simp: dlist_def)
  have dist: "distinct (us @ [p])" "distinct (n # vs)" "x \<notin> set (us @ [p])" "x \<notin> set (n # vs)"
    using d unfolding usp nvs by auto
  have n: "n \<notin> set (tl (us @ [p]))" using d(5) nvs unfolding usp [symmetric] by auto
  have "set (butlast (zs @ [a])) = set zs" by simp
  then have p: "p \<notin> set (butlast (n # vs))" using d(6) usp unfolding nvs by auto
  have nxt: "next_of ?h q = (if q = x then 0 else if q = p then n else next_of h q)"
    and prv: "prev_of ?h q = (if q = x then 0 else if q = n then p else prev_of h q)" for q
    using nx px dist by (auto simp: list_op_defs heap_simps)
  have "linked ?h (us @ [p]) = linked h (us @ [p])"
  proof (rule linked_cong)
    show "next_of ?h q = next_of h q" if "q \<in> set (butlast (us @ [p]))" for q
      using that dist by (auto simp: nxt)
    show "prev_of ?h q = prev_of h q" if "q \<in> set (tl (us @ [p]))" for q
      using that n dist(3) list.set_sel(2) [OF _ that] by (auto simp: prv)
  qed
  moreover have "linked ?h (n # vs) = linked h (n # vs)"
  proof (rule linked_cong)
    show "next_of ?h q = next_of h q" if "q \<in> set (butlast (n # vs))" for q
      using that p dist(4) in_set_butlastD [OF that] by (auto simp: nxt)
    show "prev_of ?h q = prev_of h q" if "q \<in> set (tl (n # vs))" for q
      using that dist by (auto simp: prv)
  qed
  ultimately have "linked ?h (us @ p # n # vs)"
    using l1 l2 dist unfolding linked_append [of _ us p "n # vs"] by (auto simp: nxt prv)
  moreover have "us @ p # n # vs = a # (ys @ zs) @ [a]" using usp nvs by simp
  ultimately show ?thesis using assms by (simp add: dlist_def)
qed

section \<open>Families of lists\<close>

lemma dlistsD: "dlists h A F \<Longrightarrow> a \<in> A \<Longrightarrow> dlist h a (F a)"
  by (simp add: dlists_def)

lemma dlists_disjoint:
  "dlists h A F \<Longrightarrow> a \<in> A \<Longrightarrow> b \<in> A \<Longrightarrow> a \<noteq> b \<Longrightarrow> set (a # F a) \<inter> set (b # F b) = {}"
  unfolding dlists_def by blast

lemma dlists_cong: "(\<And>a. a \<in> A \<Longrightarrow> F a = G a) \<Longrightarrow> dlists h A F = dlists h A G"
  by (auto simp: dlists_def)

lemma dlists_frame:
  assumes "dlists h A F"
    and "\<And>a p. a \<in> A \<Longrightarrow> p \<in> set (a # F a) \<Longrightarrow> next_of h' p = next_of h p \<and> prev_of h' p = prev_of h p"
  shows "dlists h' A F"
  using assms dlist_cong [of _ _ h h'] unfolding dlists_def by metis

lemma dlists_upd:
  assumes D: "dlists h A F" and "a \<in> A" and new: "dlist h' a xs"
    and frame: "\<And>p. p \<notin> set (a # F a) \<Longrightarrow> p \<notin> set xs \<Longrightarrow>
      next_of h' p = next_of h p \<and> prev_of h' p = prev_of h p"
    and sub: "\<And>b. b \<in> A \<Longrightarrow> b \<noteq> a \<Longrightarrow> set xs \<inter> set (b # F b) = {}"
  shows "dlists h' A (F(a := xs))"
proof -
  have "dlist h' b (F b)" if b: "b \<in> A" "b \<noteq> a" for b
  proof -
    have "set (a # F a) \<inter> set (b # F b) = {}" using D b \<open>a \<in> A\<close> unfolding dlists_def by blast
    with sub [OF b] have "dlist h' b (F b) = dlist h b (F b)"
      by (intro dlist_cong) (use frame in blast)+
    then show ?thesis using D b by (simp add: dlists_def)
  qed
  moreover have ax: "set (a # xs) \<inter> set (b # F b) = {}" if b: "b \<in> A" "b \<noteq> a" for b
  proof -
    have "a \<notin> set (b # F b)" using dlists_disjoint [OF D \<open>a \<in> A\<close> b(1)] b(2) by auto
    with sub [OF b] show ?thesis by auto
  qed
  moreover have "set (b # (F(a := xs)) b) \<inter> set (c # (F(a := xs)) c) = {}"
    if bc: "b \<in> A" "c \<in> A" "b \<noteq> c" for b c
  proof -
    consider "b = a" | "c = a" | "b \<noteq> a" "c \<noteq> a" by blast
    then show ?thesis
    proof cases
      case 1 with ax [of c] bc show ?thesis by simp
    next
      case 2 with ax [of b] bc show ?thesis by (simp add: Int_commute)
    next
      case 3 with dlists_disjoint [OF D bc] show ?thesis by simp
    qed
  qed
  ultimately show ?thesis
    using new unfolding dlists_def by simp
qed

lemma list_add_frame:
  assumes "dlist h a xs" and "p \<notin> set (a # xs)" and "p \<noteq> x"
  shows "next_of (list_add a x h) p = next_of h p \<and> prev_of (list_add a x h) p = prev_of h p"
  using assms dlist_next [OF assms(1)] by (cases xs) (auto simp: next_list_add prev_list_add)

lemma list_add_tail_frame:
  assumes "dlist h a xs" and "p \<notin> set (a # xs)" and "p \<noteq> x"
  shows "next_of (list_add_tail a x h) p = next_of h p \<and>
    prev_of (list_add_tail a x h) p = prev_of h p"
  using assms dlist_prev [OF assms(1)] last_in_set [of "a # xs"]
  by (auto simp: next_list_add_tail prev_list_add_tail)

lemma linked_neighbours:
  assumes "linked h (a # ys @ x # zs @ [a])"
  shows "next_of h x \<in> set (a # zs)" and "prev_of h x \<in> set (a # ys)"
proof -
  have "linked h (x # zs @ [a])" and "linked h (a # ys @ [x])"
    using assms linked_append [of h "a # ys" x "zs @ [a]"] by auto
  then show "next_of h x \<in> set (a # zs)" and "prev_of h x \<in> set (a # ys)"
    using linked_first [of h x zs a] linked_last [of h a ys x] last_in_set [of "a # ys"]
    by (cases zs; auto)+
qed

lemma list_del_frame:
  assumes "dlist h a xs" and "x \<in> set xs" and "p \<notin> set (a # xs)"
  shows "next_of (list_del x h) p = next_of h p \<and> prev_of (list_del x h) p = prev_of h p"
proof -
  obtain ys zs where xs: "xs = ys @ x # zs" using split_list [OF assms(2)] by blast
  with assms(1) have "next_of h x \<in> set (a # zs)" and "prev_of h x \<in> set (a # ys)"
    using linked_neighbours [of h a ys x zs] by (auto simp: dlist_def)
  with xs assms(3) show ?thesis by (auto simp: list_op_defs heap_simps)
qed

lemma dlists_init:
  assumes "dlists h A F" and "a \<in> A"
  shows "dlists (INIT_LIST_HEAD a h) A (F(a := []))"
  by (rule dlists_upd [OF assms dlist_init])
    (auto simp: list_op_defs heap_simps)

lemma dlists_insert_init:
  assumes D: "dlists h A F" and a: "a \<notin> A" "\<And>b. b \<in> A \<Longrightarrow> a \<notin> set (F b)"
  shows "dlists (INIT_LIST_HEAD a h) (insert a A) (F(a := []))"
proof -
  have "dlist (INIT_LIST_HEAD a h) b (F b)" if "b \<in> A" for b
  proof -
    have "dlist (INIT_LIST_HEAD a h) b (F b) = dlist h b (F b)"
      by (rule dlist_cong) (use a that in \<open>auto simp: list_op_defs heap_simps\<close>)
    then show ?thesis using D that by (simp add: dlists_def)
  qed
  then show ?thesis
    using D a dlist_init [of a h] unfolding dlists_def by auto
qed

lemma dlists_add:
  assumes D: "dlists h A F" and a: "a \<in> A" and x: "x \<notin> A" "\<And>b. b \<in> A \<Longrightarrow> x \<notin> set (F b)"
  shows "dlists (list_add a x h) A (F(a := x # F a))"
proof (rule dlists_upd [OF D a])
  show "dlist (list_add a x h) a (x # F a)"
    by (rule dlist_list_add [OF dlistsD [OF D a]]) (use a x in auto)
  show "next_of (list_add a x h) p = next_of h p \<and> prev_of (list_add a x h) p = prev_of h p"
    if "p \<notin> set (a # F a)" and "p \<notin> set (x # F a)" for p
    using list_add_frame [OF dlistsD [OF D a]] that by simp
  show "set (x # F a) \<inter> set (b # F b) = {}" if "b \<in> A" "b \<noteq> a" for b
    using dlists_disjoint [OF D a that(1)] that x by auto
qed

lemma dlists_add_tail:
  assumes D: "dlists h A F" and a: "a \<in> A" and x: "x \<notin> A" "\<And>b. b \<in> A \<Longrightarrow> x \<notin> set (F b)"
  shows "dlists (list_add_tail a x h) A (F(a := F a @ [x]))"
proof (rule dlists_upd [OF D a])
  show "dlist (list_add_tail a x h) a (F a @ [x])"
    by (rule dlist_list_add_tail [OF dlistsD [OF D a]]) (use a x in auto)
  show "next_of (list_add_tail a x h) p = next_of h p \<and>
      prev_of (list_add_tail a x h) p = prev_of h p"
    if "p \<notin> set (a # F a)" and "p \<notin> set (F a @ [x])" for p
    using list_add_tail_frame [OF dlistsD [OF D a]] that by simp
  show "set (F a @ [x]) \<inter> set (b # F b) = {}" if "b \<in> A" "b \<noteq> a" for b
    using dlists_disjoint [OF D a that(1)] that x by auto
qed

lemma dlists_del:
  assumes D: "dlists h A F" and a: "a \<in> A" and x: "x \<in> set (F a)"
  shows "dlists (list_del x h) A (F(a := remove1 x (F a)))"
proof (rule dlists_upd [OF D a])
  obtain ys zs where xs: "F a = ys @ x # zs" using split_list [OF x] by blast
  then have "remove1 x (F a) = ys @ zs"
    using dlistsD [OF D a] by (simp add: dlist_def remove1_append)
  then show "dlist (list_del x h) a (remove1 x (F a))"
    using dlist_list_del dlistsD [OF D a] xs by metis
  show "next_of (list_del x h) p = next_of h p \<and> prev_of (list_del x h) p = prev_of h p"
    if "p \<notin> set (a # F a)" for p
    using list_del_frame [OF dlistsD [OF D a] x that] .
  show "set (remove1 x (F a)) \<inter> set (b # F b) = {}" if "b \<in> A" "b \<noteq> a" for b
    using dlists_disjoint [OF D a that(1)] that set_remove1_subset [of x "F a"] by auto
qed

section \<open>Iteration\<close>

lemma list_walk_linked:
  assumes "linked h (x # ys @ [a])" and "a \<notin> set (x # ys)"
  shows "list_walk h a x = Some (x # ys)"
  using assms
proof (induction ys arbitrary: x)
  case Nil
  then show ?case by (subst list_walk.simps, subst list_walk.simps) (auto simp: list_is_head_def)
next
  case (Cons y ys)
  then have "list_walk h a y = Some (y # ys)" by simp
  with Cons.prems show ?case by (subst list_walk.simps) (auto simp: list_is_head_def)
qed

lemma list_for_each_dlist:
  assumes "dlist h a xs"
  shows "list_for_each h a = Some xs"
proof (cases xs)
  case Nil
  with assms show ?thesis
    by (simp add: list_for_each_def dlist_Nil_iff) (subst list_walk.simps, simp add: list_is_head_def)
next
  case (Cons x ys)
  with assms have "next_of h a = x" and "list_walk h a x = Some (x # ys)"
    by (auto simp: dlist_def intro!: list_walk_linked)
  with Cons show ?thesis by (simp add: list_for_each_def)
qed

lemma list_find_linked:
  assumes "linked h (x # ys @ [a])" and "a \<notin> set (x # ys)"
  shows "list_find_from h a P x = Some (List.find P (x # ys))"
  using assms
proof (induction ys arbitrary: x)
  case Nil
  then show ?case
    by (subst list_find_from.simps, subst list_find_from.simps) (auto simp: list_is_head_def)
next
  case (Cons y ys)
  then have "list_find_from h a P y = Some (List.find P (y # ys))" by simp
  with Cons.prems show ?case by (subst list_find_from.simps) (auto simp: list_is_head_def)
qed

lemma list_find_dlist:
  assumes "dlist h a xs"
  shows "list_find h a P = Some (List.find P xs)"
proof (cases xs)
  case Nil
  with assms show ?thesis
    by (simp add: list_find_def dlist_Nil_iff) (subst list_find_from.simps, simp add: list_is_head_def)
next
  case (Cons x ys)
  with assms have "next_of h a = x" and "list_find_from h a P x = Some (List.find P (x # ys))"
    by (auto simp: dlist_def intro!: list_find_linked simp del: find.simps)
  with Cons show ?thesis by (simp add: list_find_def)
qed

text \<open>Deleting while iterating empties the list and touches no node of another list.\<close>

lemma list_del_walk_dlist:
  assumes "dlist h a xs"
  shows "\<exists>h'. list_del_walk h a (next_of h a) (next_of h (next_of h a)) = Some h' \<and> dlist h' a [] \<and>
    (\<forall>p. p \<notin> set (a # xs) \<longrightarrow> next_of h' p = next_of h p \<and> prev_of h' p = prev_of h p)"
  using assms
proof (induction xs arbitrary: h)
  case Nil
  then show ?case by (subst list_del_walk.simps) (simp add: list_is_head_def dlist_Nil_iff)
next
  case (Cons x xs)
  let ?h = "list_del x h"
  have x: "next_of h a = x" and ax: "a \<noteq> x" "x \<notin> set xs" "a \<notin> set xs"
    using Cons.prems dlist_next [OF Cons.prems] by (auto simp: dlist_def)
  have d: "dlist ?h a xs" using dlist_list_del [of h a "[]" x xs] Cons.prems by simp
  have save: "next_of h x = next_of ?h a"
  proof -
    have "next_of h x = List.hd (xs @ [a])"
      using Cons.prems linked_first [of h x xs a] by (simp add: dlist_def)
    also have "\<dots> = next_of ?h a" using dlist_next [OF d] by simp
    finally show ?thesis .
  qed
  obtain h' where h': "list_del_walk ?h a (next_of ?h a) (next_of ?h (next_of ?h a)) = Some h'"
      "dlist h' a []"
      "\<forall>p. p \<notin> set (a # xs) \<longrightarrow> next_of h' p = next_of ?h p \<and> prev_of h' p = prev_of ?h p"
    using Cons.IH [OF d] by blast
  have "list_del_walk h a (next_of h a) (next_of h (next_of h a)) = Some h'"
    using h'(1) ax x save
    by (subst list_del_walk.simps) (simp add: list_is_head_def Let_def)
  moreover have "next_of h' p = next_of h p \<and> prev_of h' p = prev_of h p"
    if "p \<notin> set (a # x # xs)" for p
    using h'(3) that list_del_frame [OF Cons.prems, of x p] by simp
  ultimately show ?case using h'(2) by blast
qed

lemma dlists_del_each:
  assumes D: "dlists h A F" and a: "a \<in> A"
  shows "\<exists>h'. list_del_each a h = Some h' \<and> dlists h' A (F(a := []))"
proof -
  obtain h' where "list_del_each a h = Some h'" and "dlist h' a []"
    and fr: "\<forall>p. p \<notin> set (a # F a) \<longrightarrow> next_of h' p = next_of h p \<and> prev_of h' p = prev_of h p"
    using list_del_walk_dlist [OF dlistsD [OF D a]] unfolding list_del_each_def by blast
  moreover have "dlists h' A (F(a := []))"
    by (rule dlists_upd [OF D a \<open>dlist h' a []\<close>]) (use fr in auto)
  ultimately show ?thesis by blast
qed

section \<open>The interface the kernel's components use\<close>

text \<open>
  What a component that keeps its objects on lists relies on: a state of lists, abstractly a
  function from sentinels to sequences of nodes, and the laws of the operations on it.  The lemmas
  of the locale are the compound steps the kernel performs: taking the first entry, and moving an
  entry from one list to another.
\<close>

locale list_provider =
  fixes inv :: "'h \<Rightarrow> 'p set \<Rightarrow> ('p \<Rightarrow> 'p list) \<Rightarrow> bool"
    and add :: "'p \<Rightarrow> 'p \<Rightarrow> 'h \<Rightarrow> 'h"
    and add_tail :: "'p \<Rightarrow> 'p \<Rightarrow> 'h \<Rightarrow> 'h"
    and del :: "'p \<Rightarrow> 'h \<Rightarrow> 'h"
    and empty :: "'h \<Rightarrow> 'p \<Rightarrow> bool"
    and first :: "'h \<Rightarrow> 'p \<Rightarrow> 'p"
  assumes inv_distinct: "inv h A F \<Longrightarrow> a \<in> A \<Longrightarrow> distinct (F a)"
    and inv_heads: "inv h A F \<Longrightarrow> a \<in> A \<Longrightarrow> b \<in> A \<Longrightarrow> a \<notin> set (F b)"
    and inv_disjoint: "inv h A F \<Longrightarrow> a \<in> A \<Longrightarrow> b \<in> A \<Longrightarrow> a \<noteq> b \<Longrightarrow> set (F a) \<inter> set (F b) = {}"
    and empty_iff: "inv h A F \<Longrightarrow> a \<in> A \<Longrightarrow> empty h a \<longleftrightarrow> F a = []"
    and first_eq: "inv h A F \<Longrightarrow> a \<in> A \<Longrightarrow> F a \<noteq> [] \<Longrightarrow> first h a = hd (F a)"
    and inv_add: "inv h A F \<Longrightarrow> a \<in> A \<Longrightarrow> x \<notin> A \<Longrightarrow> (\<And>b. b \<in> A \<Longrightarrow> x \<notin> set (F b)) \<Longrightarrow>
      inv (add a x h) A (F(a := x # F a))"
    and inv_add_tail: "inv h A F \<Longrightarrow> a \<in> A \<Longrightarrow> x \<notin> A \<Longrightarrow> (\<And>b. b \<in> A \<Longrightarrow> x \<notin> set (F b)) \<Longrightarrow>
      inv (add_tail a x h) A (F(a := F a @ [x]))"
    and inv_del: "inv h A F \<Longrightarrow> a \<in> A \<Longrightarrow> x \<in> set (F a) \<Longrightarrow>
      inv (del x h) A (F(a := remove1 x (F a)))"
begin

lemma on_one_list:
  assumes "inv h A F" and "a \<in> A" and "b \<in> A" and "x \<in> set (F a)"
  shows "x \<in> set (remove1 x (F a)) \<longleftrightarrow> False" and "x \<in> set (F b) \<longleftrightarrow> b = a" and "x \<notin> A"
  using inv_distinct [OF assms(1,2)] inv_disjoint [OF assms(1-3)] inv_heads [OF assms(1) _ assms(2)]
    assms by auto

lemma pop:
  assumes "inv h A F" and "a \<in> A" and "\<not> empty h a"
  shows "F a = first h a # tl (F a)"
    and "inv (del (first h a) h) A (F(a := tl (F a)))"
proof -
  have ne: "F a \<noteq> []" using empty_iff [OF assms(1,2)] assms(3) by simp
  with first_eq [OF assms(1,2)] show fa: "F a = first h a # tl (F a)" by simp
  have mem: "first h a \<in> set (F a)" using fa by (metis list.set_intros(1))
  have "remove1 (first h a) (F a) = tl (F a)" by (subst fa) simp
  with inv_del [OF assms(1,2) mem] show "inv (del (first h a) h) A (F(a := tl (F a)))" by simp
qed

lemma moved_off:
  assumes "inv h A F" and "a \<in> A" and "x \<in> set (F a)" and "c \<in> A"
  shows "x \<notin> set ((F(a := remove1 x (F a))) c)"
  using on_one_list [OF assms(1,2) assms(4,3)] by auto

lemma move:
  assumes I: "inv h A F" and a: "a \<in> A" and b: "b \<in> A" and "a \<noteq> b" and x: "x \<in> set (F a)"
  shows "inv (add b x (del x h)) A (F(a := remove1 x (F a), b := x # F b))"
proof -
  have "inv (add b x (del x h)) A ((F(a := remove1 x (F a)))(b := x # (F(a := remove1 x (F a))) b))"
    by (rule inv_add [OF inv_del [OF I a x] b on_one_list(3) [OF I a a x] moved_off [OF I a x]])
  with \<open>a \<noteq> b\<close> show ?thesis by simp
qed

lemma move_tail:
  assumes I: "inv h A F" and a: "a \<in> A" and b: "b \<in> A" and "a \<noteq> b" and x: "x \<in> set (F a)"
  shows "inv (add_tail b x (del x h)) A (F(a := remove1 x (F a), b := F b @ [x]))"
proof -
  have "inv (add_tail b x (del x h)) A ((F(a := remove1 x (F a)))(b := (F(a := remove1 x (F a))) b @ [x]))"
    by (rule inv_add_tail [OF inv_del [OF I a x] b on_one_list(3) [OF I a a x] moved_off [OF I a x]])
  with \<open>a \<noteq> b\<close> show ?thesis by simp
qed

lemma add_del:
  assumes I: "inv h A F" and a: "a \<in> A" and x: "x \<notin> A" "\<And>b. b \<in> A \<Longrightarrow> x \<notin> set (F b)"
  shows "inv (del x (add a x h)) A F"
  using inv_del [OF inv_add [OF I a x] a, of x] by simp

end

interpretation kl: list_provider dlists list_add list_add_tail list_del list_is_empty next_of
proof unfold_locales
  fix h :: "'a::zero list_heap" and A F a b x
  assume D: "dlists h A F" and a: "a \<in> A"
  show "distinct (F a)" using dlistsD [OF D a] by (simp add: dlist_def)
  show "list_is_empty h a \<longleftrightarrow> F a = []" by (rule list_is_empty_iff [OF dlistsD [OF D a]])
  show "next_of h a = hd (F a)" if "F a \<noteq> []"
    using dlist_next [OF dlistsD [OF D a]] that by simp
  show "a \<notin> set (F b)" if "b \<in> A"
    using dlistsD [OF D a] dlists_disjoint [OF D a that] by (cases "a = b") (auto simp: dlist_def)
  show "set (F a) \<inter> set (F b) = {}" if "b \<in> A" "a \<noteq> b"
    using dlists_disjoint [OF D a that] by auto
qed (auto intro: dlists_add dlists_add_tail dlists_del)

section \<open>Properties\<close>

text \<open>
  C1: on a well-formed list, iteration after \<^verbatim>\<open>list_add\<close> visits the new entry first, after
  \<^verbatim>\<open>list_add_tail\<close> last, and after \<^verbatim>\<open>list_del\<close> of an entry visits the remaining ones in their order; all
  three loops end.
\<close>

theorem list_ops_traversal:
  fixes h :: "'p::zero list_heap"
  assumes "dlist h a xs" and "x \<notin> set (a # xs)" and "y \<in> set xs"
  shows "list_for_each (list_add a x h) a = Some (x # xs) \<and>
    list_for_each (list_add_tail a x h) a = Some (xs @ [x]) \<and>
    list_for_each (list_del y h) a = Some (remove1 y xs)"
proof -
  obtain ys zs where xs: "xs = ys @ y # zs" "y \<notin> set ys" using split_list_first [OF assms(3)] by blast
  have "dlist (list_del y h) a (remove1 y xs)"
    using dlist_list_del [OF assms(1) [unfolded xs(1)]] xs by (simp add: remove1_append)
  then show ?thesis
    using dlist_list_add [OF assms(1,2)] dlist_list_add_tail [OF assms(1,2)]
    by (blast intro: list_for_each_dlist)
qed

definition sample_list :: "nat list_heap" where
  "sample_list = list_add_tail 1 3 (list_add 1 2 (INIT_LIST_HEAD 1 \<lparr>next_of = \<lambda>_. 0, prev_of = \<lambda>_. 0\<rparr>))"

lemma sample_list_ok: "dlist sample_list 1 [2, 3]"
  by (simp add: sample_list_def dlist_def list_op_defs heap_simps)

theorem list_ops_traversal_witness:
  "list_for_each (list_add 1 4 sample_list) 1 = Some [4, 2, 3] \<and>
   list_for_each (list_add_tail 1 4 sample_list) 1 = Some [2, 3, 4] \<and>
   list_for_each (list_del 2 sample_list) 1 = Some [3]"
  using list_ops_traversal [OF sample_list_ok, of 4 2] by simp

text \<open>
  In a family of lists, moving an entry from one list to the front of another
  (\<^verbatim>\<open>list_del\<close>, then \<^verbatim>\<open>list_add\<close>) takes it off the first, puts it on the second and leaves every other
  list of the family as it was.
\<close>

theorem list_move_correct:
  fixes h :: "'p::zero list_heap"
  assumes "dlists h A F" and "a \<in> A" and "b \<in> A" and "a \<noteq> b" and "x \<in> set (F a)"
  shows "dlists (list_add b x (list_del x h)) A (F(a := remove1 x (F a), b := x # F b))"
  by (rule kl.move [OF assms])

definition sample_lists :: "nat list_heap" where
  "sample_lists = INIT_LIST_HEAD 9 sample_list"

definition sample_family :: "nat \<Rightarrow> nat list" where
  "sample_family a = (if a = 1 then [2, 3] else [])"

lemma sample_lists_ok: "dlists sample_lists {1, 9} sample_family"
  by (simp add: sample_family_def sample_lists_def sample_list_def dlists_def dlist_def list_op_defs
    heap_simps)

theorem list_move_correct_witness:
  "dlists (list_add 9 2 (list_del 2 sample_lists)) {1, 9} (sample_family(1 := [3], 9 := [2]))"
  using list_move_correct [OF sample_lists_ok, of 1 9 2] by (simp add: sample_family_def)

end
