(* ===== verification/Zone.thy ===== *)
theory Zone
  imports Linked_List
begin

text \<open>
  The data of the physical memory manager (\<^verbatim>\<open>include/zone.h\<close>): page descriptors, the
  memory zone with its free areas, and the flag operations on descriptors.

  A \<^verbatim>\<open>struct page *\<close> is an index into \<^verbatim>\<open>zone_mem_map\<close>.  The list nodes of the zone are the
  sentinels \<^verbatim>\<open>free_area[o].free_list\<close> (\<open>FL o\<close>) and the \<^verbatim>\<open>lru\<close> fields of the descriptors
  (\<open>LRU i\<close>); \<open>Ext a\<close> is an address outside the zone, which the slab allocator stores in the
  \<^verbatim>\<open>lru\<close> field of a page it owns.  The kernel has one zone, so a \<^verbatim>\<open>page->zone\<close> pointer is either
  null or that zone.  Counters and flags are 32-bit words; page indices and orders are natural
  numbers (there are at most \<open>2 ^ 20\<close> pages of 4 KiB in a 32-bit address space).

  The flag macros are written without parentheses, so \<^verbatim>\<open>~PG_FLAG_private\<close> is \<^verbatim>\<open>(~1) << 4\<close>.  The
  definitions keep that reading, and the lemmas say which bits each operation really changes.
\<close>

section \<open>Data\<close>

definition BUDDY_GROUPS :: nat where "BUDDY_GROUPS = 11"

definition PAGE_SIZE :: nat where "PAGE_SIZE = 4096"

definition PG_FLAG_private :: u32 where "PG_FLAG_private = push_bit 4 1"
definition PG_FLAG_TAKEN :: u32 where "PG_FLAG_TAKEN = push_bit 6 1"
definition PG_FLAG_RESERVED :: u32 where "PG_FLAG_RESERVED = push_bit 7 1"
definition PG_FLAG_slab :: u32 where "PG_FLAG_slab = push_bit 8 1"

datatype bnode = NULLP | FL nat | LRU nat | Ext u32

instantiation bnode :: zero
begin
definition zero_bnode :: bnode where "zero_bnode = NULLP"
instance ..
end

datatype zone_ptr = NULL_ZONE | ZONE

record page =
  page_zone :: zone_ptr
  page_no :: u32
  flags :: u32
  ref_cnt :: u32
  map_count :: u32
  page_private :: u32
  first_page :: "nat option"

record zone =
  free_pages :: u32
  present_pages :: nat
  pages_min :: u32
  pages_low :: u32
  zone_start_pfn :: u32
  zone_mem_map :: "page list"
  nr_free :: "nat \<Rightarrow> u32"
  lists :: "bnode list_heap"

section \<open>Flags\<close>

definition IS_FLAG :: "u32 \<Rightarrow> u32 \<Rightarrow> bool" where
  "IS_FLAG var flag \<longleftrightarrow> (var AND flag) = flag"

definition CLEAR_FLAG :: "u32 \<Rightarrow> u32 \<Rightarrow> u32" where
  "CLEAR_FLAG var flag = (var AND NOT flag)"

definition SET_FLAG :: "u32 \<Rightarrow> u32 \<Rightarrow> u32" where
  "SET_FLAG var flag = (var OR flag)"

definition ClearPagePrivate :: "page \<Rightarrow> page" where
  "ClearPagePrivate p = p\<lparr>flags := flags p AND push_bit 4 (NOT 1)\<rparr>"

definition ClearPageSlab :: "page \<Rightarrow> page" where
  "ClearPageSlab p = p\<lparr>flags := flags p AND push_bit 8 (NOT 1)\<rparr>"

definition SetPagePrivate :: "page \<Rightarrow> page" where
  "SetPagePrivate p = p\<lparr>flags := flags p OR PG_FLAG_private\<rparr>"

definition SetPageSlab :: "page \<Rightarrow> page" where
  "SetPageSlab p = p\<lparr>flags := flags p OR PG_FLAG_slab\<rparr>"

definition PagePrivate :: "page \<Rightarrow> bool" where
  "PagePrivate p \<longleftrightarrow> (flags p AND PG_FLAG_private) = PG_FLAG_private"

section \<open>Access to descriptors and free areas\<close>

definition get_page :: "zone \<Rightarrow> nat \<Rightarrow> page option" where
  "get_page z i = (if i < length (zone_mem_map z) then Some (zone_mem_map z ! i) else None)"

definition upd_page :: "nat \<Rightarrow> (page \<Rightarrow> page) \<Rightarrow> zone \<Rightarrow> zone option" where
  "upd_page i f z =
     (if i < length (zone_mem_map z)
      then Some (z\<lparr>zone_mem_map := (zone_mem_map z)[i := f (zone_mem_map z ! i)]\<rparr>) else None)"

definition upd_nr_free :: "nat \<Rightarrow> (u32 \<Rightarrow> u32) \<Rightarrow> zone \<Rightarrow> zone" where
  "upd_nr_free k f z = z\<lparr>nr_free := (nr_free z)(k := f (nr_free z k))\<rparr>"

definition upd_lists :: "(bnode list_heap \<Rightarrow> bnode list_heap) \<Rightarrow> zone \<Rightarrow> zone" where
  "upd_lists f z = z\<lparr>lists := f (lists z)\<rparr>"

fun lru_entry :: "bnode \<Rightarrow> nat option" where
  "lru_entry (LRU i) = Some i"
| "lru_entry _ = None"

section \<open>Lemmas\<close>

lemma bit_push_1: "bit (push_bit k 1 :: u32) n \<longleftrightarrow> n = k \<and> k < 32"
  by (auto simp: bit_simps)

lemma bit_push_not_1: "bit (push_bit k (NOT 1) :: u32) n \<longleftrightarrow> k < n \<and> n < 32"
  by (auto simp: bit_push_bit_iff bit_not_iff bit_1_iff)

lemma bit_flag_masks:
  "bit PG_FLAG_private n \<longleftrightarrow> n = 4" "bit PG_FLAG_TAKEN n \<longleftrightarrow> n = 6"
  "bit PG_FLAG_RESERVED n \<longleftrightarrow> n = 7" "bit PG_FLAG_slab n \<longleftrightarrow> n = 8"
  unfolding PG_FLAG_private_def PG_FLAG_TAKEN_def PG_FLAG_RESERVED_def PG_FLAG_slab_def bit_push_1
  by auto

lemma single_flag_test: "(w AND m) = m \<longleftrightarrow> bit w k" if "\<And>n. bit m n \<longleftrightarrow> n = k" for w m :: u32
  using that bit_imp_le_length [of m k] by (auto simp: bit_eq_iff [of "w AND m" m] bit_and_iff)

lemma single_flag_zero: "(w AND m) = 0 \<longleftrightarrow> \<not> bit w k" if "\<And>n. bit m n \<longleftrightarrow> n = k" for w m :: u32
proof
  assume "(w AND m) = 0"
  then have "\<not> bit (w AND m) k" by simp
  with that show "\<not> bit w k" by (simp add: bit_and_iff)
next
  assume "\<not> bit w k"
  then show "(w AND m) = 0" using that by (intro bit_eqI) (auto simp: bit_and_iff)
qed

lemma IS_FLAG_TAKEN [simp]: "IS_FLAG w PG_FLAG_TAKEN \<longleftrightarrow> bit w 6"
  by (simp add: IS_FLAG_def single_flag_test bit_flag_masks)

lemma IS_FLAG_RESERVED [simp]: "IS_FLAG w PG_FLAG_RESERVED \<longleftrightarrow> bit w 7"
  by (simp add: IS_FLAG_def single_flag_test bit_flag_masks)

lemma PagePrivate_iff: "PagePrivate p \<longleftrightarrow> bit (flags p) 4"
  by (simp add: PagePrivate_def single_flag_test bit_flag_masks)

lemma bit_flags_ClearPagePrivate: "bit (flags (ClearPagePrivate p)) n \<longleftrightarrow> 4 < n \<and> bit (flags p) n"
proof -
  have "bit (flags (ClearPagePrivate p)) n \<longleftrightarrow> bit (flags p) n \<and> bit (push_bit 4 (NOT 1) :: u32) n"
    by (simp add: ClearPagePrivate_def bit_and_iff)
  then show ?thesis
    unfolding bit_push_not_1 using bit_imp_le_length [of "flags p" n] by auto
qed

lemma bit_flags_SetPagePrivate: "bit (flags (SetPagePrivate p)) n \<longleftrightarrow> n = 4 \<or> bit (flags p) n"
  by (auto simp: SetPagePrivate_def bit_or_iff bit_flag_masks)

lemma PagePrivate_Clear [simp]: "\<not> PagePrivate (ClearPagePrivate p)"
  by (simp add: PagePrivate_iff bit_flags_ClearPagePrivate)

lemma PagePrivate_Set [simp]: "PagePrivate (SetPagePrivate p)"
  by (simp add: PagePrivate_iff bit_flags_SetPagePrivate)

lemma PagePrivate_upd [simp]: "PagePrivate (p\<lparr>page_private := v\<rparr>) = PagePrivate p"
  by (simp add: PagePrivate_def)

lemma private_flag_ops [simp]:
  "page_private (ClearPagePrivate p) = page_private p" "page_private (SetPagePrivate p) = page_private p"
  "page_zone (ClearPagePrivate p) = page_zone p" "page_zone (SetPagePrivate p) = page_zone p"
  "page_no (ClearPagePrivate p) = page_no p" "page_no (SetPagePrivate p) = page_no p"
  by (simp_all add: ClearPagePrivate_def SetPagePrivate_def)

text \<open>
  The state of a page that later stages read: the flags above the list flag.  Bits 6 and 7 say
  whether the page may be handed out at all.
\<close>

definition taken :: "page \<Rightarrow> bool" where
  "taken p \<longleftrightarrow> IS_FLAG (flags p) PG_FLAG_TAKEN \<or> IS_FLAG (flags p) PG_FLAG_RESERVED"

lemma taken_ops [simp]:
  "taken (ClearPagePrivate p) = taken p" "taken (SetPagePrivate p) = taken p"
  "taken (p\<lparr>page_private := v\<rparr>) = taken p" "taken (p\<lparr>page_no := w\<rparr>) = taken p"
  "taken (p\<lparr>page_zone := u\<rparr>) = taken p"
  by (simp_all add: taken_def bit_flags_ClearPagePrivate bit_flags_SetPagePrivate)

lemma zone_upd_simps [heap_simps]:
  "lists (upd_lists f z) = f (lists z)" "zone_mem_map (upd_lists f z) = zone_mem_map z"
  "nr_free (upd_lists f z) = nr_free z" "present_pages (upd_lists f z) = present_pages z"
  "free_pages (upd_lists f z) = free_pages z"
  "lists (upd_nr_free k g z) = lists z" "zone_mem_map (upd_nr_free k g z) = zone_mem_map z"
  "nr_free (upd_nr_free k g z) = (nr_free z)(k := g (nr_free z k))"
  "present_pages (upd_nr_free k g z) = present_pages z"
  "free_pages (upd_nr_free k g z) = free_pages z"
  "zone_start_pfn (upd_lists f z) = zone_start_pfn z" "zone_start_pfn (upd_nr_free k g z) = zone_start_pfn z"
  by (simp_all add: upd_lists_def upd_nr_free_def)

end
