(* ===== verification/Buddy_Spec.thy ===== *)
theory Buddy_Spec
  imports Buddy_Blocks Zone
begin

text \<open>
  What the buddy allocator promises, stated on sequences of free blocks: \<open>alloc_spec\<close> and
  \<open>free_spec\<close>, the set of free pages they maintain, the invariants they keep (blocks aligned, inside
  the zone and disjoint; no two free buddies side by side) and the completeness of allocation in
  a coalesced system.  The theory \<open>Buddy\<close> shows that the code implements them.
\<close>

section \<open>An abstract buddy system\<close>

text \<open>
  The abstract state is the sequence of free blocks of each order.  \<open>alloc_spec\<close> and
  \<open>free_spec\<close> say what allocation and freeing do to it.
\<close>

type_synonym free_lists = "nat \<Rightarrow> nat list"

definition blocks :: "free_lists \<Rightarrow> (nat \<times> nat) set" where
  "blocks G = {(i, k). k < BUDDY_GROUPS \<and> i \<in> set (G k)}"

definition free_set :: "free_lists \<Rightarrow> nat set" where
  "free_set G = (\<Union>(i, k) \<in> blocks G. block i k)"

definition wf_blocks :: "nat \<Rightarrow> free_lists \<Rightarrow> bool" where
  "wf_blocks n G \<longleftrightarrow>
     (\<forall>k < BUDDY_GROUPS. distinct (G k)) \<and>
     (\<forall>(i, k) \<in> blocks G. aligned i k \<and> i + 2 ^ k \<le> n) \<and>
     (\<forall>i k j l x. (i, k) \<in> blocks G \<longrightarrow> (j, l) \<in> blocks G \<longrightarrow> x \<in> block i k \<longrightarrow> x \<in> block j l \<longrightarrow>
        i = j \<and> k = l)"

definition coalesced :: "free_lists \<Rightarrow> bool" where
  "coalesced G \<longleftrightarrow> (\<forall>k < BUDDY_GROUPS - 1. \<forall>i \<in> set (G k). (i XOR 2 ^ k) \<notin> set (G k))"

function first_area :: "free_lists \<Rightarrow> nat \<Rightarrow> nat option" where
  "first_area G k = (if k < BUDDY_GROUPS then if G k \<noteq> [] then Some k else first_area G (Suc k) else None)"
  by auto
termination by (relation "measure (\<lambda>(G, k). BUDDY_GROUPS - k)") auto

definition split_spec :: "nat \<Rightarrow> nat \<Rightarrow> nat \<Rightarrow> free_lists \<Rightarrow> free_lists" where
  "split_spec p order c G = (\<lambda>k. if order \<le> k \<and> k < c then (p + 2 ^ k) # G k else G k)"

definition alloc_spec :: "free_lists \<Rightarrow> nat \<Rightarrow> nat option \<times> free_lists" where
  "alloc_spec G order = (case first_area G order of
       None \<Rightarrow> (None, G)
     | Some c \<Rightarrow> (Some (hd (G c)), split_spec (hd (G c)) order c (G(c := tl (G c)))))"

function free_spec :: "nat \<Rightarrow> nat \<Rightarrow> free_lists \<Rightarrow> free_lists" where
  "free_spec i k G =
     (if k < BUDDY_GROUPS - 1 \<and> (i XOR 2 ^ k) \<in> set (G k)
      then free_spec (i AND (i XOR 2 ^ k)) (Suc k) (G(k := remove1 (i XOR 2 ^ k) (G k)))
      else G(k := i # G k))"
  by auto
termination by (relation "measure (\<lambda>(i, k, G). BUDDY_GROUPS - k)") auto

declare first_area.simps [simp del] free_spec.simps [simp del]

subsection \<open>Taking and adding a block\<close>

lemma blocks_upd_cons: "k < BUDDY_GROUPS \<Longrightarrow> blocks (G(k := i # G k)) = insert (i, k) (blocks G)"
  by (auto simp: blocks_def split: if_splits)

lemma blocks_upd_remove: "distinct (G k) \<Longrightarrow> blocks (G(k := remove1 i (G k))) = blocks G - {(i, k)}"
  by (auto simp: blocks_def split: if_splits)

lemma wf_blocksD:
  assumes "wf_blocks n G" and "(i, k) \<in> blocks G"
  shows "aligned i k" and "i + 2 ^ k \<le> n" and "k < BUDDY_GROUPS" and "block i k \<subseteq> free_set G"
  using assms by (auto simp: wf_blocks_def blocks_def free_set_def)

lemma wf_blocks_disjoint:
  "wf_blocks n G \<Longrightarrow> (i, k) \<in> blocks G \<Longrightarrow> (j, l) \<in> blocks G \<Longrightarrow> x \<in> block i k \<Longrightarrow> x \<in> block j l \<Longrightarrow>
    i = j \<and> k = l"
  unfolding wf_blocks_def by blast

lemma free_set_iff: "x \<in> free_set G \<longleftrightarrow> (\<exists>i k. (i, k) \<in> blocks G \<and> x \<in> block i k)"
  by (auto simp: free_set_def)

lemma wf_take:
  assumes wf: "wf_blocks n G" and ik: "(i, k) \<in> blocks G"
  shows "wf_blocks n (G(k := remove1 i (G k)))"
    and "free_set (G(k := remove1 i (G k))) = free_set G - block i k"
proof -
  have d: "distinct (G k)" using wf ik by (auto simp: wf_blocks_def blocks_def)
  show "wf_blocks n (G(k := remove1 i (G k)))"
    using wf unfolding wf_blocks_def blocks_upd_remove [where G = G and k = k, OF d] by auto
  show "free_set (G(k := remove1 i (G k))) = free_set G - block i k"
    unfolding set_eq_iff Diff_iff free_set_iff blocks_upd_remove [where G = G and k = k, OF d]
    using wf_blocks_disjoint [OF wf _ ik] ik by fast
qed

lemma wf_put:
  assumes wf: "wf_blocks n G" and k: "k < BUDDY_GROUPS" and a: "aligned i k" and b: "i + 2 ^ k \<le> n"
    and disj: "block i k \<inter> free_set G = {}"
  shows "wf_blocks n (G(k := i # G k))"
    and "free_set (G(k := i # G k)) = block i k \<union> free_set G"
proof -
  have sep: "x \<in> block j l \<Longrightarrow> x \<notin> block i k" if "(j, l) \<in> blocks G" for j l x
    using disj that by (auto simp: free_set_def)
  have "i \<notin> set (G k)" using sep [of i k i] k by (auto simp: blocks_def)
  then show "wf_blocks n (G(k := i # G k))"
    using wf a b unfolding wf_blocks_def blocks_upd_cons [where G = G, OF k] by (auto dest: sep)
  show "free_set (G(k := i # G k)) = block i k \<union> free_set G"
    by (simp add: free_set_def blocks_upd_cons k)
qed

lemma coalesced_remove: "coalesced G \<Longrightarrow> coalesced (G(k := remove1 i (G k)))"
  by (auto simp: coalesced_def dest: notin_set_remove1)

lemma coalesced_put:
  assumes "coalesced G" and "k < BUDDY_GROUPS - 1 \<Longrightarrow> (i XOR 2 ^ k) \<notin> set (G k)" 
  shows "coalesced (G(k := i # G k))"
proof -
  have "j XOR 2 ^ k \<noteq> i" if "j \<in> set (G k)" "k < BUDDY_GROUPS - 1" for j
    using assms(2) [OF that(2)] that buddy_involution [of j k] by metis
  then show ?thesis using assms buddy_neq [of i k] unfolding coalesced_def by auto
qed

subsection \<open>Freeing\<close>

lemma free_spec_correct:
  assumes "wf_blocks n G" and "k < BUDDY_GROUPS" and "aligned i k" and "i + 2 ^ k \<le> n"
    and "block i k \<inter> free_set G = {}"
  shows "wf_blocks n (free_spec i k G) \<and> free_set (free_spec i k G) = block i k \<union> free_set G"
  using assms
proof (induction i k G rule: free_spec.induct)
  case (1 i k G)
  let ?b = "i XOR 2 ^ k"
  show ?case
  proof (cases "k < BUDDY_GROUPS - 1 \<and> ?b \<in> set (G k)")
    case True
    then have b: "(?b, k) \<in> blocks G" by (auto simp: blocks_def)
    note take = wf_take [OF "1.prems"(1) b]
    have "wf_blocks n (free_spec (i AND ?b) (Suc k) (G(k := remove1 ?b (G k)))) \<and>
       free_set (free_spec (i AND ?b) (Suc k) (G(k := remove1 ?b (G k))))
       = block (i AND ?b) (Suc k) \<union> free_set (G(k := remove1 ?b (G k)))"
      by (rule "1.IH" [OF True take(1)])
        (use True "1.prems" take(2) in \<open>auto simp: merged_aligned merged_block
           simp del: power_Suc fun_upd_apply intro: merged_bound wf_blocksD(2) [OF "1.prems"(1) b]\<close>)
    moreover have "block ?b k \<subseteq> free_set G" by (rule wf_blocksD(4) [OF "1.prems"(1) b])
    ultimately show ?thesis
      using True take(2) merged_block [OF "1.prems"(3)] by (auto simp: free_spec.simps [of i k G])
  next
    case False
    then have "free_spec i k G = G(k := i # G k)" by (subst free_spec.simps) (simp only: if_False)
    with wf_put [OF "1.prems"] show ?thesis by (simp del: fun_upd_apply)
  qed
qed

lemma free_spec_coalesced: "coalesced G \<Longrightarrow> coalesced (free_spec i k G)"
proof (induction i k G rule: free_spec.induct)
  case (1 i k G)
  then show ?case
    using coalesced_remove [OF "1.prems"] coalesced_put [OF "1.prems", of k i]
    by (subst free_spec.simps) (auto simp del: fun_upd_apply)
qed

subsection \<open>Allocation\<close>

lemma first_area_None: "first_area G k = None \<longleftrightarrow> (\<forall>l. k \<le> l \<longrightarrow> l < BUDDY_GROUPS \<longrightarrow> G l = [])"
proof (induction G k rule: first_area.induct)
  case (1 G k)
  then show ?case
    by (cases "k < BUDDY_GROUPS \<and> G k = []")
      (auto simp: first_area.simps [of G k] Suc_le_eq dest: le_neq_implies_less)
qed

lemma first_area_Some:
  "first_area G k = Some c \<Longrightarrow> k \<le> c \<and> c < BUDDY_GROUPS \<and> G c \<noteq> [] \<and> (\<forall>l. k \<le> l \<longrightarrow> l < c \<longrightarrow> G l = [])"
proof (induction G k rule: first_area.induct)
  case (1 G k)
  from "1.prems" show ?case
    by (subst (asm) first_area.simps)
      (use "1.IH" in \<open>auto simp: Suc_le_eq dest: le_neq_implies_less split: if_splits\<close>)
qed

lemma split_spec_step:
  "order \<le> c \<Longrightarrow> split_spec p order (Suc c) G = split_spec p order c (G(c := (p + 2 ^ c) # G c))"
  by (auto simp: split_spec_def fun_eq_iff)

lemma split_spec_none: "c \<le> order \<Longrightarrow> split_spec p order c G = G"
  by (auto simp: split_spec_def)

lemma block_halves: "block p (Suc k) = block p k \<union> block (p + 2 ^ k) k"
    "block p k \<inter> block (p + 2 ^ k) k = {}"
  by (auto simp: block_def)

lemma split_spec_correct:
  assumes "wf_blocks n G" and "order \<le> c" and "c < BUDDY_GROUPS" and "aligned p c" and "p + 2 ^ c \<le> n"
    and "block p c \<inter> free_set G = {}"
  shows "wf_blocks n (split_spec p order c G) \<and>
    free_set (split_spec p order c G) = free_set G \<union> (block p c - block p order)"
  using assms
proof (induction c arbitrary: G)
  case 0
  then show ?case by (simp add: split_spec_none)
next
  case (Suc c)
  show ?case
  proof (cases "order \<le> c")
    case True
    note prems = Suc.prems(1,3-6)
    have al: "aligned p c" using Suc.prems(4) by (rule aligned_mono) simp
    have put: "wf_blocks n (G(c := (p + 2 ^ c) # G c))"
      "free_set (G(c := (p + 2 ^ c) # G c)) = block (p + 2 ^ c) c \<union> free_set G"
      by (rule wf_put [OF Suc.prems(1)]; use prems block_halves [of p c] al in \<open>auto simp: aligned_add simp del: fun_upd_apply\<close>)+
    have IH: "wf_blocks n (split_spec p order c (G(c := (p + 2 ^ c) # G c))) \<and>
        free_set (split_spec p order c (G(c := (p + 2 ^ c) # G c)))
        = free_set (G(c := (p + 2 ^ c) # G c)) \<union> (block p c - block p order)"
      by (rule Suc.IH [OF put(1) True]; use prems put(2) block_halves [of p c] al in \<open>auto simp del: fun_upd_apply\<close>)
    have "block p order \<inter> block (p + 2 ^ c) c = {}"
      using True power_increasing [of order c "2::nat"] by (auto simp: block_def)
    with IH put(2) block_halves [of p c] show ?thesis
      unfolding split_spec_step [OF True] by auto
  next
    case False
    with Suc.prems(2) have "order = Suc c" by simp
    then show ?thesis using Suc.prems(1) by (simp add: split_spec_none)
  qed
qed

lemma alloc_spec_correct:
  assumes wf: "wf_blocks n G" and a: "alloc_spec G order = (Some p, G')"
  shows "wf_blocks n G'" and "aligned p order" and "p + 2 ^ order \<le> n"
    and "block p order \<subseteq> free_set G" and "free_set G' = free_set G - block p order"
proof -
  from a obtain c where c: "first_area G order = Some c" and p: "p = hd (G c)"
    and G': "G' = split_spec p order c (G(c := tl (G c)))"
    by (auto simp: alloc_spec_def split: option.splits)
  note fa = first_area_Some [OF c]
  then have pc: "(p, c) \<in> blocks G" and rm: "remove1 p (G c) = tl (G c)"
    using p by (cases "G c"; auto simp: blocks_def)+
  note D = wf_blocksD [OF wf pc] and take = wf_take [OF wf pc, unfolded rm]
  have pw: "2 ^ order \<le> (2::nat) ^ c" using fa by (simp add: power_increasing)
  then have sub: "block p order \<subseteq> block p c" by (auto simp: block_def)
  show "aligned p order" using D(1) fa by (auto intro: aligned_mono)
  show "p + 2 ^ order \<le> n" using D(2) pw by linarith
  show "block p order \<subseteq> free_set G" using sub D(4) by blast
  have S: "wf_blocks n G' \<and> free_set G' = free_set (G(c := tl (G c))) \<union> (block p c - block p order)"
    unfolding G' by (rule split_spec_correct) (use D take fa in auto)
  then show "wf_blocks n G'" by simp
  from S show "free_set G' = free_set G - block p order" using take(2) D(4) sub by auto
qed

lemma alloc_spec_coalesced:
  assumes wf: "wf_blocks n G" and co: "coalesced G" and a: "alloc_spec G order = (Some p, G')"
  shows "coalesced G'"
proof -
  from a obtain c where c: "first_area G order = Some c" and p: "p = hd (G c)"
    and G': "G' = split_spec p order c (G(c := tl (G c)))"
    by (auto simp: alloc_spec_def split: option.splits)
  note fa = first_area_Some [OF c]
  have pc: "(p, c) \<in> blocks G" using p fa by (cases "G c") (auto simp: blocks_def)
  have "aligned p (Suc k)" if "k < c" for k
    using wf_blocksD(1) [OF wf pc] that by (auto intro: aligned_mono)
  then have halves: "(p + 2 ^ k) XOR 2 ^ k = p" if "k < c" for k
    using that buddy_upper_half by blast
  have G'_eq: "G' k = (if order \<le> k \<and> k < c then [p + 2 ^ k] else if k = c then tl (G c) else G k)" for k
    using fa by (auto simp: G' split_spec_def)
  have "x \<in> set (G c)" if "x \<in> set (tl (G c))" for x using fa that by (simp add: list.set_sel(2))
  then show ?thesis
    using co by (auto simp: coalesced_def G'_eq halves)
qed

text \<open>
  In a fully coalesced system an aligned run of free pages always lies inside a single free block.
  So allocation of an order fails only when there is no such run.
\<close>

lemma coalesced_covers:
  assumes wf: "wf_blocks n G" and co: "coalesced G"
  shows "k < BUDDY_GROUPS \<Longrightarrow> aligned b k \<Longrightarrow> block b k \<subseteq> free_set G \<Longrightarrow>
    \<exists>i l. (i, l) \<in> blocks G \<and> k \<le> l \<and> block b k \<subseteq> block i l"
proof (induction k arbitrary: b)
  case 0
  then show ?case by (auto simp: free_set_iff)
next
  case (Suc k)
  have al: "aligned b k" "aligned (b + 2 ^ k) k"
    using aligned_mono [OF Suc.prems(2), of k] aligned_add [of b k] by simp_all
  note halves = block_halves [of b k]
  obtain i l where il: "(i, l) \<in> blocks G" "k \<le> l" "block b k \<subseteq> block i l"
    using Suc.IH [OF _ al(1)] Suc.prems halves by auto
  obtain j m where jm: "(j, m) \<in> blocks G" "k \<le> m" "block (b + 2 ^ k) k \<subseteq> block j m"
    using Suc.IH [OF _ al(2)] Suc.prems halves by auto
  have up: "\<exists>i l. (i, l) \<in> blocks G \<and> Suc k \<le> l \<and> block b (Suc k) \<subseteq> block i l"
    if "(j, m) \<in> blocks G" "k < m" "block c k \<subseteq> block j m" "block c k \<subseteq> block b (Suc k)" for j m c
    using block_nested [OF Suc.prems(2) wf_blocksD(1) [OF wf that(1)]] that block_nonempty(1) [of c k]
    by (metis Suc_leI disjoint_iff subsetD)
  have same: "c = j" if "aligned c k" "(j, k) \<in> blocks G" "block c k \<subseteq> block j k" for c j
  proof -
    have "block c k = block j k"
      using that(3) by (intro card_subset_eq) simp_all
    then show ?thesis by (rule block_inj)
  qed
  consider "k < l" | "k < m" | "l = k" "m = k" using il(2) jm(2) by linarith
  then show ?case
  proof cases
    case 3
    then have "b \<in> set (G k)" "b + 2 ^ k \<in> set (G k)"
      using same [OF al(1)] same [OF al(2)] il jm by (auto simp: blocks_def)
    with co Suc.prems(1) buddy_upper_half [OF Suc.prems(2)] show ?thesis
      unfolding coalesced_def by (metis less_diff_conv Suc_eq_plus1)
  qed (use up il jm halves in blast)+
qed

lemma alloc_spec_complete:
  assumes "wf_blocks n G" and "coalesced G" and "order < BUDDY_GROUPS" and "aligned b order"
    and "block b order \<subseteq> free_set G"
  shows "fst (alloc_spec G order) \<noteq> None"
proof -
  obtain i l where "(i, l) \<in> blocks G" "order \<le> l" using coalesced_covers [OF assms] by blast
  then have "first_area G order \<noteq> None" by (auto simp: first_area_None blocks_def)
  then show ?thesis by (auto simp: alloc_spec_def)
qed

end
