(* ===== verification/Buddy.thy ===== *)
theory Buddy
  imports Buddy_Spec
begin

text \<open>
  The buddy allocator (\<^verbatim>\<open>memory-management/buddy.c\<close>) and its refinement of \<open>Buddy_Spec\<close>.

  \<open>None\<close> is an access outside \<^verbatim>\<open>zone_mem_map\<close> or \<^verbatim>\<open>free_area\<close>, or a list entry that is not a page;
  a null page pointer the code returns is \<open>None\<close> inside the result.  \<^verbatim>\<open>printk\<close> output is not part of
  the state; the values \<^verbatim>\<open>show_buddy\<close> prints are its result.

  \<open>buddy_inv z G\<close> ties the descriptors, counters and linked lists of a zone to the free blocks
  \<open>G\<close> of the abstract system.  The lemmas \<open>allocate_block_refines\<close> and \<open>free_block_refines\<close> show
  that the code's pointer manipulation, its flag tests and its bound check implement \<open>alloc_spec\<close> and
  \<open>free_spec\<close>; the locale \<open>page_source\<close> is what the allocator's clients rely on.
\<close>

section \<open>Allocation\<close>

function find_area :: "zone \<Rightarrow> nat \<Rightarrow> nat option" where
  "find_area z current_order =
     (if current_order < BUDDY_GROUPS then
        if \<not> list_is_empty (lists z) (FL current_order) then Some current_order
        else find_area z (Suc current_order)
      else None)"
  by auto
termination by (relation "measure (\<lambda>(z, c). BUDDY_GROUPS - c)") auto

fun split_block :: "nat \<Rightarrow> nat \<Rightarrow> nat \<Rightarrow> nat \<Rightarrow> zone \<Rightarrow> zone option" where
  "split_block page order 0 sz z = Some z"
| "split_block page order (Suc current_order) sz z =
     (if Suc current_order > order then do {
        let sz = drop_bit 1 sz;
        let buddy = page + sz;
        let z = upd_lists (list_add (FL current_order) (LRU buddy)) z;
        let z = upd_nr_free current_order (\<lambda>n. n + 1) z;
        z \<leftarrow> upd_page buddy (\<lambda>p. SetPagePrivate (p\<lparr>page_private := of_nat current_order\<rparr>)) z;
        split_block page order current_order sz z
      } else Some z)"

definition allocate_block :: "zone \<Rightarrow> nat \<Rightarrow> (nat option \<times> zone) option" where
  "allocate_block z order =
     (case find_area z order of
        None \<Rightarrow> Some (None, z)
      | Some current_order \<Rightarrow> do {
          page \<leftarrow> lru_entry (next_of (lists z) (FL current_order));
          let z = upd_lists (list_del (LRU page)) z;
          z \<leftarrow> upd_page page (\<lambda>p. (ClearPagePrivate p)\<lparr>page_private := 0\<rparr>) z;
          let z = upd_nr_free current_order (\<lambda>n. n - 1) z;
          let z = z\<lparr>free_pages := free_pages z - push_bit order 1\<rparr>;
          let sz = push_bit current_order 1;
          z \<leftarrow> split_block page order current_order sz z;
          Some (Some page, z)
        })"

definition alloc_pages :: "zone \<Rightarrow> u32 \<Rightarrow> nat \<Rightarrow> (nat option \<times> zone) option" where
  "alloc_pages z gfp_flags order = allocate_block z order"

section \<open>Freeing\<close>

definition page_is_buddy :: "page \<Rightarrow> nat \<Rightarrow> bool" where
  "page_is_buddy buddy order \<longleftrightarrow> PagePrivate buddy \<and> page_private buddy = of_nat order"

function coalesce :: "nat \<Rightarrow> nat \<Rightarrow> zone \<Rightarrow> (nat \<times> nat \<times> zone) option" where
  "coalesce page_idx order z =
     (if order < BUDDY_GROUPS - 1 then
        let buddy_idx = page_idx XOR push_bit order 1 in
        if buddy_idx \<ge> present_pages z then Some (page_idx, order, z)
        else do {
          buddy \<leftarrow> get_page z buddy_idx;
          if \<not> page_is_buddy buddy order then Some (page_idx, order, z)
          else do {
            let z = upd_lists (list_del (LRU buddy_idx)) z;
            let z = upd_nr_free order (\<lambda>n. n - 1) z;
            z \<leftarrow> upd_page buddy_idx (\<lambda>p. (ClearPagePrivate p)\<lparr>page_private := 0\<rparr>) z;
            coalesce (page_idx AND buddy_idx) (Suc order) z
          }
        }
      else Some (page_idx, order, z))"
  by auto
termination by (relation "measure (\<lambda>(p, k, z). BUDDY_GROUPS - k)") auto

definition place_block :: "nat \<Rightarrow> nat \<Rightarrow> zone \<Rightarrow> zone option" where
  "place_block page_idx order z = do {
     z \<leftarrow> upd_page page_idx (\<lambda>p. SetPagePrivate (p\<lparr>page_private := of_nat order\<rparr>)) z;
     let z = upd_lists (list_add (FL order) (LRU page_idx)) z;
     Some (upd_nr_free order (\<lambda>n. n + 1) z)
   }"

definition free_block :: "nat \<Rightarrow> zone \<Rightarrow> nat \<Rightarrow> zone option" where
  "free_block page_idx z order =
     (if order < BUDDY_GROUPS then do {
        let z = z\<lparr>free_pages := free_pages z + push_bit order 1\<rparr>;
        (page_idx, order, z) \<leftarrow> coalesce page_idx order z;
        place_block page_idx order z
      } else None)"

definition free_pages_op :: "zone \<Rightarrow> nat \<Rightarrow> nat \<Rightarrow> zone option" where
  "free_pages_op z page order = do {
     p \<leftarrow> get_page z page;
     (case page_zone p of ZONE \<Rightarrow> free_block page z order | NULL_ZONE \<Rightarrow> None)
   }"

declare find_area.simps [simp del] coalesce.simps [simp del]

section \<open>Building the free lists\<close>

function log2_loop :: "nat \<Rightarrow> nat \<Rightarrow> nat" where
  "log2_loop num iOrder = (if num > 1 then log2_loop (drop_bit 1 num) (Suc iOrder) else iOrder)"
  by auto
termination by (relation "measure fst") (auto simp: drop_bit_eq_div)

declare log2_loop.simps [simp del]

definition order_of :: "nat \<Rightarrow> int" where
  "order_of num = (if num = 0 then -1 else int (log2_loop num 0))"

fun ctz :: "nat \<Rightarrow> nat" where
  "ctz n = (if n = 0 \<or> odd n then 0 else Suc (ctz (n div 2)))"

declare ctz.simps [simp del]

definition region_order :: "nat \<Rightarrow> nat \<Rightarrow> nat" where
  "region_order current remaining =
     (let alignment = (if current \<noteq> 0 then ctz current else BUDDY_GROUPS);
          size_order = log2_loop remaining 0;
          max_order = (if alignment < size_order then alignment else size_order)
      in if max_order \<ge> BUDDY_GROUPS then BUDDY_GROUPS - 1 else max_order)"

function add_free_region_to_buddy :: "zone \<Rightarrow> nat \<Rightarrow> nat \<Rightarrow> zone option" where
  "add_free_region_to_buddy z current en =
     (if current \<le> en then do {
        let max_order = region_order current (en - current + 1);
        z \<leftarrow> free_block current z max_order;
        add_free_region_to_buddy z (current + push_bit max_order 1) en
      } else Some z)"
  by auto
termination by (relation "measure (\<lambda>(z, c, e). Suc e - c)") (auto intro: diff_less_mono2)

declare add_free_region_to_buddy.simps [simp del]

function skip_taken :: "zone \<Rightarrow> nat \<Rightarrow> nat option" where
  "skip_taken z iCnt =
     (if iCnt < present_pages z then do {
        p \<leftarrow> get_page z iCnt;
        if taken p then skip_taken z (Suc iCnt) else Some iCnt
      } else Some iCnt)"
  by auto
termination by (relation "measure (\<lambda>(z, c). present_pages z - c)") auto

declare skip_taken.simps [simp del]

partial_function (option) scan_zone :: "nat \<Rightarrow> nat \<Rightarrow> zone \<Rightarrow> (nat \<times> zone) option" where
  "scan_zone iPrev iCnt z =
     (if iCnt < present_pages z then do {
        p \<leftarrow> get_page z iCnt;
        if taken p then do {
          z \<leftarrow> (if iPrev < iCnt then add_free_region_to_buddy z iPrev (iCnt - 1) else Some z);
          iCnt \<leftarrow> skip_taken z iCnt;
          scan_zone iCnt iCnt z
        } else scan_zone iPrev (Suc iCnt) z
      } else Some (iPrev, z))"

function init_zone_pages :: "nat \<Rightarrow> zone \<Rightarrow> zone option" where
  "init_zone_pages iCnt z =
     (if iCnt < present_pages z then do {
        z' \<leftarrow> upd_page iCnt (\<lambda>p. p\<lparr>page_no := of_nat iCnt, page_zone := ZONE\<rparr>) z;
        init_zone_pages (Suc iCnt) (upd_lists (INIT_LIST_HEAD (LRU iCnt)) z')
      } else Some z)"
  by auto
termination by (relation "measure (\<lambda>(c, z). present_pages z - c)")
    (auto simp: upd_page_def upd_lists_def split: if_splits)

declare init_zone_pages.simps [simp del]

definition build_free_lists :: "zone \<Rightarrow> zone option" where
  "build_free_lists z = do {
     z \<leftarrow> init_zone_pages 0 z;
     iCnt \<leftarrow> skip_taken z 0;
     (iPrev, z) \<leftarrow> scan_zone iCnt iCnt z;
     if iPrev < present_pages z then add_free_region_to_buddy z iPrev (present_pages z - 1)
     else Some z
   }"

section \<open>Display, test and teardown\<close>

definition show_area :: "zone \<Rightarrow> nat \<Rightarrow> u32 list option" where
  "show_area z k =
     (if list_is_empty (lists z) (FL k) then Some []
      else do {
        ns \<leftarrow> list_for_each (lists z) (FL k);
        those (map (\<lambda>n. do { i \<leftarrow> lru_entry n; p \<leftarrow> get_page z i; Some (page_no p) }) ns)
      })"

definition show_buddy :: "zone \<Rightarrow> u32 list list option" where
  "show_buddy z = those (map (show_area z) [0..<BUDDY_GROUPS])"

definition free_block_ptr :: "nat option \<Rightarrow> zone \<Rightarrow> nat \<Rightarrow> zone option" where
  "free_block_ptr p z order = (case p of Some i \<Rightarrow> free_block i z order | None \<Rightarrow> None)"

definition test_buddy :: "zone \<Rightarrow> zone option" where
  "test_buddy z = do {
     _ \<leftarrow> show_buddy z;
     (page1, z) \<leftarrow> allocate_block z 9;
     _ \<leftarrow> show_buddy z;
     (page2, z) \<leftarrow> allocate_block z 4;
     _ \<leftarrow> show_buddy z;
     z \<leftarrow> free_block_ptr page2 z 4;
     _ \<leftarrow> show_buddy z;
     z \<leftarrow> free_block_ptr page1 z 9;
     _ \<leftarrow> show_buddy z;
     Some z
   }"

definition init_zone :: "zone \<Rightarrow> zone option" where
  "init_zone z = do { z \<leftarrow> build_free_lists z; test_buddy z }"

definition free_area_reset :: "zone \<Rightarrow> nat \<Rightarrow> zone option" where
  "free_area_reset z k = do {
     h \<leftarrow> list_del_each (FL k) (lists z);
     Some (z\<lparr>lists := INIT_LIST_HEAD (FL k) h\<rparr>)
   }"

primrec free_areas_reset :: "nat \<Rightarrow> zone \<Rightarrow> zone option" where
  "free_areas_reset 0 z = Some z"
| "free_areas_reset (Suc k) z = do { z \<leftarrow> free_areas_reset k z; free_area_reset z k }"

definition free_buddy_system :: "zone \<Rightarrow> zone option" where
  "free_buddy_system z = free_areas_reset BUDDY_GROUPS z"

section \<open>The invariant\<close>

fun fl_nodes :: "free_lists \<Rightarrow> bnode \<Rightarrow> bnode list" where
  "fl_nodes G (FL k) = map LRU (G k)"
| "fl_nodes G _ = []"

definition heads :: "bnode set" where
  "heads = FL ` {..<BUDDY_GROUPS}"

definition buddy_inv :: "zone \<Rightarrow> free_lists \<Rightarrow> bool" where
  "buddy_inv z G \<longleftrightarrow>
     dlists (lists z) heads (fl_nodes G) \<and>
     present_pages z = length (zone_mem_map z) \<and>
     wf_blocks (present_pages z) G \<and>
     (\<forall>i k. (i, k) \<in> blocks G \<longrightarrow>
        PagePrivate (zone_mem_map z ! i) \<and> page_private (zone_mem_map z ! i) = of_nat k) \<and>
     (\<forall>i < present_pages z. PagePrivate (zone_mem_map z ! i) \<longrightarrow> (\<exists>k. (i, k) \<in> blocks G)) \<and>
     (\<forall>k < BUDDY_GROUPS. nr_free z k = of_nat (length (G k)))"

definition same_pages :: "zone \<Rightarrow> zone \<Rightarrow> bool" where
  "same_pages z z' \<longleftrightarrow>
     present_pages z' = present_pages z \<and> length (zone_mem_map z') = length (zone_mem_map z) \<and>
     (\<forall>i < length (zone_mem_map z).
        taken (zone_mem_map z' ! i) = taken (zone_mem_map z ! i) \<and>
        page_zone (zone_mem_map z' ! i) = page_zone (zone_mem_map z ! i) \<and>
        page_no (zone_mem_map z' ! i) = page_no (zone_mem_map z ! i))"

lemma same_pages_refl [simp]: "same_pages z z"
  by (simp add: same_pages_def)

lemma same_pages_trans: "same_pages x y \<Longrightarrow> same_pages y z \<Longrightarrow> same_pages x z"
  by (simp add: same_pages_def)

lemma same_pages_present: "same_pages z z' \<Longrightarrow> present_pages z' = present_pages z"
  by (simp add: same_pages_def)

lemma same_pages_updI:
  assumes "zone_mem_map z' = (zone_mem_map z)[i := f (zone_mem_map z ! i)]"
    and "present_pages z' = present_pages z"
    and "\<And>p. taken (f p) = taken p \<and> page_zone (f p) = page_zone p \<and> page_no (f p) = page_no p"
  shows "same_pages z z'"
  using assms by (cases "i < length (zone_mem_map z)") (auto simp: same_pages_def nth_list_update)

definition kept_outside :: "nat set \<Rightarrow> zone \<Rightarrow> zone \<Rightarrow> bool" where
  "kept_outside X z z' \<longleftrightarrow>
     same_pages z z' \<and> zone_start_pfn z' = zone_start_pfn z \<and>
     (\<forall>i < length (zone_mem_map z). i \<notin> X \<longrightarrow>
        zone_mem_map z' ! i = zone_mem_map z ! i \<and>
        next_of (lists z') (LRU i) = next_of (lists z) (LRU i) \<and>
        prev_of (lists z') (LRU i) = prev_of (lists z) (LRU i))"

lemma kept_outside_refl [simp]: "kept_outside X z z"
  by (simp add: kept_outside_def)

lemma kept_same: "kept_outside X z z' \<Longrightarrow> same_pages z z'"
  by (simp add: kept_outside_def)

lemma kept_trans:
  assumes ab: "kept_outside X a b" and bc: "kept_outside Y b c" and sub: "X \<subseteq> Z" "Y \<subseteq> Z"
  shows "kept_outside Z a c"
proof -
  have "length (zone_mem_map b) = length (zone_mem_map a)" using ab by (simp add: kept_outside_def same_pages_def)
  moreover have "same_pages a c" using ab bc by (blast intro: same_pages_trans kept_same)
  moreover have "i \<notin> X" "i \<notin> Y" if "i \<notin> Z" for i using sub that by auto
  ultimately show ?thesis using ab bc unfolding kept_outside_def by auto
qed

lemma kept_mono: "kept_outside X a b \<Longrightarrow> X \<subseteq> Z \<Longrightarrow> kept_outside Z a b"
  by (rule kept_trans [OF _ kept_outside_refl, where Y = Z]) auto

lemma kept_fields:
  assumes "kept_outside X z0 z'" and "zone_mem_map z0 = zone_mem_map z" "present_pages z0 = present_pages z"
    "zone_start_pfn z0 = zone_start_pfn z" "lists z0 = lists z"
  shows "kept_outside X z z'"
  using assms by (simp add: kept_outside_def same_pages_def)

lemma in_heads [simp]: "FL k \<in> heads \<longleftrightarrow> k < BUDDY_GROUPS" "LRU i \<notin> heads"
  by (auto simp: heads_def)

lemma headsE: "a \<in> heads \<Longrightarrow> (\<And>k. a = FL k \<Longrightarrow> k < BUDDY_GROUPS \<Longrightarrow> P) \<Longrightarrow> P"
  by (auto simp: heads_def)

lemma fl_nodes_upd: "fl_nodes (G(k := xs)) = (fl_nodes G)(FL k := map LRU xs)"
  by (rule ext, case_tac x) auto

lemma remove1_LRU: "remove1 (LRU i) (map LRU xs) = map LRU (remove1 i xs)"
  by (induction xs) auto

lemma of_nat_order_inj: "(of_nat k :: u32) = of_nat l \<longleftrightarrow> k = l" if "k < BUDDY_GROUPS" "l < BUDDY_GROUPS"
  using that by (auto simp: BUDDY_GROUPS_def word_of_nat_eq_iff take_bit_nat_eq_self)

lemma buddy_invD:
  assumes "buddy_inv z G"
  shows "dlists (lists z) heads (fl_nodes G)" and "present_pages z = length (zone_mem_map z)"
    and "wf_blocks (present_pages z) G"
  using assms by (auto simp: buddy_inv_def)

lemma block_in_zone: "buddy_inv z G \<Longrightarrow> (i, k) \<in> blocks G \<Longrightarrow> i < present_pages z"
  by (rule start_bound [OF wf_blocksD(2) [OF buddy_invD(3)]])

lemma page_is_buddy_iff:
  assumes "buddy_inv z G" and "k < BUDDY_GROUPS" and "i < present_pages z"
  shows "page_is_buddy (zone_mem_map z ! i) k \<longleftrightarrow> (i, k) \<in> blocks G"
proof
  assume b: "page_is_buddy (zone_mem_map z ! i) k"
  then obtain l where l: "(i, l) \<in> blocks G" using assms by (auto simp: buddy_inv_def page_is_buddy_def)
  with assms b have "(of_nat l :: u32) = of_nat k" by (auto simp: buddy_inv_def page_is_buddy_def)
  with l assms(2) show "(i, k) \<in> blocks G"
    using of_nat_order_inj [of l k] by (auto simp: blocks_def)
qed (use assms in \<open>auto simp: buddy_inv_def page_is_buddy_def\<close>)

lemma inv_take:
  assumes I: "buddy_inv z G" and ik: "(i, k) \<in> blocks G"
    and z': "lists z' = list_del (LRU i) (lists z)"
      "zone_mem_map z' = (zone_mem_map z)[i := (ClearPagePrivate (zone_mem_map z ! i))\<lparr>page_private := 0\<rparr>]"
      "nr_free z' = (nr_free z)(k := nr_free z k - 1)" "present_pages z' = present_pages z"
  shows "buddy_inv z' (G(k := remove1 i (G k)))"
proof -
  note D = buddy_invD [OF I]
  have k: "k < BUDDY_GROUPS" and mem: "i \<in> set (G k)" using ik by (auto simp: blocks_def)
  have d: "distinct (G k)" using D(3) k by (simp add: wf_blocks_def)
  have "dlists (lists z') heads (fl_nodes (G(k := remove1 i (G k))))"
    unfolding z' fl_nodes_upd remove1_LRU [symmetric]
    using kl.inv_del [OF D(1), of "FL k" "LRU i"] k mem by simp
  moreover have "i < length (zone_mem_map z)" using block_in_zone [OF I ik] D(2) by simp
  moreover have "j \<noteq> i" if "(j, l) \<in> blocks G" "(j, l) \<noteq> (i, k)" for j l
    using wf_blocks_disjoint [OF D(3) that(1) ik] that by (metis block_nonempty(1))
  moreover have "(1::u32) + (of_nat (length (G k)) - 1) = of_nat (length (G k))" by simp
  moreover have "length (G k) = Suc (length (remove1 i (G k)))"
    using mem length_pos_if_in_set [OF mem] by (simp add: length_remove1)
  ultimately show ?thesis
    using I wf_take(1) [OF D(3) ik] z' unfolding buddy_inv_def blocks_upd_remove [where G = G and k = k, OF d]
    by (auto simp: nth_list_update)
qed

lemma blocks_free: "(i, k) \<in> blocks G \<Longrightarrow> block i k \<subseteq> free_set G"
  unfolding subset_iff free_set_iff by blast

lemma on_free_list: "k < BUDDY_GROUPS \<Longrightarrow> LRU i \<in> set (FL k # map LRU (G k)) \<Longrightarrow> i \<in> free_set G"
  using subsetD [OF blocks_free [of i k G] block_nonempty(1) [of i k]] by (auto simp: blocks_def)

lemma take_kept:
  assumes I: "buddy_inv z G" and ik: "(i, k) \<in> blocks G"
    and z': "lists z' = list_del (LRU i) (lists z)"
      "zone_mem_map z' = (zone_mem_map z)[i := (ClearPagePrivate (zone_mem_map z ! i))\<lparr>page_private := 0\<rparr>]"
      "zone_start_pfn z' = zone_start_pfn z" "present_pages z' = present_pages z"
  shows "kept_outside (free_set G) z z'"
proof -
  have k: "k < BUDDY_GROUPS" and mem: "LRU i \<in> set (map LRU (G k))" using ik by (auto simp: blocks_def)
  have d: "dlist (lists z) (FL k) (map LRU (G k))" using dlistsD [OF buddy_invD(1) [OF I], of "FL k"] k by simp
  have "i \<in> free_set G" using on_free_list [OF k] mem by simp
  moreover have "same_pages z z'"
    by (rule same_pages_updI [where i = i and f = "\<lambda>p. (ClearPagePrivate p)\<lparr>page_private := 0\<rparr>"])
      (simp_all add: z')
  ultimately show ?thesis
    using list_del_frame [OF d mem] on_free_list [OF k, of _ G] unfolding kept_outside_def z'
    by (metis nth_list_update_neq)
qed

lemma put_kept:
  assumes I: "buddy_inv z G" and k: "k < BUDDY_GROUPS"
    and z': "lists z' = list_add (FL k) (LRU i) (lists z)"
      "zone_mem_map z' = (zone_mem_map z)[i := SetPagePrivate ((zone_mem_map z ! i)\<lparr>page_private := of_nat k\<rparr>)]"
      "zone_start_pfn z' = zone_start_pfn z" "present_pages z' = present_pages z"
  shows "kept_outside (insert i (free_set G)) z z'"
proof -
  have d: "dlist (lists z) (FL k) (map LRU (G k))" using dlistsD [OF buddy_invD(1) [OF I], of "FL k"] k by simp
  have "same_pages z z'"
    by (rule same_pages_updI [where i = i and f = "\<lambda>p. SetPagePrivate (p\<lparr>page_private := of_nat k\<rparr>)"])
      (simp_all add: z')
  then show ?thesis
    using list_add_frame [OF d, of _ "LRU i"] on_free_list [OF k, of _ G] unfolding kept_outside_def z'
    by (metis bnode.inject(2) insertCI nth_list_update_neq)
qed

lemma inv_put:
  assumes I: "buddy_inv z G" and k: "k < BUDDY_GROUPS" and a: "aligned i k"
    and b: "i + 2 ^ k \<le> present_pages z" and disj: "block i k \<inter> free_set G = {}"
    and z': "lists z' = list_add (FL k) (LRU i) (lists z)"
      "zone_mem_map z' = (zone_mem_map z)[i := SetPagePrivate ((zone_mem_map z ! i)\<lparr>page_private := of_nat k\<rparr>)]"
      "nr_free z' = (nr_free z)(k := nr_free z k + 1)" "present_pages z' = present_pages z"
  shows "buddy_inv z' (G(k := i # G k))"
proof -
  note D = buddy_invD [OF I]
  have new: "(i, l) \<notin> blocks G" for l
    using disj block_nonempty(1) [of i k] block_nonempty(1) [of i l] free_set_iff [of i G] by blast
  then have off: "LRU i \<notin> set (fl_nodes G b)" if "b \<in> heads" for b
    using that by (auto simp: blocks_def elim!: headsE)
  have "dlists (lists z') heads (fl_nodes (G(k := i # G k)))"
    unfolding z' fl_nodes_upd using kl.inv_add [OF D(1), of "FL k" "LRU i"] k off by simp
  moreover have "i < length (zone_mem_map z)"
    using start_bound [OF b] D(2) by simp
  ultimately show ?thesis
    using I wf_put(1) [OF D(3) k a b disj] z' new
    unfolding buddy_inv_def blocks_upd_cons [where G = G, OF k]
    by (auto simp: nth_list_update)
qed

section \<open>The code implements the abstract system\<close>

lemma find_area_first: "buddy_inv z G \<Longrightarrow> find_area z k = first_area G k"
proof (induction z k rule: find_area.induct)
  case (1 z k)
  then show ?case
    using kl.empty_iff [OF buddy_invD(1) [OF "1.prems"], of "FL k"]
    by (simp add: find_area.simps [of z k] first_area.simps [of G k])
qed

lemma coalesce_place:
  assumes "buddy_inv z G" and "k < BUDDY_GROUPS" and "aligned i k" and "i + 2 ^ k \<le> present_pages z"
    and "block i k \<inter> free_set G = {}"
  shows "\<exists>j l z1 z'. coalesce i k z = Some (j, l, z1) \<and> place_block j l z1 = Some z' \<and>
    buddy_inv z' (free_spec i k G) \<and> kept_outside (block i k \<union> free_set G) z z' \<and> free_pages z' = free_pages z"
  using assms
proof (induction i k G arbitrary: z rule: free_spec.induct)
  case (1 i k G)
  let ?b = "i XOR 2 ^ k"
  note D = buddy_invD [OF "1.prems"(1)]
  show ?case
  proof (cases "k < BUDDY_GROUPS - 1 \<and> ?b \<in> set (G k)")
    case True
    then have b: "(?b, k) \<in> blocks G" by (auto simp: blocks_def)
    have bz: "?b < length (zone_mem_map z)" using block_in_zone [OF "1.prems"(1) b] D(2) by simp
    have isb: "page_is_buddy (zone_mem_map z ! ?b) k"
      using page_is_buddy_iff [OF "1.prems"(1,2)] b bz D(2) by simp
    define z1 where "z1 = (upd_nr_free k (\<lambda>n. n - 1) (upd_lists (list_del (LRU ?b)) z))
      \<lparr>zone_mem_map := (zone_mem_map z)[?b := (ClearPagePrivate (zone_mem_map z ! ?b))\<lparr>page_private := 0\<rparr>]\<rparr>"
    have I1: "buddy_inv z1 (G(k := remove1 ?b (G k)))"
      by (rule inv_take [OF "1.prems"(1) b]) (simp_all add: z1_def heap_simps)
    have step: "coalesce i k z = coalesce (i AND ?b) (Suc k) z1"
      using True bz isb D(2)
      by (subst coalesce.simps) (simp add: get_page_def upd_page_def heap_simps z1_def Let_def)
    have same: "kept_outside (free_set G) z z1"
      by (rule take_kept [OF "1.prems"(1) b]) (simp_all add: z1_def heap_simps)
    have fp: "free_pages z1 = free_pages z" "present_pages z1 = present_pages z"
      by (simp_all add: z1_def heap_simps)
    have kk: "Suc k < BUDDY_GROUPS" using True by linarith
    note wf = wf_blocksD [OF D(3) b]
    have fs: "block ?b k \<subseteq> free_set G" by (rule blocks_free [OF b])
    have disj: "block (i AND ?b) (Suc k) \<inter> free_set (G(k := remove1 ?b (G k))) = {}"
      and sub: "block (i AND ?b) (Suc k) \<union> free_set (G(k := remove1 ?b (G k))) \<subseteq> block i k \<union> free_set G"
      using wf_take(2) [OF D(3) b] merged_block [OF "1.prems"(3)] "1.prems"(5) fs by auto
    moreover have bound: "(i AND ?b) + 2 ^ Suc k \<le> present_pages z1"
      unfolding fp by (rule merged_bound) (use "1.prems" wf in auto)
    ultimately show ?thesis
      using "1.IH" [OF True I1 kk merged_aligned [OF "1.prems"(3)] bound disj] True fp
        kept_trans [OF same _ Un_upper2 sub]
      unfolding step by (subst free_spec.simps) (auto simp del: fun_upd_apply)
  next
    case False
    have stop: "coalesce i k z = Some (i, k, z)"
      using False D(2) page_is_buddy_iff [OF "1.prems"(1,2), of ?b]
      by (subst coalesce.simps) (auto simp: Let_def get_page_def blocks_def)
    have place: "place_block i k z = Some (upd_nr_free k (\<lambda>n. n + 1) (upd_lists (list_add (FL k) (LRU i))
      (z\<lparr>zone_mem_map := (zone_mem_map z)[i := SetPagePrivate ((zone_mem_map z ! i)\<lparr>page_private := of_nat k\<rparr>)]\<rparr>)))"
      (is "_ = Some ?z'")
      using start_bound [OF "1.prems"(4)] D(2) by (simp add: place_block_def upd_page_def Let_def)
    have "free_spec i k G = G(k := i # G k)" using False by (subst free_spec.simps) (simp only: if_False)
    moreover have "buddy_inv ?z' (G(k := i # G k))"
      by (rule inv_put [OF "1.prems"]) (simp_all add: heap_simps)
    moreover have "kept_outside (block i k \<union> free_set G) z ?z'"
      by (rule kept_mono [OF put_kept [OF "1.prems"(1,2)]]) (auto simp: heap_simps)
    moreover have "free_pages ?z' = free_pages z" by (simp add: heap_simps)
    ultimately show ?thesis using stop place by (simp del: fun_upd_apply)
  qed
qed

lemma free_block_refines:
  assumes I: "buddy_inv z G" and k: "k < BUDDY_GROUPS" and "aligned i k"
    and "i + 2 ^ k \<le> present_pages z" and "block i k \<inter> free_set G = {}"
  shows "\<exists>z'. free_block i z k = Some z' \<and> buddy_inv z' (free_spec i k G) \<and>
    kept_outside (block i k \<union> free_set G) z z' \<and> free_pages z' = free_pages z + 2 ^ k"
proof -
  let ?z = "z\<lparr>free_pages := free_pages z + 2 ^ k\<rparr>"
  have "buddy_inv ?z G" using I by (auto simp: buddy_inv_def)
  from coalesce_place [OF this k assms(3)] assms(4,5) obtain j l z1 z' where
    "coalesce i k ?z = Some (j, l, z1)" "place_block j l z1 = Some z'" "buddy_inv z' (free_spec i k G)"
    "kept_outside (block i k \<union> free_set G) ?z z'" "free_pages z' = free_pages ?z" by auto
  then show ?thesis using k kept_fields [where z = z] by (auto simp: free_block_def Let_def)
qed

lemma split_block_refines:
  assumes "buddy_inv z G" and "c < BUDDY_GROUPS" and "aligned p c" and "p + 2 ^ c \<le> present_pages z"
    and "block p c \<inter> free_set G = {}"
  shows "\<exists>z'. split_block p order c (2 ^ c) z = Some z' \<and> buddy_inv z' (split_spec p order c G) \<and>
    kept_outside (block p c \<union> free_set G) z z' \<and> free_pages z' = free_pages z"
  using assms
proof (induction c arbitrary: z G)
  case 0
  then show ?case by (simp add: split_spec_def)
next
  case (Suc c)
  show ?case
  proof (cases "order \<le> c")
    case True
    let ?b = "p + 2 ^ c"
    note D = buddy_invD [OF Suc.prems(1)]
    have al: "aligned p c" using Suc.prems(3) by (rule aligned_mono) simp
    have bz: "?b + 2 ^ c \<le> present_pages z" using Suc.prems(4) by simp
    have blz: "?b < length (zone_mem_map z)" using start_bound [OF bz] D(2) by simp
    define z1 where "z1 = (upd_nr_free c (\<lambda>n. n + 1) (upd_lists (list_add (FL c) (LRU ?b)) z))
      \<lparr>zone_mem_map := (zone_mem_map z)[?b := SetPagePrivate ((zone_mem_map z ! ?b)\<lparr>page_private := of_nat c\<rparr>)]\<rparr>"
    have disj: "block ?b c \<inter> free_set G = {}" using Suc.prems(5) block_halves [of p c] by auto
    have I1: "buddy_inv z1 (G(c := ?b # G c))"
      by (rule inv_put [OF Suc.prems(1) _ aligned_add [OF al] bz disj])
        (use Suc.prems(2) in \<open>simp_all add: z1_def heap_simps\<close>)
    have step: "split_block p order (Suc c) (2 ^ Suc c) z = split_block p order c (2 ^ c) z1"
      using True blz by (simp add: drop_bit_Suc Let_def upd_page_def heap_simps z1_def)
    have fs: "free_set (G(c := ?b # G c)) = block ?b c \<union> free_set G"
      by (rule wf_put(2) [OF D(3) _ aligned_add [OF al] bz disj]) (use Suc.prems(2) in simp)
    have fp: "free_pages z1 = free_pages z" "present_pages z1 = present_pages z"
      by (simp_all add: z1_def heap_simps)
    have same: "kept_outside (insert ?b (free_set G)) z z1"
      by (rule put_kept [OF Suc.prems(1)]) (use Suc.prems(2) in \<open>simp_all add: z1_def heap_simps\<close>)
    have sub: "insert ?b (free_set G) \<subseteq> block p (Suc c) \<union> free_set G"
      "block p c \<union> free_set (G(c := ?b # G c)) \<subseteq> block p (Suc c) \<union> free_set G"
      using fs block_halves [of p c] by auto
    have "block p c \<inter> free_set (G(c := ?b # G c)) = {}"
      using fs Suc.prems(5) block_halves [of p c] by auto
    then show ?thesis
      using Suc.IH [OF I1 _ al] Suc.prems fp kept_trans [OF same _ sub]
      unfolding step split_spec_step [OF True] by (auto simp del: fun_upd_apply)
  next
    case False
    then show ?thesis using Suc.prems(1) by (simp add: split_spec_none)
  qed
qed

lemma allocate_block_refines:
  assumes I: "buddy_inv z G" and a: "alloc_spec G order = (r, G')"
  shows "\<exists>z'. allocate_block z order = Some (r, z') \<and> buddy_inv z' G' \<and> kept_outside (free_set G) z z' \<and>
    free_pages z' = (if r = None then free_pages z else free_pages z - 2 ^ order)"
proof (cases "first_area G order")
  case None
  then show ?thesis using assms by (auto simp: allocate_block_def find_area_first [OF I] alloc_spec_def)
next
  case (Some c)
  note fa = first_area_Some [OF Some] and D = buddy_invD [OF I]
  obtain p ps where G: "G c = p # ps" using fa by (cases "G c") auto
  have pc: "(p, c) \<in> blocks G" using fa G by (auto simp: blocks_def)
  have pz: "p < length (zone_mem_map z)" using block_in_zone [OF I pc] D(2) by simp
  have "next_of (lists z) (FL c) = LRU p"
    using kl.first_eq [OF D(1), of "FL c"] fa G by simp
  moreover define z1 where "z1 = z\<lparr>lists := list_del (LRU p) (lists z),
    zone_mem_map := (zone_mem_map z)[p := (ClearPagePrivate (zone_mem_map z ! p))\<lparr>page_private := 0\<rparr>],
    nr_free := (nr_free z)(c := nr_free z c - 1), free_pages := free_pages z - 2 ^ order\<rparr>"
  ultimately have run: "allocate_block z order =
      do { z' \<leftarrow> split_block p order c (2 ^ c) z1; Some (Some p, z') }"
    using Some pz by (simp add: allocate_block_def find_area_first [OF I] upd_page_def upd_lists_def
      upd_nr_free_def Let_def)
  have I1: "buddy_inv z1 (G(c := ps))"
    using inv_take [OF I pc, of z1] G by (simp add: z1_def heap_simps)
  have fs: "free_set (G(c := ps)) = free_set G - block p c" "block p c \<subseteq> free_set G"
    using wf_take(2) [OF D(3) pc] G blocks_free [OF pc] by simp_all
  then obtain z' where z': "split_block p order c (2 ^ c) z1 = Some z'"
    "buddy_inv z' (split_spec p order c (G(c := ps)))" "kept_outside (free_set G) z1 z'" "free_pages z' = free_pages z1"
    using split_block_refines [OF I1, of c p order] fa wf_blocksD [OF D(3) pc]
    by (auto simp: z1_def heap_simps Un_absorb1)
  have "kept_outside (free_set G) z z1" by (rule take_kept [OF I pc]) (simp_all add: z1_def)
  moreover have "r = Some p" "G' = split_spec p order c (G(c := ps))"
    using a Some G by (auto simp: alloc_spec_def)
  ultimately show ?thesis
    using z' kept_trans [OF _ z'(3) order_refl order_refl] by (auto simp: run z1_def)
qed

section \<open>The allocator as its clients see it\<close>

text \<open>
  \<open>buddy_ok c z F\<close>: the zone is well formed and fully coalesced, its free pages are exactly \<open>F\<close>, and
  its counter \<^verbatim>\<open>free_pages\<close> is their number plus the constant \<open>c\<close>.
\<close>

definition buddy_ok :: "u32 \<Rightarrow> zone \<Rightarrow> nat set \<Rightarrow> bool" where
  "buddy_ok c z F \<longleftrightarrow> (\<exists>G. buddy_inv z G \<and> coalesced G \<and> free_set G = F) \<and>
     free_pages z = c + of_nat (card F)"

lemma free_set_bound: "wf_blocks n G \<Longrightarrow> free_set G \<subseteq> {..<n}"
  using wf_blocksD(2) by (fastforce simp: free_set_iff block_def)

lemma buddy_ok_bound: "buddy_ok c z F \<Longrightarrow> F \<subseteq> {..<present_pages z}"
  by (auto simp: buddy_ok_def buddy_inv_def dest: free_set_bound)

lemma buddy_ok_finite: "buddy_ok c z F \<Longrightarrow> finite F"
  by (meson buddy_ok_bound finite_lessThan finite_subset)

lemma of_nat_two_power: "of_nat (2 ^ k) = (2 ^ k :: u32)"
  by simp

lemma allocate_block_ok:
  assumes "buddy_ok c z F" and "k < BUDDY_GROUPS"
  shows "\<exists>r z'. allocate_block z k = Some (r, z') \<and> kept_outside F z z' \<and>
    (case r of
       None \<Rightarrow> buddy_ok c z' F \<and> (\<forall>b. aligned b k \<longrightarrow> \<not> block b k \<subseteq> F)
     | Some p \<Rightarrow> aligned p k \<and> block p k \<subseteq> F \<and> buddy_ok c z' (F - block p k))"
proof -
  obtain G where G: "buddy_inv z G" "coalesced G" "free_set G = F"
    and fp: "free_pages z = c + of_nat (card F)" using assms by (auto simp: buddy_ok_def)
  note wf = buddy_invD(3) [OF G(1)]
  obtain r G' where a: "alloc_spec G k = (r, G')" by fastforce
  from allocate_block_refines [OF G(1) a] obtain z' where z': "allocate_block z k = Some (r, z')"
    "buddy_inv z' G'" "kept_outside F z z'"
    "free_pages z' = (if r = None then free_pages z else free_pages z - 2 ^ k)" using G(3) by auto
  show ?thesis
  proof (cases r)
    case None
    then have "G' = G" using a by (auto simp: alloc_spec_def split: option.splits)
    with z' G fp None alloc_spec_complete [OF wf G(2) assms(2)] a show ?thesis
      by (fastforce simp: buddy_ok_def)
  next
    case (Some p)
    note A = alloc_spec_correct [OF wf a [unfolded Some]]
    have "card (F - block p k) = card F - 2 ^ k"
      using A(4) G(3) by (simp add: card_Diff_subset)
    moreover have "2 ^ k \<le> card F"
      using card_mono [OF buddy_ok_finite [OF assms(1)], of "block p k"] A(4) G(3) by simp
    ultimately have "free_pages z' = c + of_nat (card (F - block p k))"
      using z'(4) fp Some by (simp add: of_nat_diff)
    then show ?thesis
      using z' A G(3) Some alloc_spec_coalesced [OF wf G(2) a [unfolded Some]]
      by (auto simp: buddy_ok_def)
  qed
qed

lemma free_block_ok:
  assumes "buddy_ok c z F" and "k < BUDDY_GROUPS" and "aligned i k" and "i + 2 ^ k \<le> present_pages z"
    and "block i k \<inter> F = {}"
  shows "\<exists>z'. free_block i z k = Some z' \<and> kept_outside (block i k \<union> F) z z' \<and> buddy_ok c z' (block i k \<union> F)"
proof -
  obtain G where G: "buddy_inv z G" "coalesced G" "free_set G = F"
    and fp: "free_pages z = c + of_nat (card F)" using assms by (auto simp: buddy_ok_def)
  note wf = buddy_invD(3) [OF G(1)]
  obtain z' where z': "free_block i z k = Some z'" "buddy_inv z' (free_spec i k G)" "kept_outside (block i k \<union> F) z z'"
    "free_pages z' = free_pages z + 2 ^ k"
    using free_block_refines [OF G(1) assms(2-4)] assms(5) G(3) by auto
  have "card (block i k \<union> F) = 2 ^ k + card F"
    using assms(5) buddy_ok_finite [OF assms(1)] by (simp add: card_Un_disjoint)
  with z' fp free_spec_correct [OF wf assms(2-4)] assms(5) G free_spec_coalesced [OF G(2), of i k]
  show ?thesis by (auto simp: buddy_ok_def)
qed

section \<open>The interface to the page allocator\<close>

text \<open>
  What a client of the page allocator relies on.  \<open>ok z F\<close> says that \<open>F\<close> is the set of free
  pages in state \<open>z\<close>, \<open>kept X\<close> that a step leaves every descriptor outside \<open>X\<close> and its list node
  alone, and the identity of the others.  The kernel's
  slab allocator and the allocator's own self test are such clients.
\<close>

locale page_source =
  fixes ok :: "'z \<Rightarrow> nat set \<Rightarrow> bool"
    and alloc :: "'z \<Rightarrow> nat \<Rightarrow> (nat option \<times> 'z) option"
    and free :: "nat \<Rightarrow> 'z \<Rightarrow> nat \<Rightarrow> 'z option"
    and pages :: "'z \<Rightarrow> nat"
    and kept :: "nat set \<Rightarrow> 'z \<Rightarrow> 'z \<Rightarrow> bool"
    and orders :: nat
  assumes ok_bound: "ok z F \<Longrightarrow> F \<subseteq> {..<pages z}"
    and kept_pages: "kept X z z' \<Longrightarrow> pages z' = pages z"
    and kept_weaken: "kept X z z' \<Longrightarrow> X \<subseteq> Y \<Longrightarrow> kept Y z z'"
    and alloc_ok: "ok z F \<Longrightarrow> k < orders \<Longrightarrow> \<exists>r z'. alloc z k = Some (r, z') \<and> kept F z z' \<and>
      (case r of None \<Rightarrow> ok z' F \<and> (\<forall>b. aligned b k \<longrightarrow> \<not> block b k \<subseteq> F)
       | Some p \<Rightarrow> aligned p k \<and> block p k \<subseteq> F \<and> ok z' (F - block p k))"
    and free_ok: "ok z F \<Longrightarrow> k < orders \<Longrightarrow> aligned i k \<Longrightarrow> i + 2 ^ k \<le> pages z \<Longrightarrow>
      block i k \<inter> F = {} \<Longrightarrow> \<exists>z'. free i z k = Some z' \<and> kept (block i k \<union> F) z z' \<and> ok z' (block i k \<union> F)"
begin

lemma alloc_Some:
  assumes "ok z F" and "k < orders" and "alloc z k = Some (Some p, z')"
  shows "aligned p k" and "block p k \<subseteq> F" and "ok z' (F - block p k)" and "kept F z z'"
  using alloc_ok [OF assms(1,2)] assms(3) by auto

lemma alloc_free:
  assumes "ok z F" and "k < orders" and "alloc z k = Some (Some p, z1)"
  shows "\<exists>z2. free p z1 k = Some z2 \<and> kept F z1 z2 \<and> ok z2 F"
proof -
  note A = alloc_Some [OF assms]
  have "block p k \<subseteq> {..<pages z1}" using A(2) ok_bound [OF assms(1)] kept_pages [OF A(4)] by auto
  moreover have "block p k \<union> (F - block p k) = F" using A(2) by blast
  ultimately show ?thesis using free_ok [OF A(3) assms(2) A(1) block_bound] by auto
qed

lemma alloc_twice_disjoint:
  assumes "ok z F" and "k < orders" and "l < orders" and "alloc z k = Some (Some p, z1)"
    and "alloc z1 l = Some (Some q, z2)"
  shows "block p k \<inter> block q l = {}"
  using alloc_Some(2) [OF alloc_Some(3) [OF assms(1,2,4)] assms(3,5)] by blast

lemma nested:
  assumes "ok z F" and "k < orders" and "l < orders" and "alloc z k = Some (Some p, z1)"
    and "alloc z1 l = Some (Some q, z2)"
  shows "\<exists>z3 z4. free q z2 l = Some z3 \<and> ok z3 (F - block p k) \<and> free p z3 k = Some z4 \<and> ok z4 F \<and>
    kept F z2 z3 \<and> kept F z3 z4 \<and> kept F z z1 \<and> kept F z1 z2"
proof -
  note A = alloc_Some [OF assms(1,2,4)]
  note B = alloc_Some [OF A(3) assms(3,5)]
  obtain z3 where z3: "free q z2 l = Some z3" "kept (F - block p k) z2 z3" "ok z3 (F - block p k)"
    using alloc_free [OF A(3) assms(3,5)] by blast
  have "pages z3 = pages z" using kept_pages [OF A(4)] kept_pages [OF B(4)] kept_pages [OF z3(2)] by simp
  then have "p + 2 ^ k \<le> pages z3" using A(2) ok_bound [OF assms(1)] by (intro block_bound) auto
  then obtain z4 where "free p z3 k = Some z4" "kept (block p k \<union> (F - block p k)) z3 z4" "ok z4 (block p k \<union> (F - block p k))"
    using free_ok [OF z3(3) assms(2) A(1)] by blast
  moreover have "block p k \<union> (F - block p k) = F" using A(2) by blast
  ultimately show ?thesis using z3 A(4) kept_weaken [OF B(4)] kept_weaken [OF z3(2)] by auto
qed

end

interpretation bp: page_source "buddy_ok c" allocate_block free_block present_pages kept_outside BUDDY_GROUPS
  for c
  by unfold_locales
    (fact buddy_ok_bound same_pages_present [OF kept_same] kept_mono allocate_block_ok free_block_ok)+

end
