(* ===== verification/Buddy_Init.thy ===== *)
theory Buddy_Init
  imports Buddy
begin

text \<open>
  Start-up and teardown of the buddy allocator: \<^verbatim>\<open>init_zone\<close> turns the maximal runs of available
  pages into aligned blocks, \<^verbatim>\<open>test_buddy\<close> is the allocator's self test, \<^verbatim>\<open>free_buddy_system\<close> empties
  the free lists.  The last section holds the properties of the allocator.
\<close>

section \<open>The free lists after initialisation\<close>

lemma log2_loop_bounds: "num \<noteq> 0 \<Longrightarrow>
    2 ^ log2_loop num a \<le> num * 2 ^ a \<and> Suc num * 2 ^ a \<le> 2 ^ Suc (log2_loop num a)"
proof (induction num a rule: log2_loop.induct)
  case (1 num a)
  show ?case
  proof (cases "1 < num")
    case True
    then have IH: "2 ^ log2_loop (num div 2) (Suc a) \<le> (num div 2) * 2 ^ Suc a"
      "Suc (num div 2) * 2 ^ Suc a \<le> 2 ^ Suc (log2_loop (num div 2) (Suc a))"
      using 1 by (simp_all add: drop_bit_Suc)
    have eq: "log2_loop num a = log2_loop (num div 2) (Suc a)"
      using True by (simp add: log2_loop.simps [of num] drop_bit_Suc)
    have "(num div 2) * 2 ^ Suc a \<le> num * 2 ^ a" "Suc num * 2 ^ a \<le> Suc (num div 2) * 2 ^ Suc a"
      using mult_right_mono [of "num div 2 * 2" num "2 ^ a"]
        mult_right_mono [of "Suc num" "Suc (num div 2) * 2" "2 ^ a"] by (auto simp: mult.assoc)
    with IH show ?thesis unfolding eq by linarith
  next
    case False
    with 1(2) show ?thesis by (simp add: log2_loop.simps [of num])
  qed
qed

lemma aligned_ctz: "n \<noteq> 0 \<Longrightarrow> aligned n (ctz n)"
proof (induction n rule: ctz.induct)
  case (1 n)
  show ?case
  proof (cases "odd n")
    case False
    with 1 have "2 ^ ctz (n div 2) dvd n div 2" by (auto simp: aligned_def)
    then have "2 * 2 ^ ctz (n div 2) dvd 2 * (n div 2)" by (rule mult_dvd_mono [OF dvd_refl])
    with False "1.prems" show ?thesis by (simp add: aligned_def ctz.simps [of n])
  qed (simp add: ctz.simps)
qed

lemma region_order_ok:
  assumes "0 < remaining"
  shows "region_order current remaining < BUDDY_GROUPS"
    and "aligned current (region_order current remaining)"
    and "2 ^ region_order current remaining \<le> remaining"
proof -
  let ?k = "region_order current remaining"
  show "?k < BUDDY_GROUPS" by (simp add: region_order_def BUDDY_GROUPS_def Let_def)
  have "current \<noteq> 0 \<Longrightarrow> ?k \<le> ctz current" by (auto simp: region_order_def Let_def)
  then show "aligned current ?k"
    by (cases "current = 0") (auto intro: aligned_mono [OF aligned_ctz])
  have "?k \<le> log2_loop remaining 0" by (auto simp: region_order_def Let_def)
  then have "2 ^ ?k \<le> (2::nat) ^ log2_loop remaining 0" by (simp add: power_increasing)
  also have "\<dots> \<le> remaining" using log2_loop_bounds [of remaining 0] assms by simp
  finally show "2 ^ ?k \<le> remaining" .
qed

lemma add_free_region_ok:
  assumes "buddy_ok c z F" and "e < present_pages z" and "{s..e} \<inter> F = {}"
  shows "\<exists>z'. add_free_region_to_buddy z s e = Some z' \<and> same_pages z z' \<and> buddy_ok c z' ({s..e} \<union> F)"
  using assms
proof (induction z s e arbitrary: F rule: add_free_region_to_buddy.induct)
  case (1 z s e)
  show ?case
  proof (cases "s \<le> e")
    case True
    let ?k = "region_order s (e - s + 1)"
    note ok = region_order_ok [of "e - s + 1" s]
    have fits: "s + 2 ^ ?k \<le> Suc e" using ok(3) True by linarith
    then have sub: "{s..e} = block s ?k \<union> {s + 2 ^ ?k .. e}" by (auto simp: block_def)
    obtain z1 where z1: "free_block s z ?k = Some z1" "same_pages z z1" "buddy_ok c z1 (block s ?k \<union> F)"
      using free_block_ok [OF "1.prems"(1), of ?k s] ok fits "1.prems" sub kept_same by (auto, blast)
    have "{s + 2 ^ ?k .. e} \<inter> (block s ?k \<union> F) = {}" using "1.prems"(3) sub by (auto simp: block_def)
    then obtain z2 where "add_free_region_to_buddy z1 (s + 2 ^ ?k) e = Some z2" "same_pages z1 z2"
      "buddy_ok c z2 ({s + 2 ^ ?k .. e} \<union> (block s ?k \<union> F))"
      using "1.IH" [OF True refl z1(1,3)] same_pages_present [OF z1(2)] "1.prems"(2) by auto
    then show ?thesis
      using True z1 sub same_pages_trans [of z z1 z2]
      by (simp add: add_free_region_to_buddy.simps [of z s e] Let_def Un_assoc Un_left_commute)
  next
    case False
    with "1.prems" show ?thesis by (simp add: add_free_region_to_buddy.simps [of z s e])
  qed
qed

lemma skip_taken_ok:
  "present_pages z = length (zone_mem_map z) \<Longrightarrow> i \<le> present_pages z \<Longrightarrow>
   \<exists>j. skip_taken z i = Some j \<and> i \<le> j \<and> j \<le> present_pages z \<and>
     (\<forall>m. i \<le> m \<longrightarrow> m < j \<longrightarrow> taken (zone_mem_map z ! m)) \<and>
     (j < present_pages z \<longrightarrow> \<not> taken (zone_mem_map z ! j))"
proof (induction z i rule: skip_taken.induct)
  case (1 z i)
  show ?case
  proof (cases "i < present_pages z \<and> taken (zone_mem_map z ! i)")
    case True
    then have step: "skip_taken z i = skip_taken z (Suc i)"
      using "1.prems" by (simp add: skip_taken.simps [of z i] get_page_def)
    obtain j where "skip_taken z (Suc i) = Some j" "Suc i \<le> j" "j \<le> present_pages z"
      "\<forall>m. Suc i \<le> m \<longrightarrow> m < j \<longrightarrow> taken (zone_mem_map z ! m)"
      "j < present_pages z \<longrightarrow> \<not> taken (zone_mem_map z ! j)"
      using "1.IH" True "1.prems" by (auto simp: get_page_def)
    with True show ?thesis unfolding step
      by (intro exI [of _ j]) (auto simp: Suc_le_eq dest: le_neq_implies_less)
  next
    case False
    with "1.prems" show ?thesis
      by (intro exI [of _ i]) (auto simp: skip_taken.simps [of z i] get_page_def)
  qed
qed

lemma buddy_ok_length: "buddy_ok c z F \<Longrightarrow> present_pages z = length (zone_mem_map z)"
  by (auto simp: buddy_ok_def buddy_inv_def)

lemma same_pages_taken:
  "same_pages z z' \<Longrightarrow> i < length (zone_mem_map z) \<Longrightarrow> taken (zone_mem_map z' ! i) = taken (zone_mem_map z ! i)"
  by (simp add: same_pages_def)

lemma scan_zone_ok:
  assumes "buddy_ok c z {i. i < iPrev \<and> \<not> taken (zone_mem_map z ! i)}"
    and "iPrev \<le> iCnt" and "iCnt \<le> present_pages z"
    and "\<forall>m. iPrev \<le> m \<longrightarrow> m < iCnt \<longrightarrow> \<not> taken (zone_mem_map z ! m)"
  shows "\<exists>p z'. scan_zone iPrev iCnt z = Some (p, z') \<and> same_pages z z' \<and> p \<le> present_pages z \<and>
    buddy_ok c z' {i. i < p \<and> \<not> taken (zone_mem_map z ! i)} \<and>
    (\<forall>m. p \<le> m \<longrightarrow> m < present_pages z \<longrightarrow> \<not> taken (zone_mem_map z ! m))"
  using assms
proof (induction "present_pages z - iCnt" arbitrary: z iPrev iCnt rule: less_induct)
  case less
  note len = buddy_ok_length [OF less.prems(1)]
  consider "iCnt = present_pages z" | "iCnt < present_pages z" "\<not> taken (zone_mem_map z ! iCnt)"
    | "iCnt < present_pages z" "taken (zone_mem_map z ! iCnt)" using less.prems(3) by linarith
  then show ?case
  proof cases
    case 1
    then show ?thesis using less.prems by (subst scan_zone.simps) auto
  next
    case 2
    then have "scan_zone iPrev iCnt z = scan_zone iPrev (Suc iCnt) z"
      using len by (subst scan_zone.simps) (simp add: get_page_def)
    with 2 less.hyps [of z "Suc iCnt" iPrev] less.prems show ?thesis
      by (auto simp: less_Suc_eq)
  next
    case 3
    let ?F = "{i. i < iCnt \<and> \<not> taken (zone_mem_map z ! i)}"
    have "\<exists>z1. (if iPrev < iCnt then add_free_region_to_buddy z iPrev (iCnt - 1) else Some z) = Some z1 \<and>
      same_pages z z1 \<and> buddy_ok c z1 ?F"
    proof (cases "iPrev < iCnt")
      case True
      then have "{iPrev..iCnt - 1} \<union> {i. i < iPrev \<and> \<not> taken (zone_mem_map z ! i)} = ?F"
        using less.prems by (auto simp: Suc_le_eq)
      then show ?thesis
        using add_free_region_ok [OF less.prems(1), of "iCnt - 1" iPrev] True 3 by fastforce
    next
      case False
      then show ?thesis using less.prems by auto
    qed
    then obtain z1 where z1: "(if iPrev < iCnt then add_free_region_to_buddy z iPrev (iCnt - 1) else Some z) = Some z1"
      "same_pages z z1" "buddy_ok c z1 ?F" by blast
    have pz: "present_pages z1 = present_pages z" by (rule same_pages_present [OF z1(2)])
    have tz: "taken (zone_mem_map z1 ! i) = taken (zone_mem_map z ! i)" if "i < present_pages z" for i
      using same_pages_taken [OF z1(2)] len that by simp
    obtain j where j: "skip_taken z1 iCnt = Some j" "iCnt \<le> j" "j \<le> present_pages z"
      "\<forall>m. iCnt \<le> m \<longrightarrow> m < j \<longrightarrow> taken (zone_mem_map z1 ! m)"
      "j < present_pages z \<longrightarrow> \<not> taken (zone_mem_map z1 ! j)"
      using skip_taken_ok [of z1 iCnt] buddy_ok_length [OF z1(3)] pz less.prems(3) by auto
    have "iCnt \<noteq> j" using 3 j(5) tz by auto
    with j(2) have ij: "iCnt < j" by simp
    have step: "scan_zone iPrev iCnt z = scan_zone j j z1"
      using 3 len z1(1) j(1) by (subst scan_zone.simps) (simp add: get_page_def)
    have "?F = {i. i < j \<and> \<not> taken (zone_mem_map z1 ! i)}"
      using j(3,4) ij tz by (auto) (metis linorder_not_less)+
    then obtain p z' where "scan_zone j j z1 = Some (p, z')" "same_pages z1 z'" "p \<le> present_pages z"
      "buddy_ok c z' {i. i < p \<and> \<not> taken (zone_mem_map z1 ! i)}"
      "\<forall>m. p \<le> m \<longrightarrow> m < present_pages z \<longrightarrow> \<not> taken (zone_mem_map z1 ! m)"
      using less.hyps [of z1 j j] z1(3) j(3) ij 3(1) pz by fastforce
    moreover have "{i. i < p \<and> \<not> taken (zone_mem_map z1 ! i)} = {i. i < p \<and> \<not> taken (zone_mem_map z ! i)}"
      using tz \<open>p \<le> present_pages z\<close> by auto
    ultimately show ?thesis
      unfolding step using same_pages_trans [OF z1(2)] tz by auto
  qed
qed

lemma fl_nodes_empty [simp]: "fl_nodes (\<lambda>_. []) a = []"
  by (cases a) simp_all

lemma blocks_empty [simp]: "blocks (\<lambda>_. []) = {}"
  by (simp add: blocks_def)

lemma inv_init_page:
  assumes I: "buddy_inv z (\<lambda>_. [])" and "i < present_pages z"
    and z': "lists z' = INIT_LIST_HEAD (LRU i) (lists z)" "nr_free z' = nr_free z"
      "zone_mem_map z' = (zone_mem_map z)[i := (zone_mem_map z ! i)\<lparr>page_no := v, page_zone := w\<rparr>]"
      "present_pages z' = present_pages z"
  shows "buddy_inv z' (\<lambda>_. [])"
proof -
  have "dlists (lists z') heads (fl_nodes (\<lambda>_. []))"
  proof (rule dlists_frame [OF buddy_invD(1) [OF I]])
    fix a p assume "a \<in> heads" "p \<in> set (a # fl_nodes (\<lambda>_. []) a)"
    then have "p \<noteq> LRU i" by (auto elim: headsE)
    then show "next_of (lists z') p = next_of (lists z) p \<and> prev_of (lists z') p = prev_of (lists z) p"
      by (simp add: z' list_op_defs heap_simps)
  qed
  moreover have "PagePrivate (p\<lparr>page_no := v, page_zone := w\<rparr>) = PagePrivate p" for p
    by (simp add: PagePrivate_def)
  ultimately show ?thesis
    using I z' assms(2) by (auto simp: buddy_inv_def nth_list_update)
qed

definition init_page_rel :: "nat \<Rightarrow> zone \<Rightarrow> zone \<Rightarrow> bool" where
  "init_page_rel i z z' \<longleftrightarrow> free_pages z' = free_pages z \<and> present_pages z' = present_pages z \<and>
     length (zone_mem_map z') = length (zone_mem_map z) \<and>
     (\<forall>m < length (zone_mem_map z). taken (zone_mem_map z' ! m) = taken (zone_mem_map z ! m) \<and>
       (if i \<le> m then page_zone (zone_mem_map z' ! m) = ZONE \<and> page_no (zone_mem_map z' ! m) = of_nat m
        else zone_mem_map z' ! m = zone_mem_map z ! m))"

lemma init_zone_pages_ok:
  assumes "buddy_inv z (\<lambda>_. [])" and "i \<le> present_pages z"
  shows "\<exists>z'. init_zone_pages i z = Some z' \<and> buddy_inv z' (\<lambda>_. []) \<and> init_page_rel i z z'"
  using assms
proof (induction i z rule: init_zone_pages.induct)
  case (1 i z)
  note len = buddy_invD(2) [OF "1.prems"(1)]
  show ?case
  proof (cases "i < present_pages z")
    case True
    define z1 where "z1 = z\<lparr>zone_mem_map := (zone_mem_map z)[i := (zone_mem_map z ! i)\<lparr>page_no := of_nat i, page_zone := ZONE\<rparr>]\<rparr>"
    let ?z2 = "upd_lists (INIT_LIST_HEAD (LRU i)) z1"
    have u: "upd_page i (\<lambda>p. p\<lparr>page_no := of_nat i, page_zone := ZONE\<rparr>) z = Some z1"
      using True len by (simp add: upd_page_def z1_def)
    have I2: "buddy_inv ?z2 (\<lambda>_. [])"
      by (rule inv_init_page [OF "1.prems"(1) True]) (simp_all add: z1_def heap_simps)
    have "Suc i \<le> present_pages ?z2" using True by (simp add: z1_def heap_simps)
    from "1.IH" [OF True u I2 this] obtain z' where
      z': "init_zone_pages (Suc i) ?z2 = Some z'" "buddy_inv z' (\<lambda>_. [])" "init_page_rel (Suc i) ?z2 z'"
      by blast
    have "init_page_rel i z z'"
      using z'(3) len True unfolding init_page_rel_def
      by (auto simp: z1_def heap_simps nth_list_update Suc_le_eq not_less_eq)
    with z' True u show ?thesis by (simp add: init_zone_pages.simps [of i z])
  next
    case False
    then have "init_zone_pages i z = Some z" by (subst init_zone_pages.simps) simp
    with False "1.prems" len show ?thesis by (auto simp: init_page_rel_def)
  qed
qed

definition pages_ready :: "zone \<Rightarrow> zone \<Rightarrow> bool" where
  "pages_ready z z' \<longleftrightarrow> present_pages z' = present_pages z \<and>
     (\<forall>i < present_pages z. taken (zone_mem_map z' ! i) = taken (zone_mem_map z ! i) \<and>
        page_zone (zone_mem_map z' ! i) = ZONE \<and> page_no (zone_mem_map z' ! i) = of_nat i)"

lemma build_free_lists_ok:
  assumes "buddy_inv z (\<lambda>_. [])"
  shows "\<exists>z'. build_free_lists z = Some z' \<and>
    buddy_ok (free_pages z) z' {i. i < present_pages z \<and> \<not> taken (zone_mem_map z ! i)} \<and>
    pages_ready z z'"
proof -
  obtain z1 where z1: "init_zone_pages 0 z = Some z1" "buddy_inv z1 (\<lambda>_. [])" "init_page_rel 0 z z1"
    using init_zone_pages_ok [OF assms] by auto
  note len = buddy_invD(2) [OF assms]
  have pz: "present_pages z1 = present_pages z" "free_pages z1 = free_pages z"
    and tz: "\<And>i. i < present_pages z \<Longrightarrow> taken (zone_mem_map z1 ! i) = taken (zone_mem_map z ! i)"
    using z1(3) len by (auto simp: init_page_rel_def)
  obtain j where j: "skip_taken z1 0 = Some j" "j \<le> present_pages z1"
      "\<forall>m. m < j \<longrightarrow> taken (zone_mem_map z1 ! m)"
    using skip_taken_ok [of z1 0] buddy_invD(2) [OF z1(2)] by auto
  have "free_set (\<lambda>_. []) = {}" by (simp add: free_set_def)
  moreover have "coalesced (\<lambda>_. [])" by (simp add: coalesced_def)
  moreover have none: "{i. i < j \<and> \<not> taken (zone_mem_map z1 ! i)} = {}" using j(3) by auto
  ultimately have "buddy_ok (free_pages z) z1 {i. i < j \<and> \<not> taken (zone_mem_map z1 ! i)}"
    unfolding none using z1(2) pz by (auto simp: buddy_ok_def)
  from scan_zone_ok [OF this, of j] j(2) obtain p z2 where
    z2: "scan_zone j j z1 = Some (p, z2)" "same_pages z1 z2" "p \<le> present_pages z1"
      "buddy_ok (free_pages z) z2 {i. i < p \<and> \<not> taken (zone_mem_map z1 ! i)}"
    and rest: "\<forall>m. p \<le> m \<longrightarrow> m < present_pages z1 \<longrightarrow> \<not> taken (zone_mem_map z1 ! m)" by auto
  let ?F = "{i. i < present_pages z \<and> \<not> taken (zone_mem_map z ! i)}"
  have p2: "present_pages z2 = present_pages z" using same_pages_present [OF z2(2)] pz by simp
  have "\<exists>z'. (if p < present_pages z2 then add_free_region_to_buddy z2 p (present_pages z2 - 1) else Some z2) = Some z' \<and>
      same_pages z2 z' \<and> buddy_ok (free_pages z) z' ?F"
  proof (cases "p < present_pages z2")
    case True
    then have "{p..present_pages z2 - 1} \<union> {i. i < p \<and> \<not> taken (zone_mem_map z1 ! i)} = ?F"
      using rest p2 pz tz by auto
    then show ?thesis
      using add_free_region_ok [OF z2(4), of "present_pages z2 - 1" p] True by fastforce
  next
    case False
    then have "{i. i < p \<and> \<not> taken (zone_mem_map z1 ! i)} = ?F" using z2(3) p2 pz tz by auto
    then show ?thesis using z2 False by auto
  qed
  then obtain z' where "(if p < present_pages z2 then add_free_region_to_buddy z2 p (present_pages z2 - 1) else Some z2) = Some z'"
    and z': "same_pages z2 z'" "buddy_ok (free_pages z) z' ?F" by blast
  then have run: "build_free_lists z = Some z'"
    using z1 j z2 by (simp add: build_free_lists_def)
  have "same_pages z1 z'" using z2(2) z'(1) by (rule same_pages_trans)
  then have "pages_ready z z'" using z1(3) len pz by (auto simp: same_pages_def init_page_rel_def pages_ready_def)
  with run z'(2) show ?thesis by blast
qed

section \<open>Display, self test and teardown keep the invariant\<close>

lemma those_map_Some: "(\<And>x. x \<in> set xs \<Longrightarrow> f x = Some (g x)) \<Longrightarrow> those (map f xs) = Some (map g xs)"
  by (induction xs) auto

lemma show_buddy_ok:
  assumes I: "buddy_inv z G"
  shows "show_buddy z = Some (map (\<lambda>k. map (\<lambda>i. page_no (zone_mem_map z ! i)) (G k)) [0..<BUDDY_GROUPS])"
  unfolding show_buddy_def
proof (rule those_map_Some)
  fix k assume "k \<in> set [0..<BUDDY_GROUPS]"
  then have k: "FL k \<in> heads" by simp
  note D = buddy_invD [OF I]
  have "list_for_each (lists z) (FL k) = Some (map LRU (G k))"
    using list_for_each_dlist [OF dlistsD [OF D(1) k]] by simp
  moreover have "those (map (\<lambda>n. do { i \<leftarrow> lru_entry n; p \<leftarrow> get_page z i; Some (page_no p) }) (map LRU (G k)))
      = Some (map (\<lambda>i. page_no (zone_mem_map z ! i)) (G k))"
    unfolding map_map by (rule those_map_Some)
      (use k D(2) block_in_zone [OF I, of _ k] in \<open>auto simp: get_page_def blocks_def\<close>)
  ultimately show "show_area z k = Some (map (\<lambda>i. page_no (zone_mem_map z ! i)) (G k))"
    using kl.empty_iff [OF D(1) k] by (auto simp: show_area_def)
qed

lemma show_buddy_total: "buddy_ok c z F \<Longrightarrow> \<exists>out. show_buddy z = Some out"
  using show_buddy_ok by (auto simp: buddy_ok_def)

lemma free_block_ptr_Some [simp]: "free_block_ptr (Some i) z k = free_block i z k"
  by (simp add: free_block_ptr_def)

lemma order_4_9 [simp]: "4 < BUDDY_GROUPS" "9 < BUDDY_GROUPS"
  by (simp_all add: BUDDY_GROUPS_def)

lemma test_buddy_ok:
  assumes ok: "buddy_ok c z F" and a1: "allocate_block z 9 = Some (Some p1, z1)"
    and a2: "allocate_block z1 4 = Some (Some p2, z2)"
  shows "\<exists>z'. test_buddy z = Some z' \<and> same_pages z z' \<and> buddy_ok c z' F"
proof -
  note A = bp.alloc_Some [OF ok order_4_9(2) a1] bp.alloc_Some(3) [OF bp.alloc_Some(3) [OF ok order_4_9(2) a1] order_4_9(1) a2]
  obtain z3 z4 where z: "free_block p2 z2 4 = Some z3" "buddy_ok c z3 (F - block p1 9)"
    "free_block p1 z3 9 = Some z4" "buddy_ok c z4 F"
    "same_pages z2 z3" "same_pages z3 z4" "same_pages z z1" "same_pages z1 z2"
    using bp.nested [OF ok order_4_9(2,1) a1 a2] kept_same by blast
  note outs = show_buddy_total [OF ok] show_buddy_total [OF A(3)] show_buddy_total [OF A(5)]
    show_buddy_total [OF z(2)] show_buddy_total [OF z(4)]
  have "test_buddy z = Some z4" using outs a1 a2 z by (auto simp: test_buddy_def)
  with z show ?thesis by (blast intro: same_pages_trans)
qed

lemma free_areas_reset_ok:
  assumes "dlists (lists z) heads F" and "k \<le> BUDDY_GROUPS"
  shows "\<exists>h. free_areas_reset k z = Some (z\<lparr>lists := h\<rparr>) \<and>
    dlists h heads (\<lambda>a. if a \<in> FL ` {..<k} then [] else F a)"
  using assms(2)
proof (induction k)
  case 0
  show ?case using assms(1) by (intro exI [of _ "lists z"]) simp
next
  case (Suc k)
  let ?F = "\<lambda>a. if a \<in> FL ` {..<k} then [] else F a"
  obtain h where h: "free_areas_reset k z = Some (z\<lparr>lists := h\<rparr>)" "dlists h heads ?F"
    using Suc by auto
  have k: "FL k \<in> heads" using Suc.prems by simp
  obtain h1 where h1: "list_del_each (FL k) h = Some h1" "dlists h1 heads (?F(FL k := []))"
    using dlists_del_each [OF h(2) k] by blast
  have "dlists (INIT_LIST_HEAD (FL k) h1) heads (?F(FL k := [], FL k := []))"
    by (rule dlists_init [OF h1(2) k])
  moreover have "?F(FL k := [], FL k := []) = (\<lambda>a. if a \<in> FL ` {..<Suc k} then [] else F a)"
    by (auto simp: fun_eq_iff lessThan_Suc)
  ultimately show ?case using h(1) h1(1) by (auto simp: free_area_reset_def)
qed

lemma test_buddy_null:
  assumes ok: "buddy_ok c z F" and none: "\<forall>b. aligned b 9 \<longrightarrow> \<not> block b 9 \<subseteq> F"
  shows "test_buddy z = None"
proof -
  obtain r z1 where r: "allocate_block z 9 = Some (r, z1)"
    "case r of None \<Rightarrow> True | Some p \<Rightarrow> aligned p 9 \<and> block p 9 \<subseteq> F"
    using bp.alloc_ok [OF ok order_4_9(2)] by (fastforce split: option.splits)
  with none have "r = None" by (auto split: option.splits)
  with r show ?thesis
    by (auto simp: test_buddy_def free_block_ptr_def split: option.splits bind_splits)
qed

lemma test_buddy_two_blocks:
  assumes ok: "buddy_ok c z F" and b: "aligned a 9" "aligned b 9" "a \<noteq> b" "block a 9 \<subseteq> F" "block b 9 \<subseteq> F"
  shows "\<exists>z'. test_buddy z = Some z' \<and> same_pages z z' \<and> buddy_ok c z' F"
proof -
  obtain p1 z1 where a1: "allocate_block z 9 = Some (Some p1, z1)"
    using bp.alloc_ok [OF ok order_4_9(2)] b by (fastforce split: option.splits)
  note A = bp.alloc_Some [OF ok order_4_9(2) a1]
  have "block a 9 \<inter> block b 9 = {}"
    using block_nested [OF b(1,2)] block_nested [OF b(2,1)] b(3) block_inj [of a 9 b 9] by blast
  then have "\<exists>q. aligned q 9 \<and> block q 9 \<subseteq> F - block p1 9"
    using block_nested [OF b(1) A(1)] block_nested [OF A(1) b(1)] block_inj [of a 9 p1 9]
      block_nested [OF b(2) A(1)] b by blast
  then obtain q where q: "aligned q 9" "block q 9 \<subseteq> F - block p1 9" by blast
  have "block q 4 \<subseteq> block q 9" by (auto simp: block_def)
  moreover have "aligned q 4" using q(1) by (rule aligned_mono) simp
  ultimately obtain p2 z2 where "allocate_block z1 4 = Some (Some p2, z2)"
    using bp.alloc_ok [OF A(3) order_4_9(1)] q(2) by (fastforce split: option.splits)
  then show ?thesis by (rule test_buddy_ok [OF ok a1])
qed

section \<open>Sample zones\<close>

text \<open>A zone whose pages are all available and whose free lists are still empty, and the same zone
  with its four pages on the order-2 list; the concrete states at which the theorems are evaluated.\<close>

definition blank_page :: page where
  "blank_page = \<lparr>page_zone = NULL_ZONE, page_no = 0, flags = 0, ref_cnt = 0, map_count = 0,
     page_private = 0, first_page = None\<rparr>"

definition sample_zone :: "nat \<Rightarrow> zone" where
  "sample_zone n = \<lparr>free_pages = 0, present_pages = n, pages_min = 10, pages_low = 10, zone_start_pfn = 0,
     zone_mem_map = replicate n blank_page, nr_free = \<lambda>_. 0, lists = \<lparr>next_of = id, prev_of = id\<rparr>\<rparr>"

definition sample_free :: zone where
  "sample_free = (sample_zone 4)\<lparr>free_pages := 4,
     zone_mem_map := (replicate 4 blank_page)[0 := SetPagePrivate (blank_page\<lparr>page_private := of_nat 2\<rparr>)],
     nr_free := (\<lambda>_. 0)(2 := 1), lists := list_add (FL 2) (LRU 0) \<lparr>next_of = id, prev_of = id\<rparr>\<rparr>"

lemma sample_zone_inv: "buddy_inv (sample_zone n) (\<lambda>_. [])"
  by (auto simp: buddy_inv_def sample_zone_def dlists_def dlist_def wf_blocks_def blank_page_def
    PagePrivate_iff elim!: headsE)

lemma sample_zone_taken: "i < n \<Longrightarrow> \<not> taken (zone_mem_map (sample_zone n) ! i)"
  by (simp add: sample_zone_def taken_def blank_page_def)

lemma sample_zone_ok: "buddy_ok 0 (sample_zone n) {}"
  using sample_zone_inv [of n] unfolding buddy_ok_def
  by (intro conjI exI [of _ "\<lambda>_. []"]) (auto simp: coalesced_def free_set_def sample_zone_def)

lemma sample_free_inv: "buddy_inv sample_free ((\<lambda>_. [])(2 := [0]))"
  using inv_put [OF sample_zone_inv [of 4], of 2 0 sample_free]
  by (simp add: BUDDY_GROUPS_def sample_free_def sample_zone_def free_set_def)

lemma sample_free_ok: "buddy_ok 0 sample_free {0..<4}"
  using sample_free_inv unfolding buddy_ok_def
  by (intro conjI exI [of _ "(\<lambda>_. [])(2 := [0])"])
    (auto simp: coalesced_def free_set_iff blocks_def block_def BUDDY_GROUPS_def sample_free_def
      sample_zone_def split: if_splits)

lemma sample_alloc: "\<exists>z1. allocate_block sample_free 1 = Some (Some 0, z1)"
proof -
  have "first_area ((\<lambda>_. [])(2 := [0])) 1 = Some 2"
    by (simp add: first_area.simps BUDDY_GROUPS_def numeral_2_eq_2)
  then have "alloc_spec ((\<lambda>_. [])(2 := [0])) 1 = (Some 0, split_spec 0 1 2 (\<lambda>_. []))"
    by (simp add: alloc_spec_def fun_upd_idem)
  from allocate_block_refines [OF sample_free_inv this] show ?thesis by auto
qed

definition sample_owned :: "nat \<Rightarrow> zone" where
  "sample_owned n = (sample_zone n)\<lparr>zone_mem_map := replicate n (blank_page\<lparr>page_zone := ZONE\<rparr>)\<rparr>"

lemma sample_owned_ok: "buddy_ok 0 (sample_owned n) {}"
proof -
  have "buddy_inv (sample_owned n) (\<lambda>_. [])"
    using sample_zone_inv [of n]
    by (auto simp: buddy_inv_def sample_owned_def sample_zone_def blank_page_def PagePrivate_iff)
  then show ?thesis unfolding buddy_ok_def
    by (intro conjI exI [of _ "\<lambda>_. []"]) (auto simp: coalesced_def free_set_def sample_owned_def sample_zone_def)
qed

section \<open>Properties\<close>

lemma free_pages_ok:
  assumes "buddy_ok c z F" and "k < BUDDY_GROUPS" and "aligned i k" and "i + 2 ^ k \<le> present_pages z"
    and "block i k \<inter> F = {}" and "page_zone (zone_mem_map z ! i) = ZONE"
  shows "\<exists>z'. free_pages_op z i k = Some z' \<and> kept_outside (block i k \<union> F) z z' \<and>
    buddy_ok c z' (block i k \<union> F)"
proof -
  have "i < length (zone_mem_map z)"
    using start_bound [OF assms(4)] buddy_ok_length [OF assms(1)] by simp
  then show ?thesis
    using free_block_ok [OF assms(1-5)] assms(6) by (simp add: free_pages_op_def get_page_def)
qed

text \<open>
  C2: in a well-formed zone an allocation of order \<open>k\<close> always returns.  Either it hands out an
  aligned run of \<open>2 ^ k\<close> free pages, removes exactly those from the free set and keeps the
  invariants (disjoint aligned blocks, full coalescing, the page counter), or it returns null, and
  then no aligned run of \<open>2 ^ k\<close> pages is free.  Descriptors and list nodes of pages that were not
  free are untouched.
\<close>

theorem allocate_block_correct:
  assumes "buddy_ok c z F" and "k < BUDDY_GROUPS"
  shows "\<exists>r z'. alloc_pages z gfp_mask k = Some (r, z') \<and> kept_outside F z z' \<and>
    (case r of
       None \<Rightarrow> buddy_ok c z' F \<and> (\<forall>b. aligned b k \<longrightarrow> \<not> block b k \<subseteq> F)
     | Some p \<Rightarrow> aligned p k \<and> block p k \<subseteq> F \<and> buddy_ok c z' (F - block p k))"
  unfolding alloc_pages_def by (rule allocate_block_ok [OF assms])

theorem allocate_block_correct_witness:
  "\<exists>r z'. alloc_pages sample_free 0 1 = Some (r, z') \<and> kept_outside {0..<4} sample_free z' \<and>
    (case r of
       None \<Rightarrow> buddy_ok 0 z' {0..<4} \<and> (\<forall>b. aligned b 1 \<longrightarrow> \<not> block b 1 \<subseteq> {0..<4})
     | Some p \<Rightarrow> aligned p 1 \<and> block p 1 \<subseteq> {0..<4} \<and> buddy_ok 0 z' ({0..<4} - block p 1))"
  by (rule allocate_block_correct [OF sample_free_ok]) (simp add: BUDDY_GROUPS_def)

text \<open>
  C3: freeing an aligned block of pages that are not free, through \<^verbatim>\<open>free_pages\<close>, returns and adds
  exactly that block to the free set; afterwards no free block has a free buddy of its own order
  (the zone is again fully coalesced), the counter \<^verbatim>\<open>free_pages\<close> has grown by the size of the block
  and the descriptors and list nodes of all other allocated pages are untouched.
\<close>

theorem free_pages_correct:
  assumes "buddy_ok c z F" and "k < BUDDY_GROUPS" and "aligned i k" and "i + 2 ^ k \<le> present_pages z"
    and "block i k \<inter> F = {}" and "page_zone (zone_mem_map z ! i) = ZONE"
  shows "\<exists>z'. free_pages_op z i k = Some z' \<and> kept_outside (block i k \<union> F) z z' \<and>
    buddy_ok c z' (block i k \<union> F)"
  by (rule free_pages_ok [OF assms])

theorem free_pages_correct_witness:
  "\<exists>z'. free_pages_op (sample_owned 8) 4 2 = Some z' \<and> kept_outside (block 4 2 \<union> {}) (sample_owned 8) z' \<and>
    buddy_ok 0 z' (block 4 2 \<union> {})"
  by (rule free_pages_correct [OF sample_owned_ok])
    (simp_all add: BUDDY_GROUPS_def sample_owned_def sample_zone_def aligned_def)

text \<open>
  C4: allocation followed by freeing is a round trip: the freed block is accepted and the free set,
  the coalescing invariant and the page counter are what they were before.
\<close>

theorem alloc_free_roundtrip:
  assumes "buddy_ok c z F" and "k < BUDDY_GROUPS" and "allocate_block z k = Some (Some p, z1)"
  shows "\<exists>z2. free_block p z1 k = Some z2 \<and> kept_outside F z1 z2 \<and> buddy_ok c z2 F \<and>
    free_pages z2 = free_pages z"
  using bp.alloc_free [OF assms] assms(1) by (auto simp: buddy_ok_def)

theorem alloc_free_roundtrip_witness:
  "\<exists>z1 z2. allocate_block sample_free 1 = Some (Some 0, z1) \<and> free_block 0 z1 1 = Some z2 \<and>
    buddy_ok 0 z2 {0..<4}"
proof -
  obtain z1 where z1: "allocate_block sample_free 1 = Some (Some 0, z1)" using sample_alloc by blast
  from alloc_free_roundtrip [OF sample_free_ok _ z1] z1 show ?thesis by (auto simp: BUDDY_GROUPS_def)
qed

text \<open>
  C5: the pointer-level allocator simulates the abstract buddy system: with \<open>G\<close> the sequences of free
  blocks represented by the zone, \<^verbatim>\<open>allocate_block\<close> returns the block \<open>alloc_spec\<close> returns and
  leaves a zone that represents the lists \<open>alloc_spec\<close> leaves (the head of the first non-empty list at
  or above the order, its upper halves pushed on the lists below).
\<close>

theorem allocate_block_simulates:
  assumes "buddy_inv z G"
  shows "\<exists>z'. allocate_block z k = Some (fst (alloc_spec G k), z') \<and> buddy_inv z' (snd (alloc_spec G k))"
  using allocate_block_refines [OF assms, of k "fst (alloc_spec G k)" "snd (alloc_spec G k)"] by auto

theorem allocate_block_simulates_witness:
  "\<exists>z'. allocate_block sample_free 0 = Some (fst (alloc_spec ((\<lambda>_. [])(2 := [0])) 0), z') \<and>
    buddy_inv z' (snd (alloc_spec ((\<lambda>_. [])(2 := [0])) 0))"
  by (rule allocate_block_simulates [OF sample_free_inv])

text \<open>
  C6: likewise \<^verbatim>\<open>free_block\<close> simulates \<open>free_spec\<close>: the code's test of the buddy's descriptor (present
  in the zone, flag set, order recorded) succeeds exactly when the buddy is on the free list of that
  order, and merging proceeds order by order as in the abstract system.
\<close>

theorem free_block_simulates:
  assumes "buddy_inv z G" and "k < BUDDY_GROUPS" and "aligned i k" and "i + 2 ^ k \<le> present_pages z"
    and "block i k \<inter> free_set G = {}"
  shows "\<exists>z'. free_block i z k = Some z' \<and> buddy_inv z' (free_spec i k G)"
  using free_block_refines [OF assms] by blast

theorem free_block_simulates_witness:
  "\<exists>z'. free_block 0 (sample_zone 4) 1 = Some z' \<and> buddy_inv z' (free_spec 0 1 (\<lambda>_. []))"
  by (rule free_block_simulates [OF sample_zone_inv])
    (simp_all add: BUDDY_GROUPS_def sample_zone_def free_set_def)

lemma init_zone_ok:
  assumes "buddy_inv z (\<lambda>_. [])" and "F = {i. i < present_pages z \<and> \<not> taken (zone_mem_map z ! i)}"
    and "aligned a 9" and "aligned b 9" and "a \<noteq> b" and "block a 9 \<subseteq> F" and "block b 9 \<subseteq> F"
  shows "\<exists>z'. init_zone z = Some z' \<and> buddy_ok (free_pages z) z' F \<and> pages_ready z z'"
proof -
  obtain z1 where z1: "build_free_lists z = Some z1" "buddy_ok (free_pages z) z1 F" "pages_ready z z1"
    using build_free_lists_ok [OF assms(1)] assms(2) by blast
  obtain z2 where z2: "test_buddy z1 = Some z2" "same_pages z1 z2" "buddy_ok (free_pages z) z2 F"
    using test_buddy_two_blocks [OF z1(2) assms(3-7)] by blast
  moreover have "present_pages z1 = length (zone_mem_map z1)" using buddy_ok_length [OF z1(2)] .
  ultimately show ?thesis
    using z1 by (auto simp: init_zone_def pages_ready_def same_pages_def)
qed

text \<open>
  C7: \<^verbatim>\<open>init_zone\<close>, started on a zone with empty lists and no page marked as a free block, puts every
  page that is neither taken nor reserved, and no other, into the free lists, numbers all descriptors
  and links them to the zone; the free lists are fully coalesced.  The self test at its end restores
  the free set when two aligned runs of 512 pages are free.  The counter \<^verbatim>\<open>free_pages\<close> grows by the
  number of free pages, on top of the value it had before.
\<close>

theorem init_zone_correct:
  assumes "buddy_inv z (\<lambda>_. [])" and "F = {i. i < present_pages z \<and> \<not> taken (zone_mem_map z ! i)}"
    and "aligned a 9" and "aligned b 9" and "a \<noteq> b" and "block a 9 \<subseteq> F" and "block b 9 \<subseteq> F"
  shows "\<exists>z'. init_zone z = Some z' \<and> buddy_ok (free_pages z) z' F \<and> pages_ready z z'"
  by (rule init_zone_ok [OF assms])

theorem init_zone_correct_witness:
  "\<exists>z'. init_zone (sample_zone 1024) = Some z' \<and>
    buddy_ok (free_pages (sample_zone 1024)) z' {..<1024} \<and> pages_ready (sample_zone 1024) z'"
  by (rule init_zone_correct [OF sample_zone_inv, of _ _ 0 512])
    (auto simp: sample_zone_taken aligned_def block_def, simp_all add: sample_zone_def)

text \<open>
  The self test passes a null pointer to \<^verbatim>\<open>free_block\<close> when no aligned run of 512 pages is free: it
  then computes a page index from the null pointer, outside \<^verbatim>\<open>zone_mem_map\<close>.
\<close>

theorem test_buddy_null_pointer:
  assumes "buddy_ok c z F" and "\<forall>b. aligned b 9 \<longrightarrow> \<not> block b 9 \<subseteq> F"
  shows "test_buddy z = None"
  by (rule test_buddy_null [OF assms])

theorem test_buddy_null_pointer_witness: "test_buddy sample_free = None"
proof (rule test_buddy_null_pointer [OF sample_free_ok], intro allI impI notI)
  fix b :: nat assume "block b 9 \<subseteq> {0..<4}"
  from card_mono [OF _ this] show False by simp
qed

text \<open>
  \<^verbatim>\<open>free_buddy_system\<close> terminates on a well-formed zone and leaves every free list empty.
\<close>

theorem free_buddy_system_empties:
  assumes "buddy_inv z G"
  shows "\<exists>z'. free_buddy_system z = Some z' \<and> (\<forall>k < BUDDY_GROUPS. list_is_empty (lists z') (FL k))"
proof -
  obtain h where h: "free_areas_reset BUDDY_GROUPS z = Some (z\<lparr>lists := h\<rparr>)"
    "dlists h heads (\<lambda>a. if a \<in> FL ` {..<BUDDY_GROUPS} then [] else fl_nodes G a)"
    using free_areas_reset_ok [OF buddy_invD(1) [OF assms] order_refl] by blast
  then show ?thesis using kl.empty_iff [OF h(2)] by (auto simp: free_buddy_system_def)
qed

theorem free_buddy_system_empties_witness:
  "\<exists>z'. free_buddy_system sample_free = Some z' \<and> (\<forall>k < BUDDY_GROUPS. list_is_empty (lists z') (FL k))"
  by (rule free_buddy_system_empties [OF sample_free_inv])

end
