(* ===== verification/Heap_Alloc.thy ===== *)
theory Heap_Alloc
  imports Prelude
begin

text \<open>
  The boot-time heap (\<^verbatim>\<open>memory-management/allocator.c\<close>): a first-fit search over a list of block
  headers, then a bump of the allocation pointer.

  Headers are addressed by 32-bit words; \<^verbatim>\<open>sizeof(heap_block_t)\<close> is 12.  The search follows
  \<^verbatim>\<open>next\<close> pointers, so a cyclic list makes it run forever, which is \<open>None\<close>.  A returned null
  pointer is \<open>0\<close>.  \<open>heap_ok H s bs\<close> describes a well-formed heap that begins at \<open>s\<close>: the headers of
  the blocks \<open>bs\<close> (length and free flag) follow each other without gaps up to the allocation pointer.
\<close>

section \<open>The code\<close>

record heap_block =
  hb_size :: u32
  is_freed :: bool
  hb_next :: u32

record kheap =
  hblocks :: "u32 \<Rightarrow> heap_block"
  heap_head :: u32
  kalloc_ptr :: u32
  heap_end :: u32

definition ALIGNUP :: "u32 \<Rightarrow> u32 \<Rightarrow> u32" where
  "ALIGNUP offset align = (offset + (align + 1)) AND NOT (align - 1)"

definition HB :: u32 where "HB = 12"

partial_function (option) kalloc_search :: "kheap \<Rightarrow> u32 \<Rightarrow> u32 \<Rightarrow> u32 \<Rightarrow> (u32 \<times> u32) option" where
  "kalloc_search H req prev cur =
     (if cur = 0 then Some (0, prev)
      else if is_freed (hblocks H cur) \<and> hb_size (hblocks H cur) \<ge> req then Some (cur, prev)
      else kalloc_search H req cur (hb_next (hblocks H cur)))"

definition upd_block :: "u32 \<Rightarrow> (heap_block \<Rightarrow> heap_block) \<Rightarrow> kheap \<Rightarrow> kheap" where
  "upd_block a f H = H\<lparr>hblocks := (hblocks H)(a := f (hblocks H a))\<rparr>"

definition new_block :: "u32 \<Rightarrow> u32 \<Rightarrow> kheap \<Rightarrow> kheap" where
  "new_block req prev H =
     (let cur = kalloc_ptr H;
          H = upd_block cur (\<lambda>_. \<lparr>hb_size = req, is_freed = False, hb_next = 0\<rparr>) H;
          H = (if heap_head H = 0 then H\<lparr>heap_head := cur\<rparr>
               else upd_block prev (\<lambda>b. b\<lparr>hb_next := cur\<rparr>) H)
      in H\<lparr>kalloc_ptr := kalloc_ptr H + (req + HB)\<rparr>)"

definition kalloc :: "u32 \<Rightarrow> kheap \<Rightarrow> (u32 \<times> kheap) option" where
  "kalloc req H = do {
     let req = ALIGNUP req 8;
     let total_req = req + HB;
     if kalloc_ptr H + total_req > heap_end H then Some (0, H)
     else do {
       (cur, prev) \<leftarrow> kalloc_search H req 0 (heap_head H);
       if cur \<noteq> 0 then Some (cur + HB, upd_block cur (\<lambda>b. b\<lparr>is_freed := False\<rparr>) H)
       else Some (kalloc_ptr H + HB, new_block req prev H)
     }
   }"

definition kbfree :: "u32 \<Rightarrow> kheap \<Rightarrow> kheap" where
  "kbfree ptr H =
     (if ptr = 0 then H
      else let node = ptr - HB;
               H = upd_block node (\<lambda>b. b\<lparr>is_freed := True\<rparr>) H
           in if hb_next (hblocks H node) = 0
              then H\<lparr>kalloc_ptr := kalloc_ptr H - (hb_size (hblocks H node) + HB)\<rparr> else H)"

section \<open>Layout\<close>

type_synonym layout = "(nat \<times> bool) list"

fun heap_top :: "nat \<Rightarrow> layout \<Rightarrow> nat" where
  "heap_top s [] = s"
| "heap_top s ((n, f) # bs) = heap_top (s + 12 + n) bs"

fun chain :: "(u32 \<Rightarrow> heap_block) \<Rightarrow> nat \<Rightarrow> layout \<Rightarrow> bool" where
  "chain m s [] \<longleftrightarrow> True"
| "chain m s ((n, f) # bs) \<longleftrightarrow> hb_size (m (of_nat s)) = of_nat n \<and> is_freed (m (of_nat s)) = f \<and>
     hb_next (m (of_nat s)) = (if bs = [] then 0 else of_nat (s + 12 + n)) \<and> chain m (s + 12 + n) bs"

definition heap_ok :: "kheap \<Rightarrow> nat \<Rightarrow> layout \<Rightarrow> bool" where
  "heap_ok H s bs \<longleftrightarrow> 0 < s \<and> chain (hblocks H) s bs \<and> heap_top s bs = unat (kalloc_ptr H) \<and>
     heap_head H = (if bs = [] then 0 else of_nat s) \<and> kalloc_ptr H \<le> heap_end H"

fun used :: "nat \<Rightarrow> layout \<Rightarrow> (nat \<times> nat) set" where
  "used s [] = {}"
| "used s ((n, f) # bs) = (if f then {} else {(s + 12, n)}) \<union> used (s + 12 + n) bs"

fun fit :: "nat \<Rightarrow> nat \<Rightarrow> layout \<Rightarrow> (nat \<times> nat \<times> layout) option" where
  "fit req s [] = None"
| "fit req s ((n, f) # bs) =
     (if f \<and> req \<le> n then Some (s, n, (n, False) # bs)
      else map_option (\<lambda>(a, k, cs). (a, k, (n, f) # cs)) (fit req (s + 12 + n) bs))"

fun last_block :: "nat \<Rightarrow> nat \<Rightarrow> layout \<Rightarrow> nat" where
  "last_block p s [] = p"
| "last_block p s ((n, f) # bs) = last_block s (s + 12 + n) bs"

lemma heap_top_le: "s \<le> heap_top s bs"
  by (induction s bs rule: heap_top.induct) auto

lemma heap_top_self: "heap_top s bs = s \<longleftrightarrow> bs = []"
proof (cases bs)
  case (Cons x cs)
  then show ?thesis using heap_top_le [of "s + 12 + fst x" cs] by (cases x) auto
qed simp

lemma heap_top_append: "heap_top s (bs @ cs) = heap_top (heap_top s bs) cs"
  by (induction s bs rule: heap_top.induct) auto

lemma used_append: "used s (bs @ cs) = used s bs \<union> used (heap_top s bs) cs"
  by (induction s bs rule: heap_top.induct) auto

lemma used_range: "(a, n) \<in> used s bs \<Longrightarrow> s + 12 \<le> a \<and> a + n \<le> heap_top s bs"
proof (induction s bs rule: used.induct)
  case (2 s m f bs)
  then show ?case using heap_top_le [of "s + 12 + m" bs] by (fastforce split: if_splits)
qed simp

lemma used_disjoint: "(a, n) \<in> used s bs \<Longrightarrow> (b, k) \<in> used s bs \<Longrightarrow> (a, n) \<noteq> (b, k) \<Longrightarrow>
    {a..<a + n} \<inter> {b..<b + k} = {}"
proof (induction s bs rule: used.induct)
  case (2 s m f bs)
  have *: "s + 12 + m \<le> c" if "(c, l) \<in> used (s + 12 + m) bs" for c l
    using used_range [OF that] by simp
  show ?case using 2 * by (fastforce split: if_splits)
qed simp

lemma chain_frame: "chain m s bs \<Longrightarrow> heap_top s bs \<le> 2 ^ 32 \<Longrightarrow>
    (\<And>a. s \<le> a \<Longrightarrow> a < heap_top s bs \<Longrightarrow> m' (of_nat a) = m (of_nat a)) \<Longrightarrow> chain m' s bs"
proof (induction s bs rule: heap_top.induct)
  case (2 s n f bs)
  have "chain m' (s + 12 + n) bs"
    by (rule "2.IH") (use "2.prems" in auto)
  moreover have "m' (of_nat s) = m (of_nat s)"
    by (rule "2.prems"(3)) (use heap_top_le [of "s + 12 + n" bs] in auto)
  ultimately show ?case using "2.prems"(1) by simp
qed simp

lemma ALIGNUP_8: "unat req + 9 < 2 ^ 32 \<Longrightarrow> unat (ALIGNUP req 8) = (unat req + 9) div 8 * 8"
proof -
  assume "unat req + 9 < 2 ^ 32"
  then have "unat (req + 9) = unat req + 9" using unat_plus [of req 9] by simp
  moreover have "ALIGNUP req 8 = (req + 9) AND NOT (mask 3)" by (simp add: ALIGNUP_def mask_numeral)
  ultimately show ?thesis using unat_align_down [of "req + 9" 3] by simp
qed

lemma search_None:
  assumes "chain (hblocks H) s bs" and "0 < s" and "heap_top s bs < 2 ^ 32" and "fit (unat req) s bs = None"
  shows "kalloc_search H req (of_nat p) (if bs = [] then 0 else of_nat s) =
    Some (0, of_nat (last_block p s bs))"
  using assms
proof (induction p s bs rule: last_block.induct)
  case (1 p s)
  then show ?case by (subst kalloc_search.simps) simp
next
  case (2 p s n f bs)
  have top: "s + 12 + n \<le> heap_top (s + 12 + n) bs" by (rule heap_top_le)
  have "(of_nat s :: u32) \<noteq> 0" using 2 top of_nat_u32_inj [of s 0] by simp
  moreover have "\<not> (f \<and> req \<le> of_nat n)"
    using "2.prems" top unat_of_nat_u32 [of n] by (auto simp: word_le_nat_alt split: if_splits)
  ultimately have "kalloc_search H req (of_nat p) (of_nat s) =
    kalloc_search H req (of_nat s) (if bs = [] then 0 else of_nat (s + 12 + n))"
    using 2 by (subst kalloc_search.simps) auto
  also have "\<dots> = Some (0, of_nat (last_block s (s + 12 + n) bs))"
    by (rule "2.IH") (use "2.prems" in \<open>auto split: if_splits\<close>)
  finally show ?case by simp
qed

lemma search_Some:
  assumes "chain (hblocks H) s bs" and "0 < s" and "heap_top s bs < 2 ^ 32" and "fit (unat req) s bs = Some (a, k, cs)"
  shows "\<exists>q. kalloc_search H req q0 (of_nat s) = Some (of_nat a, q)"
  using assms
proof (induction s bs arbitrary: q0 cs rule: heap_top.induct)
  case (1 s)
  then show ?case by simp
next
  case (2 s n f bs)
  have top: "s + 12 + n \<le> heap_top (s + 12 + n) bs" by (rule heap_top_le)
  have nz: "(of_nat s :: u32) \<noteq> 0" using 2 top of_nat_u32_inj [of s 0] by simp
  have le: "req \<le> of_nat n \<longleftrightarrow> unat req \<le> n"
    using "2.prems" top unat_of_nat_u32 [of n] by (simp add: word_le_nat_alt)
  show ?case
  proof (cases "f \<and> unat req \<le> n")
    case True
    then show ?thesis using 2 nz le by (subst kalloc_search.simps) auto
  next
    case False
    then obtain cs' where f: "fit (unat req) (s + 12 + n) bs = Some (a, k, cs')"
      using "2.prems" by (auto simp del: split_paired_Ex)
    then have "bs \<noteq> []" by auto
    with False nz le 2 have "kalloc_search H req q0 (of_nat s) = kalloc_search H req (of_nat s) (of_nat (s + 12 + n))"
      by (subst kalloc_search.simps) auto
    with "2.IH" [OF _ _ _ f, of "of_nat s"] "2.prems" show ?thesis by auto
  qed
qed

lemma fit_props:
  assumes "fit req s bs = Some (a, k, cs)"
  shows "s \<le> a \<and> a + 12 + k \<le> heap_top s bs \<and> req \<le> k \<and> heap_top s cs = heap_top s bs \<and>
    used s cs = insert (a + 12, k) (used s bs) \<and> cs \<noteq> [] \<and> bs \<noteq> [] \<and>
    (\<forall>b l. (b, l) \<in> used s bs \<longrightarrow> a + 12 + k \<le> b \<or> b + l \<le> a)"
  using assms
proof (induction s bs arbitrary: cs rule: heap_top.induct)
  case (2 s n f bs)
  have top: "s + 12 + n \<le> heap_top (s + 12 + n) bs" by (rule heap_top_le)
  have above: "s + 12 + n + 12 \<le> b" if "(b, l) \<in> used (s + 12 + n) bs" for b l
    using used_range [OF that] by simp
  show ?case
  proof (cases "f \<and> req \<le> n")
    case True
    with "2.prems" top above show ?thesis by (fastforce split: if_splits)
  next
    case False
    then obtain cs' where "fit req (s + 12 + n) bs = Some (a, k, cs')" "cs = (n, f) # cs'"
      using "2.prems" by (auto split: if_splits)
    with "2.IH" [of cs'] False above show ?thesis by (fastforce split: if_splits)
  qed
qed simp

lemma fit_chain:
  assumes "fit req s bs = Some (a, k, cs)" and "chain m s bs" and "heap_top s bs < 2 ^ 32"
  shows "chain (m(of_nat a := (m (of_nat a))\<lparr>is_freed := False\<rparr>)) s cs"
  using assms
proof (induction s bs arbitrary: cs rule: heap_top.induct)
  case (2 s n f bs)
  let ?m = "m(of_nat a := (m (of_nat a))\<lparr>is_freed := False\<rparr>)"
  have top: "s + 12 + n \<le> heap_top (s + 12 + n) bs" by (rule heap_top_le)
  show ?case
  proof (cases "f \<and> req \<le> n")
    case True
    then have as: "a = s" "cs = (n, False) # bs" using "2.prems" by auto
    have "of_nat b \<noteq> (of_nat s :: u32)" if "s + 12 + n \<le> b" "b < heap_top (s + 12 + n) bs" for b
      using of_nat_u32_inj [of b s] that "2.prems" top by auto
    then have fr: "?m (of_nat b) = m (of_nat b)" if "s + 12 + n \<le> b" "b < heap_top (s + 12 + n) bs" for b
      using as that by simp
    have "chain m (s + 12 + n) bs" "heap_top (s + 12 + n) bs \<le> 2 ^ 32" using "2.prems" by auto
    from chain_frame [OF this fr] have "chain ?m (s + 12 + n) bs" .
    then show ?thesis using "2.prems"(2) as by (simp add: fun_upd_def)
  next
    case False
    then obtain cs' where f: "fit req (s + 12 + n) bs = Some (a, k, cs')" "cs = (n, f) # cs'"
      using "2.prems" by (auto split: if_splits)
    note F = fit_props [OF f(1)]
    have "of_nat s \<noteq> (of_nat a :: u32)" using of_nat_u32_inj [of s a] F "2.prems" by auto
    moreover have "chain ?m (s + 12 + n) cs'" by (rule "2.IH" [OF f(1)]) (use "2.prems" in auto)
    ultimately show ?thesis using "2.prems"(2) F f(2) by (simp add: fun_upd_def)
  qed
qed simp

lemma last_block_range: "bs \<noteq> [] \<Longrightarrow> s \<le> last_block p s bs \<and> last_block p s bs + 12 \<le> heap_top s bs"
proof (induction p s bs rule: last_block.induct)
  case (2 p s n f bs)
  then show ?case using heap_top_le [of "s + 12 + n" bs] by (cases "bs = []") auto
qed simp

lemma chain_snoc:
  assumes "chain m s bs" and "heap_top s bs + 12 + n < 2 ^ 32" and "bs \<noteq> []"
    and "m' (of_nat (heap_top s bs)) = \<lparr>hb_size = of_nat n, is_freed = False, hb_next = 0\<rparr>"
    and "m' (of_nat (last_block p s bs)) = (m (of_nat (last_block p s bs)))\<lparr>hb_next := of_nat (heap_top s bs)\<rparr>"
    and "\<And>a. s \<le> a \<Longrightarrow> a < heap_top s bs \<Longrightarrow> a \<noteq> last_block p s bs \<Longrightarrow> m' (of_nat a) = m (of_nat a)"
  shows "chain m' s (bs @ [(n, False)])"
  using assms
proof (induction p s bs rule: last_block.induct)
  case (2 p s k f bs)
  have top: "s + 12 + k \<le> heap_top (s + 12 + k) bs" by (rule heap_top_le)
  show ?case
  proof (cases "bs = []")
    case True
    with "2.prems" show ?thesis by simp
  next
    case False
    note R = last_block_range [OF False, of "s + 12 + k" s]
    have "chain m' (s + 12 + k) (bs @ [(n, False)])"
      by (rule "2.IH") (use "2.prems" False in auto)
    moreover have "m' (of_nat s) = m (of_nat s)"
      by (rule "2.prems"(6)) (use R top in auto)
    ultimately show ?thesis using "2.prems" False by auto
  qed
qed simp

lemma heap_ok_top: "heap_ok H s bs \<Longrightarrow> heap_top s bs < 2 ^ 32"
  using unsigned_less [of "kalloc_ptr H"] by (simp add: heap_ok_def)

lemma kalloc_new:
  assumes ok: "heap_ok H s bs" and req: "unat req = n" and room: "unat (kalloc_ptr H) + n + 12 \<le> unat (heap_end H)"
  shows "heap_ok (new_block req (of_nat (last_block 0 s bs)) H) s (bs @ [(n, False)])"
proof -
  let ?t = "heap_top s bs" and ?c = "kalloc_ptr H"
  note top = heap_ok_top [OF ok]
  have ch: "chain (hblocks H) s bs" "0 < s" "?t = unat ?c"
    "heap_head H = (if bs = [] then 0 else of_nat s)" using ok by (auto simp: heap_ok_def)
  have e: "unat (heap_end H) < 2 ^ 32" using unsigned_less [of "heap_end H"] by simp
  have c: "of_nat ?t = ?c" using ch(3) by simp
  have r: "req = of_nat n" using req by auto
  have "unat (req + HB) = n + 12" using unat_plus [of req 12] req room e by (simp add: HB_def)
  then have pt: "unat (?c + (req + HB)) = unat ?c + n + 12"
    using unat_plus [of ?c "req + HB"] room e by simp
  have le: "?c + (req + HB) \<le> heap_end H" using pt room by (simp add: word_le_nat_alt)
  show ?thesis
  proof (cases "bs = []")
    case True
    with ch pt le r show ?thesis
      by (auto simp: heap_ok_def new_block_def upd_block_def Let_def)
  next
    case False
    let ?l = "last_block 0 s bs"
    note R = last_block_range [OF False, of s 0]
    have sz: "(of_nat s :: u32) \<noteq> 0" using of_nat_u32_inj [of s 0] ch(2) top heap_top_le [of s bs] by simp
    have lt: "(of_nat ?l :: u32) \<noteq> ?c" unfolding c [symmetric] using of_nat_u32_inj [of ?l ?t] R top by simp
    have "chain (hblocks (new_block req (of_nat ?l) H)) s (bs @ [(n, False)])"
    proof (rule chain_snoc [OF ch(1) _ False, where p = 0])
      show "?t + 12 + n < 2 ^ 32" using ch(3) room e by simp
      fix a assume "s \<le> a" "a < ?t" "a \<noteq> ?l"
      then have "(of_nat a :: u32) \<noteq> ?c" "(of_nat a :: u32) \<noteq> of_nat ?l"
        unfolding c [symmetric] using of_nat_u32_inj [of a ?t] of_nat_u32_inj [of a ?l] R top by auto
      then show "hblocks (new_block req (of_nat ?l) H) (of_nat a) = hblocks H (of_nat a)"
        using sz False ch(4) by (simp add: new_block_def upd_block_def Let_def)
    qed (use sz False ch(4) c lt r in \<open>simp_all add: new_block_def upd_block_def Let_def\<close>)
    then show ?thesis
      using ok False pt le sz ch by (auto simp: heap_ok_def heap_top_append new_block_def upd_block_def Let_def)
  qed
qed

lemma heap_end_ops: "heap_end (new_block r q H) = heap_end H" "heap_end (upd_block a f H) = heap_end H"
  by (simp_all add: new_block_def upd_block_def Let_def)

lemma kalloc_correct_aux:
  assumes ok: "heap_ok H s bs" and nowrap: "unat (kalloc_ptr H) + unat req + 21 < 2 ^ 32"
  defines "n \<equiv> (unat req + 9) div 8 * 8"
  shows "\<exists>p H'. kalloc req H = Some (p, H') \<and> heap_end H' = heap_end H \<and>
    (if unat (heap_end H) < unat (kalloc_ptr H) + n + 12 then p = 0 \<and> H' = H
     else case fit n s bs of
       Some (a, k, cs) \<Rightarrow> unat p = a + 12 \<and> heap_ok H' s cs
     | None \<Rightarrow> unat p = unat (kalloc_ptr H) + 12 \<and> heap_ok H' s (bs @ [(n, False)]))"
proof -
  let ?n = "ALIGNUP req 8"
  have n: "unat ?n = n" using ALIGNUP_8 [of req] nowrap unfolding n_def by simp
  have nb: "n \<le> unat req + 9" unfolding n_def by simp
  have t: "unat (?n + HB) = n + 12" using unat_plus [of ?n 12] n nb nowrap by (simp add: HB_def)
  have pt: "unat (kalloc_ptr H + (?n + HB)) = unat (kalloc_ptr H) + n + 12"
    using unat_plus [of "kalloc_ptr H" "?n + HB"] t nb nowrap by simp
  have pt12: "unat (kalloc_ptr H + HB) = unat (kalloc_ptr H) + 12"
    using unat_plus [of "kalloc_ptr H" 12] nb nowrap by (simp add: HB_def)
  note top = heap_ok_top [OF ok]
  have ch: "chain (hblocks H) s bs" "0 < s" "heap_top s bs = unat (kalloc_ptr H)"
    "heap_head H = (if bs = [] then 0 else of_nat s)" using ok by (auto simp: heap_ok_def)
  show ?thesis
  proof (cases "unat (heap_end H) < unat (kalloc_ptr H) + n + 12")
    case True
    then show ?thesis using pt by (simp add: kalloc_def Let_def word_less_nat_alt)
  next
    case room: False
    show ?thesis
    proof (cases "fit n s bs")
      case (Some x)
      obtain a k cs where x: "x = (a, k, cs)" by (cases x)
      note F = fit_props [OF Some [unfolded x]]
      obtain q where q: "kalloc_search H ?n 0 (heap_head H) = Some (of_nat a, q)"
        using search_Some [OF ch(1,2) top, of ?n a k cs 0] n Some x ch(4) F by auto
      have ua: "unat (of_nat a :: u32) = a" using unat_of_nat_u32 [of a] F top by simp
      then have "unat (of_nat a + HB) = a + 12" using unat_plus [of "of_nat a :: u32" 12] F top by (simp add: HB_def)
      moreover have "(of_nat a :: u32) \<noteq> 0" using ua F ch(2) by auto
      moreover have "heap_ok (upd_block (of_nat a) (\<lambda>b. b\<lparr>is_freed := False\<rparr>) H) s cs"
        using fit_chain [OF Some [unfolded x] ch(1) top] ok F ch(2)
        by (auto simp: heap_ok_def upd_block_def simp del: fun_upd_apply)
      ultimately show ?thesis using room pt q Some x
        by (auto simp: kalloc_def Let_def word_less_nat_alt heap_end_ops)
    next
      case None
      then show ?thesis
        using room pt pt12 kalloc_new [OF ok n] nb nowrap search_None [OF ch(1,2) top, of ?n 0] n ch(4)
        by (auto simp: kalloc_def Let_def word_less_nat_alt heap_end_ops)
    qed
  qed
qed

lemma used_kbfree:
  "(a, n) \<in> used s bs \<Longrightarrow> chain m s bs \<Longrightarrow> heap_top s bs < 2 ^ 32 \<Longrightarrow>
   \<exists>cs. used s cs = used s bs - {(a, n)} \<and> heap_top s cs = heap_top s bs \<and> cs \<noteq> [] \<and>
     chain (m(of_nat (a - 12) := (m (of_nat (a - 12)))\<lparr>is_freed := True\<rparr>)) s cs \<and>
     (hb_next (m (of_nat (a - 12))) = 0 \<longleftrightarrow> a + n = heap_top s bs)"
proof (induction s bs rule: used.induct)
  case (2 s k f bs)
  let ?m = "m(of_nat (a - 12) := (m (of_nat (a - 12)))\<lparr>is_freed := True\<rparr>)"
  have top: "s + 12 + k \<le> heap_top (s + 12 + k) bs" by (rule heap_top_le)
  show ?case
  proof (cases "\<not> f \<and> a = s + 12 \<and> n = k")
    case True
    have neq: "(of_nat b :: u32) \<noteq> of_nat s" if "s + 12 + k \<le> b" "b < heap_top (s + 12 + k) bs" for b
      using of_nat_u32_inj [of b s] that "2.prems" top by auto
    have fr: "?m (of_nat b) = m (of_nat b)" if "s + 12 + k \<le> b" "b < heap_top (s + 12 + k) bs" for b
      using neq [OF that] True by simp
    have "chain m (s + 12 + k) bs" "heap_top (s + 12 + k) bs \<le> 2 ^ 32" using "2.prems" by auto
    from chain_frame [OF this fr] have "chain ?m (s + 12 + k) bs" .
    moreover have "(s + 12, k) \<notin> used (s + 12 + k) bs" using used_range by fastforce
    moreover have "bs = [] \<longleftrightarrow> heap_top (s + 12 + k) bs = s + 12 + k"
      using heap_top_self [of "s + 12 + k" bs] by simp
    moreover have "(of_nat (s + 12 + k) :: u32) \<noteq> 0"
      using of_nat_u32_inj [of "s + 12 + k" 0] top "2.prems" by simp
    ultimately show ?thesis
      using True "2.prems" by (intro exI [of _ "(k, True) # bs"]) (auto simp: fun_upd_def)
  next
    case False
    then have u: "(a, n) \<in> used (s + 12 + k) bs" using "2.prems"(1) by (auto split: if_splits)
    note R = used_range [OF u]
    have bs: "bs \<noteq> []" using u by auto
    have c: "chain m (s + 12 + k) bs" "heap_top (s + 12 + k) bs < 2 ^ 32" using "2.prems" by auto
    obtain cs where cs: "used (s + 12 + k) cs = used (s + 12 + k) bs - {(a, n)}"
      "heap_top (s + 12 + k) cs = heap_top (s + 12 + k) bs" "cs \<noteq> []" "chain ?m (s + 12 + k) cs"
      "hb_next (m (of_nat (a - 12))) = 0 \<longleftrightarrow> a + n = heap_top (s + 12 + k) bs"
      using "2.IH" [OF u c] by blast
    have "(of_nat s :: u32) \<noteq> of_nat (a - 12)"
      using of_nat_u32_inj [of s "a - 12"] R "2.prems" by auto
    moreover have "(a, n) \<noteq> (s + 12, k)" using R by auto
    ultimately show ?thesis
      using "2.prems" cs bs by (intro exI [of _ "(k, f) # cs"]) (auto simp: fun_upd_def)
  qed
qed simp

text \<open>Concrete heaps at which the properties are evaluated.\<close>

definition fresh_heap :: kheap where
  "fresh_heap = \<lparr>hblocks = \<lambda>_. \<lparr>hb_size = 0, is_freed = False, hb_next = 0\<rparr>, heap_head = 0,
     kalloc_ptr = 0x1000, heap_end = 0x2000\<rparr>"

lemma fresh_heap_ok: "heap_ok fresh_heap 0x1000 []"
  by (simp add: heap_ok_def fresh_heap_def)

definition two_blocks :: kheap where
  "two_blocks = \<lparr>hblocks = (\<lambda>_. \<lparr>hb_size = 0, is_freed = False, hb_next = 0\<rparr>)
       (0x1000 := \<lparr>hb_size = 8, is_freed = False, hb_next = 0x1014\<rparr>,
        0x1014 := \<lparr>hb_size = 16, is_freed = False, hb_next = 0\<rparr>),
     heap_head = 0x1000, kalloc_ptr = 0x1030, heap_end = 0x2000\<rparr>"

lemma two_blocks_ok: "heap_ok two_blocks 0x1000 [(8, False), (16, False)]"
  by (simp add: heap_ok_def two_blocks_def)

lemma search_self_loop:
  "kalloc_search H req prev cur = Some y \<Longrightarrow>
    cur \<noteq> 0 \<and> hb_next (hblocks H cur) = cur \<longrightarrow> is_freed (hblocks H cur)"
proof (erule kalloc_search.raw_induct [rotated, where P = "\<lambda>H req prev cur y.
    cur \<noteq> 0 \<and> hb_next (hblocks H cur) = cur \<longrightarrow> is_freed (hblocks H cur)"])
  fix search H req prev cur y
  assume IH: "\<And>H req prev cur y. search H req prev cur = Some y \<Longrightarrow>
      cur \<noteq> 0 \<and> hb_next (hblocks H cur) = cur \<longrightarrow> is_freed (hblocks H cur)"
    and "(if cur = 0 then Some (0, prev)
      else if is_freed (hblocks H cur) \<and> req \<le> hb_size (hblocks H cur) then Some (cur, prev)
      else search H req cur (hb_next (hblocks H cur))) = Some y"
  then show "cur \<noteq> 0 \<and> hb_next (hblocks H cur) = cur \<longrightarrow> is_freed (hblocks H cur)"
    using IH [of H req cur cur y] by (cases y) (auto split: if_splits)
qed

lemma kalloc_ok:
  assumes "heap_ok H s bs" and "unat (kalloc_ptr H) + unat req + 21 < 2 ^ 32"
  shows "\<exists>p H' bs'. kalloc req H = Some (p, H') \<and> heap_ok H' s bs' \<and> heap_end H' = heap_end H \<and>
    (if p = 0 then unat (heap_end H) < unat (kalloc_ptr H) + unat req + 21 \<and> bs' = bs
     else \<exists>n \<ge> unat req. used s bs' = insert (unat p, n) (used s bs) \<and>
       unat p + n \<le> unat (heap_end H) \<and>
       (\<forall>(b, k) \<in> used s bs. {unat p..<unat p + n} \<inter> {b..<b + k} = {}))"
proof -
  define n where "n = (unat req + 9) div 8 * 8"
  have n: "unat req \<le> n" "n \<le> unat req + 9" by (simp_all add: n_def)
  have top: "heap_top s bs = unat (kalloc_ptr H)" using assms(1) by (simp add: heap_ok_def)
  obtain p H' where run: "kalloc req H = Some (p, H')" "heap_end H' = heap_end H"
    and res: "if unat (heap_end H) < unat (kalloc_ptr H) + n + 12 then p = 0 \<and> H' = H
     else case fit n s bs of
       Some (a, k, cs) \<Rightarrow> unat p = a + 12 \<and> heap_ok H' s cs
     | None \<Rightarrow> unat p = unat (kalloc_ptr H) + 12 \<and> heap_ok H' s (bs @ [(n, False)])"
    using kalloc_correct_aux [OF assms] unfolding n_def by blast
  consider (full) "unat (heap_end H) < unat (kalloc_ptr H) + n + 12" "p = 0" "H' = H"
    | (reuse) a k cs where "fit n s bs = Some (a, k, cs)" "unat p = a + 12" "heap_ok H' s cs"
    | (new) "\<not> unat (heap_end H) < unat (kalloc_ptr H) + n + 12" "unat p = unat (kalloc_ptr H) + 12"
        "heap_ok H' s (bs @ [(n, False)])"
    using res by (auto split: if_splits option.splits)
  then show ?thesis
  proof cases
    case full
    then show ?thesis using run assms(1) n by auto
  next
    case reuse
    note F = fit_props [OF reuse(1)]
    have "unat p + k \<le> unat (heap_end H)"
      using F reuse(2) top assms(1) by (auto simp: heap_ok_def word_le_nat_alt)
    moreover have "{unat p..<unat p + k} \<inter> {b..<b + l} = {}" if "(b, l) \<in> used s bs" for b l
      using F reuse(2) that by fastforce
    moreover have "p \<noteq> 0" using reuse(2) by auto
    ultimately show ?thesis using run reuse F n(1)
      by (intro exI [of _ p] exI [of _ H'] exI [of _ cs]) (auto intro!: exI [of _ k])
  next
    case new
    have disj: "\<forall>(b, l) \<in> used s bs. {unat p..<unat p + n} \<inter> {b..<b + l} = {}"
      using used_range [of _ _ s bs] new(2) top by fastforce
    have "used s (bs @ [(n, False)]) = insert (unat p, n) (used s bs)"
      using new(2) top by (simp add: used_append)
    moreover have "p \<noteq> 0" "unat p + n \<le> unat (heap_end H)" using new(1,2) by auto
    ultimately show ?thesis using run new(3) n(1) disj by (auto simp del: Int_atLeastLessThan)
  qed
qed

lemma kbfree_ok:
  assumes "heap_ok H s bs" and "(unat p, n) \<in> used s bs" and "unat p + n \<noteq> unat (kalloc_ptr H)"
  shows "\<exists>bs'. heap_ok (kbfree p H) s bs' \<and> used s bs' = used s bs - {(unat p, n)} \<and>
    kalloc_ptr (kbfree p H) = kalloc_ptr H \<and> heap_end (kbfree p H) = heap_end H"
proof -
  note top = heap_ok_top [OF assms(1)] and R = used_range [OF assms(2)]
  have ch: "chain (hblocks H) s bs" "0 < s" "heap_top s bs = unat (kalloc_ptr H)"
    "heap_head H = (if bs = [] then 0 else of_nat s)" using assms(1) by (auto simp: heap_ok_def)
  obtain cs where cs: "used s cs = used s bs - {(unat p, n)}" "heap_top s cs = heap_top s bs" "cs \<noteq> []"
    "chain ((hblocks H)(of_nat (unat p - 12) := (hblocks H (of_nat (unat p - 12)))\<lparr>is_freed := True\<rparr>)) s cs"
    "hb_next (hblocks H (of_nat (unat p - 12))) \<noteq> 0"
    using used_kbfree [OF assms(2) ch(1) top] assms(3) ch(3) by auto
  have p: "of_nat (unat p - 12) = p - HB" using R by (simp add: HB_def of_nat_diff)
  have "p \<noteq> 0" using R by auto
  moreover have "bs \<noteq> []" using assms(2) by auto
  ultimately have "heap_ok (kbfree p H) s cs \<and> kalloc_ptr (kbfree p H) = kalloc_ptr H \<and>
      heap_end (kbfree p H) = heap_end H"
    using assms(1) cs ch unfolding p
    by (auto simp: kbfree_def heap_ok_def upd_block_def Let_def fun_upd_same simp del: fun_upd_apply)
  with cs(1) show ?thesis by blast
qed

section \<open>Properties\<close>



text \<open>
  C9: \<^verbatim>\<open>kbfree\<close> of a block in use that is not the last one of the heap releases exactly that block.
\<close>

theorem kbfree_correct:
  assumes "heap_ok H s bs" and "(unat p, n) \<in> used s bs" and "unat p + n \<noteq> unat (kalloc_ptr H)"
  shows "\<exists>bs'. heap_ok (kbfree p H) s bs' \<and> used s bs' = used s bs - {(unat p, n)}"
  using kbfree_ok [OF assms] by blast

theorem kbfree_correct_witness:
  "\<exists>bs'. heap_ok (kbfree 0x100C two_blocks) 0x1000 bs' \<and> used 0x1000 bs' = {(0x1020, 16)}"
  using kbfree_correct [OF two_blocks_ok, where p = "0x100C" and n = 8]
  by (simp add: two_blocks_def insert_Diff_if)


end
