(* ===== verification/Boot_Memory.thy ===== *)
theory Boot_Memory
  imports Zone Heap_Alloc
begin

text \<open>
  Memory detection and the page descriptors at start-up (\<^verbatim>\<open>memory-management/manager.c\<close> and the
  first part of \<^verbatim>\<open>memory-management/mm.c\<close>): reading the multiboot memory map, the boot heap and its self
  test, the table of page descriptors \<^verbatim>\<open>mem_map\<close>, the early page allocator \<^verbatim>\<open>get_free_page\<close> and the
  creation of the zone.

  The memory the boot loader leaves the map in is a function from addresses to entries, and the end
  of the kernel image a parameter (a linker symbol).  Message output is dropped.  \<^verbatim>\<open>mem_map\<close> is a list
  of descriptors together with its address; an index outside it is \<open>None\<close>.
\<close>

section \<open>The memory map of the boot loader\<close>

definition MAX_MEMORY_BLOCKS :: nat where "MAX_MEMORY_BLOCKS = 10"
definition HEAP_SIZE :: u32 where "HEAP_SIZE = 256 * 4096"

record memory_block =
  mb_start :: u64
  mb_end :: u64

record multiboot_info =
  mb_flags :: u32
  mem_lower :: u32
  mem_upper :: u32
  mmap_length :: u32
  mmap_addr :: u32

record mmap_entry =
  me_size :: u32
  me_addr :: u64
  me_len :: u64
  me_type :: u32

record phy_layout =
  highest_usable_pfn :: u32
  totalram_pages :: u32
  max_pfn :: u32
  max_low_pfn :: u32
  highstart_pfn :: u32
  highend_pfn :: u32
  totalhigh_pages :: u32

definition CHECK_FLAG :: "u32 \<Rightarrow> nat \<Rightarrow> bool" where
  "CHECK_FLAG w k \<longleftrightarrow> (w AND push_bit k 1) \<noteq> 0"

definition clip_entry :: "u32 \<Rightarrow> mmap_entry \<Rightarrow> memory_block" where
  "clip_entry kernel_end entry =
     (let entry_start = (ucast (me_addr entry) :: u32);
          entry_end = (ucast (ucast entry_start + me_len entry) :: u32)
      in if entry_start \<le> kernel_end \<and> entry_end > kernel_end
         then \<lparr>mb_start = ucast kernel_end, mb_end = ucast entry_end\<rparr>
         else if entry_start > kernel_end
         then \<lparr>mb_start = ucast entry_start, mb_end = ucast entry_end\<rparr>
         else \<lparr>mb_start = ucast entry_start, mb_end = ucast entry_end\<rparr>)"

partial_function (option) scan_mmap ::
    "(u32 \<Rightarrow> mmap_entry) \<Rightarrow> u32 \<Rightarrow> u32 \<Rightarrow> u32 \<Rightarrow> nat \<Rightarrow> memory_block list \<Rightarrow> (nat \<times> memory_block list) option" where
  "scan_mmap mem kernel_end mmap mmap_end num_blocks blocks =
     (if mmap < mmap_end then
        let entry = mem mmap;
            take_it = (me_type entry = 1 \<and> num_blocks < MAX_MEMORY_BLOCKS);
            blocks = (if take_it then blocks[num_blocks := clip_entry kernel_end entry] else blocks);
            num_blocks = (if take_it then Suc num_blocks else num_blocks)
        in scan_mmap mem kernel_end (mmap + (me_size entry + 4)) mmap_end num_blocks blocks
      else Some (num_blocks, blocks))"

definition machine_specific_memory_setup :: "multiboot_info \<Rightarrow> phy_layout" where
  "machine_specific_memory_setup mbi =
     (let total_ram_bytes = mem_upper mbi * 1024 + (1024 * 1024);
          total_ram_pfn = total_ram_bytes div 4096;
          lowmem_limit_pfn = (mem_lower mbi * 1024) div 4096;
          highest = (mem_upper mbi * 1024) div 4096;
          low = (if total_ram_pfn < lowmem_limit_pfn then total_ram_pfn else lowmem_limit_pfn)
      in \<lparr>highest_usable_pfn = highest, totalram_pages = total_ram_pfn, max_pfn = highest,
          max_low_pfn = low, highstart_pfn = low, highend_pfn = highest, totalhigh_pages = highest - low\<rparr>)"

definition find_available_memory ::
    "(u32 \<Rightarrow> mmap_entry) \<Rightarrow> u32 \<Rightarrow> multiboot_info \<Rightarrow> memory_block list \<Rightarrow> phy_layout \<Rightarrow>
     (nat \<times> memory_block list \<times> phy_layout) option" where
  "find_available_memory mem kernel_end mbi blocks layout =
     (if \<not> CHECK_FLAG (mb_flags mbi) 6 then Some (0, blocks, layout)
      else do {
        (num_blocks, blocks) \<leftarrow>
          scan_mmap mem kernel_end (mmap_addr mbi) (mmap_addr mbi + mmap_length mbi) 0 blocks;
        Some (num_blocks, blocks, machine_specific_memory_setup mbi)
      })"

definition init_heap :: "memory_block list \<Rightarrow> (u32 \<Rightarrow> heap_block) \<Rightarrow> kheap" where
  "init_heap blocks hb =
     (let heap_start = ALIGNUP (ucast (mb_start (blocks ! 0))) 4096
      in \<lparr>hblocks = hb, heap_head = 0, kalloc_ptr = heap_start, heap_end = heap_start + HEAP_SIZE\<rparr>)"

section \<open>The self test of the heap\<close>

type_synonym int_mem = "u32 \<Rightarrow> u32"

primrec write_ints :: "u32 \<Rightarrow> (nat \<Rightarrow> u32) \<Rightarrow> nat \<Rightarrow> int_mem \<Rightarrow> int_mem" where
  "write_ints p f 0 m = m"
| "write_ints p f (Suc i) m = (write_ints p f i m)(p + 4 * of_nat i := f i)"

definition check_ints :: "u32 \<Rightarrow> (nat \<Rightarrow> u32) \<Rightarrow> nat \<Rightarrow> int_mem \<Rightarrow> bool" where
  "check_ints p f n m \<longleftrightarrow> list_all (\<lambda>i. m (p + 4 * of_nat i) = f i) [0..<n]"

definition test_allocator :: "kheap \<Rightarrow> int_mem \<Rightarrow> (int \<times> kheap \<times> int_mem) option" where
  "test_allocator H m = do {
     (arr1, H) \<leftarrow> kalloc 40 H;
     if arr1 = 0 then Some (-1, H, m)
     else do {
       let m = write_ints arr1 (\<lambda>i. of_nat (i * 2)) 10 m;
       if \<not> check_ints arr1 (\<lambda>i. of_nat (i * 2)) 10 m then Some (-1, H, m)
       else do {
         (arr2, H) \<leftarrow> kalloc 20 H;
         if arr2 = 0 then Some (-1, H, m)
         else do {
           let m = write_ints arr2 (\<lambda>i. of_nat (i + 100)) 5 m;
           let H = kbfree arr1 H;
           (arr3, H) \<leftarrow> kalloc 32 H;
           if arr3 = 0 then Some (-1, H, m)
           else do {
             let m = write_ints arr3 (\<lambda>i. of_nat (i + 200)) 8 m;
             if \<not> check_ints arr2 (\<lambda>i. of_nat (i + 100)) 5 m then Some (-1, H, m)
             else Some (0, H, m)
           }
         }
       }
     }
   }"

definition initialize_memory_manager ::
    "(u32 \<Rightarrow> mmap_entry) \<Rightarrow> u32 \<Rightarrow> multiboot_info \<Rightarrow> memory_block list \<Rightarrow> phy_layout \<Rightarrow>
     (u32 \<Rightarrow> heap_block) \<Rightarrow> int_mem \<Rightarrow>
     (int \<times> memory_block list \<times> phy_layout \<times> kheap option) option" where
  "initialize_memory_manager mem kernel_end mbi blocks layout hb m = do {
     (num_blocks, blocks, layout) \<leftarrow> find_available_memory mem kernel_end mbi blocks layout;
     if num_blocks = 0 then Some (-1, blocks, layout, None)
     else do {
       (r, H, m) \<leftarrow> test_allocator (init_heap blocks hb) m;
       Some (r, blocks, layout, Some H)
     }
   }"

section \<open>Page descriptors\<close>

record boot_mem =
  mem_map :: "page list"
  mem_map_addr :: u32
  layout :: phy_layout
  heap :: kheap

definition sizeof_page :: u32 where "sizeof_page = 36"

definition zero_page :: page where
  "zero_page = \<lparr>page_zone = NULL_ZONE, page_no = 0, flags = 0, ref_cnt = 0, map_count = 0,
     page_private = 0, first_page = None\<rparr>"

definition init_descriptors :: "nat \<Rightarrow> page list" where
  "init_descriptors n = map (\<lambda>i. zero_page\<lparr>flags := 0 OR (PG_FLAG_TAKEN OR PG_FLAG_RESERVED), page_no := of_nat i\<rparr>) [0..<n]"

definition first_page_of :: "u32 \<Rightarrow> u32" where
  "first_page_of start =
     (let phy_start = (if start mod 4096 \<noteq> 0 then (start - start mod 4096) + 4096 else start)
      in phy_start div 4096)"

definition last_page_of :: "u32 \<Rightarrow> u32" where
  "last_page_of en =
     (let phy_end = (if en mod 4096 \<noteq> 0 then (en - en mod 4096) + 4096 - 1 else en)
      in (phy_end - 1) div 4096)"

definition release_descriptor :: "page \<Rightarrow> page" where
  "release_descriptor p = p\<lparr>flags := flags p AND push_bit 6 (NOT 1) AND push_bit 7 (NOT 1)\<rparr>"

partial_function (option) release_range :: "u32 \<Rightarrow> u32 \<Rightarrow> page list \<Rightarrow> (u32 \<times> page list) option" where
  "release_range iCnt page_end ps =
     (if iCnt \<le> page_end then
        if unat iCnt < length ps
        then release_range (iCnt + 1) page_end (ps[unat iCnt := release_descriptor (ps ! unat iCnt)])
        else None
      else Some (iCnt, ps))"

partial_function (option) release_blocks :: "memory_block list \<Rightarrow> u32 \<Rightarrow> page list \<Rightarrow> page list option" where
  "release_blocks blocks iCnt ps =
     (if unat iCnt < MAX_MEMORY_BLOCKS then
        let b = blocks ! unat iCnt in
        if mb_start b = 0 \<or> mb_end b = 0 then release_blocks blocks (iCnt + 1) ps
        else do {
          (iCnt, ps) \<leftarrow> release_range (first_page_of (ucast (mb_start b))) (last_page_of (ucast (mb_end b))) ps;
          release_blocks blocks (iCnt + 1) ps
        }
      else Some ps)"

definition create_mem_map :: "memory_block list \<Rightarrow> boot_mem \<Rightarrow> (bool \<times> boot_mem) option" where
  "create_mem_map blocks B = do {
     (p, H) \<leftarrow> kalloc (totalram_pages (layout B) * sizeof_page) (heap B);
     if p = 0 then Some (False, B\<lparr>heap := H\<rparr>)
     else do {
       ps \<leftarrow> release_blocks blocks 0 (init_descriptors (unat (totalram_pages (layout B))));
       Some (True, B\<lparr>heap := H, mem_map_addr := p, mem_map := ps\<rparr>)
     }
   }"

function get_free_from :: "nat \<Rightarrow> boot_mem \<Rightarrow> (u32 \<times> boot_mem) option" where
  "get_free_from iCnt B =
     (if iCnt < unat (totalram_pages (layout B)) then
        if iCnt < length (mem_map B) then
          if (flags (mem_map B ! iCnt) AND PG_FLAG_TAKEN) = 0
          then Some (of_nat iCnt * 4096,
                     B\<lparr>mem_map := (mem_map B)[iCnt := (mem_map B ! iCnt)\<lparr>flags := flags (mem_map B ! iCnt) OR PG_FLAG_TAKEN\<rparr>]\<rparr>)
          else get_free_from (Suc iCnt) B
        else None
      else Some (0, B))"
  by auto
termination by (relation "measure (\<lambda>(c, B). unat (totalram_pages (layout B)) - c)") auto

declare get_free_from.simps [simp del]

definition get_free_page :: "boot_mem \<Rightarrow> (u32 \<times> boot_mem) option" where
  "get_free_page B = get_free_from 0 B"

definition release_page :: "u32 \<Rightarrow> boot_mem \<Rightarrow> boot_mem option" where
  "release_page phy_addr B =
     (let i = unat (phy_addr div 4096) in
      if i < length (mem_map B)
      then Some (B\<lparr>mem_map := (mem_map B)[i := (mem_map B ! i)\<lparr>flags := CLEAR_FLAG (flags (mem_map B ! i)) PG_FLAG_TAKEN\<rparr>]\<rparr>)
      else None)"

primrec take_pages :: "nat \<Rightarrow> boot_mem \<Rightarrow> (u32 list \<times> boot_mem) option" where
  "take_pages 0 B = Some ([], B)"
| "take_pages (Suc n) B = do {
     (as, B) \<leftarrow> take_pages n B;
     (a, B) \<leftarrow> get_free_page B;
     Some (as @ [a], B)
   }"

primrec clear_low :: "nat \<Rightarrow> page list \<Rightarrow> page list option" where
  "clear_low 0 ps = Some ps"
| "clear_low (Suc i) ps = do {
     ps \<leftarrow> clear_low i ps;
     if i < length ps
     then Some (ps[i := (ps ! i)\<lparr>flags := CLEAR_FLAG (CLEAR_FLAG (flags (ps ! i)) PG_FLAG_TAKEN) PG_FLAG_RESERVED\<rparr>])
     else None
   }"

definition copy_mem_map :: "boot_mem \<Rightarrow> boot_mem option" where
  "copy_mem_map B = do {
     let page_req = (sizeof_page * totalram_pages (layout B)) div 4096 + 1;
     (as, B) \<leftarrow> take_pages (unat page_req) B;
     let phy_start = (if as = [] then 0 else hd as);
     let B = B\<lparr>heap := kbfree (mem_map_addr B) (heap B), mem_map_addr := phy_start\<rparr>;
     ps \<leftarrow> clear_low (unat (max_low_pfn (layout B))) (mem_map B);
     Some (B\<lparr>mem_map := ps\<rparr>)
   }"

definition create_zone :: "phy_layout \<Rightarrow> page list \<Rightarrow> zone \<Rightarrow> zone" where
  "create_zone lay ps z = z\<lparr>present_pages := unat (totalram_pages lay),
     free_pages := free_pages z + totalram_pages lay, zone_mem_map := ps,
     pages_min := 10, pages_low := 10, zone_start_pfn := 0,
     lists := fold (\<lambda>k. INIT_LIST_HEAD (FL k)) [0..<BUDDY_GROUPS] (lists z)\<rparr>"

section \<open>Lemmas\<close>

fun mmap_at :: "(u32 \<Rightarrow> mmap_entry) \<Rightarrow> u32 \<Rightarrow> mmap_entry list \<Rightarrow> u32 \<Rightarrow> bool" where
  "mmap_at mem a [] e \<longleftrightarrow> a = e"
| "mmap_at mem a (x # xs) e \<longleftrightarrow> mem a = x \<and> a < e \<and> mmap_at mem (a + (me_size x + 4)) xs e"

definition usable :: "u32 \<Rightarrow> mmap_entry list \<Rightarrow> memory_block list" where
  "usable kernel_end es = map (clip_entry kernel_end) (filter (\<lambda>e. me_type e = 1) es)"

lemma scan_mmap_ok:
  assumes "mmap_at mem a es e" and "length bl = MAX_MEMORY_BLOCKS" and "k \<le> MAX_MEMORY_BLOCKS"
  shows "scan_mmap mem ke a e k bl =
    (let sel = take (MAX_MEMORY_BLOCKS - k) (usable ke es)
     in Some (k + length sel, take k bl @ sel @ drop (k + length sel) bl))"
  using assms
proof (induction es arbitrary: a k bl)
  case Nil
  then show ?case by (subst scan_mmap.simps) (simp add: usable_def)
next
  case (Cons x es)
  let ?a = "a + (me_size x + 4)"
  have IH: "scan_mmap mem ke ?a e k' bl' =
      (let sel = take (MAX_MEMORY_BLOCKS - k') (usable ke es)
       in Some (k' + length sel, take k' bl' @ sel @ drop (k' + length sel) bl'))"
    if "length bl' = MAX_MEMORY_BLOCKS" "k' \<le> MAX_MEMORY_BLOCKS" for k' bl'
    using Cons.IH [of ?a bl' k'] Cons.prems that by simp
  show ?case
  proof (cases "me_type x = 1 \<and> k < MAX_MEMORY_BLOCKS")
    case True
    have step: "scan_mmap mem ke a e k bl = scan_mmap mem ke ?a e (Suc k) (bl[k := clip_entry ke x])"
      using Cons.prems True by (subst scan_mmap.simps) (simp add: Let_def)
    have "take (Suc k) (bl[k := clip_entry ke x]) = take k bl @ [clip_entry ke x]"
      using True Cons.prems by (simp add: take_Suc_conv_app_nth)
    moreover have "take (MAX_MEMORY_BLOCKS - k) (usable ke (x # es)) =
        clip_entry ke x # take (MAX_MEMORY_BLOCKS - Suc k) (usable ke es)"
      using True by (simp add: usable_def take_Cons' Suc_diff_Suc)
    ultimately show ?thesis
      unfolding step using IH [of "bl[k := clip_entry ke x]" "Suc k"] True Cons.prems by (simp add: Let_def)
  next
    case False
    have step: "scan_mmap mem ke a e k bl = scan_mmap mem ke ?a e k bl"
      using Cons.prems False by (subst scan_mmap.simps) (auto simp: Let_def)
    have "take (MAX_MEMORY_BLOCKS - k) (usable ke (x # es)) = take (MAX_MEMORY_BLOCKS - k) (usable ke es)"
      using False Cons.prems by (auto simp: usable_def)
    then show ?thesis unfolding step using IH [of bl k] Cons.prems by simp
  qed
qed

lemma unat_div_4096: "unat (w div 4096 :: u32) = unat w div 4096"
  by (simp add: unat_div_distrib)

lemma unat_mod_4096: "unat (w mod 4096 :: u32) = unat w mod 4096"
  by (simp add: unat_mod_distrib)

lemma page_floor: "unat (w - w mod 4096 :: u32) = unat w - unat w mod 4096"
proof -
  have "w mod 4096 \<le> w" by (simp add: word_le_nat_alt unat_mod_4096)
  then show ?thesis by (simp add: unat_sub unat_mod_4096)
qed

lemma page_next:
  assumes "unat w + 4096 \<le> 2 ^ 32" and "unat w mod 4096 \<noteq> 0"
  shows "unat (w - w mod 4096 + 4096 :: u32) = unat w - unat w mod 4096 + 4096"
  using unat_plus [of "w - w mod 4096" 4096] page_floor [of w] assms by simp

lemma mod_4096_eq_0: "w mod 4096 = 0 \<longleftrightarrow> unat (w :: u32) mod 4096 = 0"
  by (metis unat_eq_zero unat_mod_4096)

lemma page_split:
  obtains q r where "(n::nat) = 4096 * q + r" and "r < 4096"
  by (rule that [of "n div 4096" "n mod 4096"]) simp_all

lemma first_page_of_ok:
  assumes "unat w + 4096 \<le> 2 ^ 32"
  shows "unat (first_page_of w) = (unat w + 4095) div 4096"
proof -
  obtain q r where w: "unat w = 4096 * q + r" and r: "r < 4096" by (rule page_split)
  have up: "(unat w + 4095) div 4096 = (if r = 0 then q else q + 1)"
    unfolding w using r by (intro div_nat_eqI) (auto split: if_splits)
  show ?thesis
  proof (cases "r = 0")
    case True
    with w up show ?thesis by (simp add: first_page_of_def mod_4096_eq_0 unat_div_4096)
  next
    case False
    then have "unat w mod 4096 \<noteq> 0" using w r by simp
    from page_next [OF assms this] False w r up show ?thesis
      by (simp add: first_page_of_def mod_4096_eq_0 unat_div_4096)
  qed
qed

lemma last_page_of_ok:
  assumes "0 < unat w" and "unat w + 4096 \<le> 2 ^ 32"
  shows "unat (last_page_of w) = (if unat w mod 4096 = 0 then unat w div 4096 - 1 else unat w div 4096)"
proof -
  obtain q r where w: "unat w = 4096 * q + r" and r: "r < 4096" by (rule page_split)
  show ?thesis
  proof (cases "r = 0")
    case True
    have "unat (w - 1) = unat w - 1" using assms(1) by (simp add: unat_sub word_le_nat_alt)
    moreover have "(unat w - 1) div 4096 = q - 1"
      using w True assms(1) by (intro div_nat_eqI) (cases q; auto)+
    ultimately show ?thesis using True w by (simp add: last_page_of_def mod_4096_eq_0 unat_div_4096)
  next
    case False
    then have m: "unat w mod 4096 \<noteq> 0" using w r by simp
    define e where "e = w - w mod 4096 + 4096"
    have e: "unat e = 4096 * q + 4096" using page_next [OF assms(2) m] w r by (simp add: e_def)
    have "last_page_of w = (e - 2) div 4096"
      using m by (simp add: last_page_of_def mod_4096_eq_0 e_def Let_def)
    moreover have "unat (e - 2) = 4096 * q + 4094" using e by (simp add: unat_sub word_le_nat_alt)
    moreover have "(4096 * q + 4094) div 4096 = q" by (intro div_nat_eqI) auto
    ultimately show ?thesis using m w r by (simp add: unat_div_4096)
  qed
qed

lemma get_free_from_ok:
  assumes "length (mem_map B) = unat (totalram_pages (layout B))" 
  shows "get_free_from i B =
    (case find (\<lambda>k. \<not> bit (flags (mem_map B ! k)) 6) [i..<length (mem_map B)] of
      None \<Rightarrow> Some (0, B)
    | Some k \<Rightarrow> Some (of_nat k * 4096, B\<lparr>mem_map := (mem_map B)[k := (mem_map B ! k)\<lparr>flags := flags (mem_map B ! k) OR PG_FLAG_TAKEN\<rparr>]\<rparr>))"
  using assms
proof (induction i B rule: get_free_from.induct)
  case (1 i B)
  note flag = single_flag_zero [of PG_FLAG_TAKEN 6, OF bit_flag_masks(2)]
  show ?case
  proof (cases "i < length (mem_map B)")
    case True
    then show ?thesis using 1 flag
      by (simp add: get_free_from.simps [of i B] upt_conv_Cons)
  next
    case False
    then show ?thesis using 1 by (simp add: get_free_from.simps [of i B])
  qed
qed

definition untaken :: "boot_mem \<Rightarrow> nat list" where
  "untaken B = filter (\<lambda>k. \<not> bit (flags (mem_map B ! k)) 6) [0..<length (mem_map B)]"

definition mark_taken :: "nat \<Rightarrow> boot_mem \<Rightarrow> boot_mem" where
  "mark_taken k B = B\<lparr>mem_map := (mem_map B)[k := (mem_map B ! k)\<lparr>flags := flags (mem_map B ! k) OR PG_FLAG_TAKEN\<rparr>]\<rparr>"

definition map_sized :: "boot_mem \<Rightarrow> bool" where
  "map_sized B \<longleftrightarrow> length (mem_map B) = unat (totalram_pages (layout B)) \<and> length (mem_map B) \<le> 2 ^ 20"

lemma find_filter: "find P xs = (case filter P xs of [] \<Rightarrow> None | x # _ \<Rightarrow> Some x)"
  by (induction xs) auto

lemma get_free_page_ok:
  assumes "map_sized B"
  shows "get_free_page B = (case untaken B of [] \<Rightarrow> Some (0, B) | k # _ \<Rightarrow> Some (of_nat k * 4096, mark_taken k B))"
  using get_free_from_ok [of B 0] assms
  by (auto simp: get_free_page_def map_sized_def untaken_def find_filter mark_taken_def split: list.splits)

lemma filter_head_removed:
  assumes "distinct xs" and "filter P xs = k # ks" and "\<And>x. x \<in> set xs \<Longrightarrow> Q x \<longleftrightarrow> P x \<and> x \<noteq> k"
  shows "filter Q xs = ks"
proof -
  have "filter Q xs = filter (\<lambda>x. x \<noteq> k) (filter P xs)"
    using assms(3) by (auto intro: filter_cong)
  moreover have "distinct (k # ks)" using assms(1,2) by (metis distinct_filter)
  ultimately show ?thesis using assms(2) by (auto simp: filter_id_conv)
qed

lemma untaken_mark:
  assumes "untaken B = k # ks"
  shows "untaken (mark_taken k B) = ks"
proof -
  have "k \<in> set (untaken B)" using assms by simp
  then have k: "k < length (mem_map B)" by (simp add: untaken_def)
  show ?thesis
    unfolding untaken_def mark_taken_def
    by (rule filter_head_removed [where k = k and P = "\<lambda>k. \<not> bit (flags (mem_map B ! k)) 6"])
      (use assms k in \<open>auto simp: untaken_def nth_list_update bit_or_iff bit_flag_masks\<close>)
qed

lemma mark_taken_simps [simp]: "layout (mark_taken k B) = layout B" "heap (mark_taken k B) = heap B"
  "mem_map_addr (mark_taken k B) = mem_map_addr B" "length (mem_map (mark_taken k B)) = length (mem_map B)"
  "map_sized (mark_taken k B) = map_sized B"
  by (simp_all add: mark_taken_def map_sized_def)

lemma release_mark:
  assumes "map_sized B" and "k < length (mem_map B)" and "\<not> bit (flags (mem_map B ! k)) 6"
  shows "release_page (of_nat k * 4096) (mark_taken k B) = Some B"
proof -
  have "k * 4096 < 2 ^ 32" using assms by (simp add: map_sized_def)
  then have "unat (of_nat k * 4096 :: u32) = k * 4096"
    using unat_of_nat_u32 [of "k * 4096"] by simp
  then have "unat (of_nat k * 4096 div 4096 :: u32) = k" by (simp add: unat_div_4096)
  moreover have "CLEAR_FLAG (flags (mem_map B ! k) OR PG_FLAG_TAKEN) PG_FLAG_TAKEN = flags (mem_map B ! k)"
    using assms(3) by (intro bit_eqI) (auto simp: CLEAR_FLAG_def bit_and_iff bit_or_iff bit_not_iff bit_flag_masks)
  ultimately show ?thesis
    using assms(2) by (simp add: release_page_def mark_taken_def Let_def)
qed

lemma bit_release: "bit (flags (release_descriptor p)) n \<longleftrightarrow> 7 < n \<and> bit (flags p) n"
proof -
  have "bit (flags (release_descriptor p)) n \<longleftrightarrow>
      bit (flags p) n \<and> bit (push_bit 6 (NOT 1) :: u32) n \<and> bit (push_bit 7 (NOT 1) :: u32) n"
    unfolding release_descriptor_def
    by (cases p) (simp only: page.select_convs page.update_convs bit_and_iff)
  then show ?thesis unfolding bit_push_not_1 using bit_imp_le_length [of "flags p" n] by auto
qed

lemma release_range_ok:
  assumes "unat a \<le> Suc (unat e)" and "unat e < length ps" and "unat e + 1 < 2 ^ 32"
  shows "\<exists>ps'. release_range a e ps = Some (e + 1, ps') \<and> length ps' = length ps \<and>
    (\<forall>i < length ps. ps' ! i = (if unat a \<le> i \<and> i \<le> unat e then release_descriptor (ps ! i) else ps ! i))"
  using assms
proof (induction "Suc (unat e) - unat a" arbitrary: a ps)
  case 0
  have "unat (e + 1) = unat e + 1" using unat_plus [of e 1] assms(3) by simp
  then have "a = e + 1" using 0 by (simp add: word_unat_eq_iff)
  moreover have "\<not> a \<le> e" using 0 by (simp add: word_le_nat_alt)
  ultimately show ?case using 0 by (intro exI [of _ ps]) (subst release_range.simps, auto)
next
  case (Suc n)
  let ?ps = "ps[unat a := release_descriptor (ps ! unat a)]"
  have le: "a \<le> e" "unat a < length ps" using Suc by (auto simp: word_le_nat_alt)
  have a1: "unat (a + 1) = unat a + 1" using unat_plus [of a 1] Suc.prems Suc.hyps(2) by simp
  have n: "n = Suc (unat e) - unat (a + 1)" using Suc.hyps(2) a1 by linarith
  obtain ps' where "release_range (a + 1) e ?ps = Some (e + 1, ps')" "length ps' = length ps"
    "\<forall>i < length ps. ps' ! i = (if unat (a + 1) \<le> i \<and> i \<le> unat e then release_descriptor (?ps ! i) else ?ps ! i)"
    using Suc.hyps(1) [OF n, of ?ps] Suc.prems a1 le(1) [unfolded word_le_nat_alt] by auto
  moreover have "release_range a e ps = release_range (a + 1) e ?ps"
    using le by (subst release_range.simps) simp
  ultimately show ?case
    using a1 le Suc.prems by (intro exI [of _ ps']) (auto simp: nth_list_update Suc_le_eq word_le_nat_alt le_less)
qed

lemma release_blocks_skip:
  assumes "i \<le> MAX_MEMORY_BLOCKS" and "\<forall>j < i. mb_start (blocks ! j) = 0 \<or> mb_end (blocks ! j) = 0"
  shows "release_blocks blocks 0 ps = release_blocks blocks (of_nat i) ps"
  using assms
proof (induction i)
  case (Suc i)
  have u: "unat (of_nat i :: u32) = i"
    using Suc.prems unat_of_nat_u32 [of i] by (simp add: MAX_MEMORY_BLOCKS_def)
  have "release_blocks blocks (of_nat i) ps = release_blocks blocks (of_nat i + 1) ps"
    using Suc.prems u by (subst release_blocks.simps) (simp add: Let_def)
  then show ?case using Suc by (simp add: add.commute)
qed simp

lemma release_blocks_ok:
  assumes i: "i < MAX_MEMORY_BLOCKS" and skip: "\<forall>j < i. mb_start (blocks ! j) = 0 \<or> mb_end (blocks ! j) = 0"
    and b: "mb_start (blocks ! i) \<noteq> 0" "mb_end (blocks ! i) \<noteq> 0"
    and a: "a = first_page_of (ucast (mb_start (blocks ! i)))" and e: "e = last_page_of (ucast (mb_end (blocks ! i)))"
    and ae: "unat a \<le> unat e" "unat e < length ps" "8 \<le> unat e" "unat e + 2 < 2 ^ 32"
  shows "\<exists>ps'. release_blocks blocks 0 ps = Some ps' \<and> length ps' = length ps \<and>
    (\<forall>k < length ps. ps' ! k = (if unat a \<le> k \<and> k \<le> unat e then release_descriptor (ps ! k) else ps ! k))"
proof -
  have u: "unat (of_nat i :: u32) = i" using i unat_of_nat_u32 [of i] by (simp add: MAX_MEMORY_BLOCKS_def)
  obtain ps' where ps': "release_range a e ps = Some (e + 1, ps')" "length ps' = length ps"
    "\<forall>k < length ps. ps' ! k = (if unat a \<le> k \<and> k \<le> unat e then release_descriptor (ps ! k) else ps ! k)"
    using release_range_ok [of a e ps] ae by auto
  have "unat (e + 2) = unat e + 2" using unat_plus [of e 2] ae(4) by simp
  then have "release_blocks blocks (e + 1 + 1) ps' = Some ps'"
    using ae(3) by (subst release_blocks.simps) (simp add: MAX_MEMORY_BLOCKS_def add.assoc)
  then have "release_blocks blocks (of_nat i) ps = Some ps'"
    using i b u ps'(1) unfolding a e by (subst release_blocks.simps) (simp add: Let_def)
  moreover have "release_blocks blocks 0 ps = release_blocks blocks (of_nat i) ps"
    by (rule release_blocks_skip) (use i skip in auto)
  ultimately show ?thesis using ps' by simp
qed

lemma init_descriptors_nth:
  assumes "k < n"
  shows "taken (init_descriptors n ! k)" and "page_no (init_descriptors n ! k) = of_nat k"
    and "\<not> PagePrivate (init_descriptors n ! k)" and "\<not> PagePrivate (release_descriptor (init_descriptors n ! k))"
    and "\<not> taken (release_descriptor (init_descriptors n ! k))"
    and "page_no (release_descriptor (init_descriptors n ! k)) = of_nat k"
    and "bit (flags (init_descriptors n ! k)) 6" and "\<not> bit (flags (release_descriptor (init_descriptors n ! k))) 6"
  using assms by (simp_all add: init_descriptors_def taken_def PagePrivate_iff bit_or_iff bit_flag_masks bit_release)
    (simp_all add: release_descriptor_def)

lemma create_zone_dlists: "dlists (fold (\<lambda>k. INIT_LIST_HEAD (FL k)) [0..<n] h) (FL ` {..<n}) (\<lambda>_. [])"
proof (induction n)
  case 0
  show ?case by (simp add: dlists_def)
next
  case (Suc n)
  let ?h = "fold (\<lambda>k. INIT_LIST_HEAD (FL k)) [0..<n] h"
  have "dlists (INIT_LIST_HEAD (FL n) ?h) (insert (FL n) (FL ` {..<n})) ((\<lambda>_. [])(FL n := []))"
    by (rule dlists_insert_init [OF Suc.IH]) auto
  then show ?case by (simp add: lessThan_Suc fun_upd_idem)
qed

lemma int_slot_inj:
  fixes p q :: u32
  assumes "unat p + 4 * n \<le> 2 ^ 32" and "i < n" and "unat q + 4 * k \<le> 2 ^ 32" and "j < k"
  shows "p + 4 * of_nat i = q + 4 * of_nat j \<longleftrightarrow> unat p + 4 * i = unat q + 4 * j"
proof -
  have u: "unat (r + 4 * of_nat l) = unat r + 4 * l" if "unat r + 4 * m \<le> 2 ^ 32" "l < m" for r :: u32 and l m
  proof -
    have "unat (of_nat (4 * l) :: u32) = 4 * l" using that by (intro unat_of_nat_u32) simp
    then show ?thesis using unat_plus [of r "of_nat (4 * l)"] that by simp
  qed
  show ?thesis using u [OF assms(1,2)] u [OF assms(3,4)] by (simp add: word_unat_eq_iff)
qed

lemma write_ints_other: "(\<And>i. i < n \<Longrightarrow> q \<noteq> p + 4 * of_nat i) \<Longrightarrow> write_ints p f n m q = m q"
  by (induction n) auto

lemma write_ints_same:
  assumes "unat p + 4 * n \<le> 2 ^ 32" and "i < n"
  shows "write_ints p f n m (p + 4 * of_nat i) = f i"
  using assms
proof (induction n)
  case (Suc n)
  then show ?case using int_slot_inj [of p "Suc n" i p "Suc n" n] by (cases "i = n") auto
qed simp

lemma check_after_write: "unat p + 4 * n \<le> 2 ^ 32 \<Longrightarrow> check_ints p f n (write_ints p f n m)"
  by (simp add: check_ints_def list_all_iff write_ints_same)

lemma check_frame:
  assumes "check_ints p f n m" and "unat p + 4 * n \<le> 2 ^ 32" and "unat q + 4 * k \<le> 2 ^ 32"
    and "{unat p..<unat p + 4 * n} \<inter> {unat q..<unat q + 4 * k} = {}"
  shows "check_ints p f n (write_ints q g k m)"
proof -
  have "write_ints q g k m (p + 4 * of_nat i) = m (p + 4 * of_nat i)" if i: "i < n" for i
  proof (rule write_ints_other)
    fix j assume "j < k"
    have "unat p + 4 * i \<noteq> unat q + 4 * j" using assms(4) i \<open>j < k\<close>
      by (metis IntI add_less_cancel_left atLeastLessThan_iff empty_iff le_add1 mult_less_cancel1 zero_less_numeral)
    then show "p + 4 * of_nat i \<noteq> q + 4 * of_nat j"
      using int_slot_inj [OF assms(2) i assms(3) \<open>j < k\<close>] by simp
  qed
  then show ?thesis using assms(1) by (simp add: check_ints_def list_all_iff)
qed

lemma test_allocator_ok:
  assumes ok: "heap_ok H s []" and room: "s + 300 \<le> unat (heap_end H)"
  shows "\<exists>H' m' bs. test_allocator H m = Some (0, H', m') \<and> heap_ok H' s bs"
proof -
  have s: "unat (kalloc_ptr H) = s" "0 < s" using ok by (auto simp: heap_ok_def)
  have e: "unat (heap_end H) < 2 ^ 32" using unsigned_less [of "heap_end H"] by simp
  obtain p1 H1 where 1: "kalloc 40 H = Some (p1, H1)" "heap_end H1 = heap_end H" "unat p1 = s + 12"
    "heap_ok H1 s [(48, False)]"
    using kalloc_correct_aux [OF ok, of 40] s room e by auto
  have t1: "unat (kalloc_ptr H1) = s + 60" using 1(4) by (simp add: heap_ok_def)
  obtain p2 H2 where 2: "kalloc 20 H1 = Some (p2, H2)" "heap_end H2 = heap_end H" "unat p2 = s + 72"
    "heap_ok H2 s [(48, False), (24, False)]"
    using kalloc_correct_aux [OF 1(4), of 20] t1 1(2) room e by auto
  have t2: "unat (kalloc_ptr H2) = s + 96" using 2(4) by (simp add: heap_ok_def)
  obtain bs where f: "heap_ok (kbfree p1 H2) s bs" "used s bs = {(s + 72, 24)}"
    "kalloc_ptr (kbfree p1 H2) = kalloc_ptr H2" "heap_end (kbfree p1 H2) = heap_end H2"
    using kbfree_ok [OF 2(4), of p1 48] 1(3) t2 by (auto simp: insert_Diff_if)
  obtain p3 H3 bs' n where 3: "kalloc 32 (kbfree p1 H2) = Some (p3, H3)" "heap_ok H3 s bs'" "p3 \<noteq> 0" "32 \<le> n"
    "unat p3 + n \<le> unat (heap_end H)" "{unat p3..<unat p3 + n} \<inter> {s + 72..<s + 96} = {}"
    using kalloc_ok [OF f(1), of 32] f t2 2(2) room e by (auto split: if_splits)
  have nz: "p1 \<noteq> 0" "p2 \<noteq> 0" using 1(3) 2(3) by auto
  let ?m1 = "write_ints p1 (\<lambda>i. of_nat (i * 2)) 10 m"
  let ?m2 = "write_ints p2 (\<lambda>i. of_nat (i + 100)) 5 ?m1"
  have c1: "check_ints p1 (\<lambda>i. of_nat (i * 2)) 10 ?m1"
    by (rule check_after_write) (use 1(3) room e in simp)
  have c2: "check_ints p2 (\<lambda>i. of_nat (i + 100)) 5 (write_ints p3 (\<lambda>i. of_nat (i + 200)) 8 ?m2)"
    by (rule check_frame [OF check_after_write]) (use 2(3) 3(4-6) room e in auto)
  show ?thesis
    using 1(1) 2(1) 3(1,2,3) nz c1 c2 by (auto simp: test_allocator_def Let_def)
qed

lemma mult_1024: "unat w < 2 ^ 22 \<Longrightarrow> unat (w * 1024 :: u32) = unat w * 1024"
  by (simp add: unat_word_ariths)

lemma layout_ok:
  assumes "unat (mem_upper mbi) + 1024 < 2 ^ 22" and "unat (mem_lower mbi) < 2 ^ 22"
  defines "lay \<equiv> machine_specific_memory_setup mbi"
  shows "unat (totalram_pages lay) = (unat (mem_upper mbi) + 1024) div 4"
    and "unat (max_low_pfn lay) = min (unat (totalram_pages lay)) (unat (mem_lower mbi) div 4)"
    and "unat (max_pfn lay) = unat (mem_upper mbi) div 4"
proof -
  have u: "unat (mem_upper mbi * 1024) = unat (mem_upper mbi) * 1024" using assms(1) by (simp add: mult_1024)
  have l: "unat (mem_lower mbi * 1024) = unat (mem_lower mbi) * 1024" using assms(2) by (simp add: mult_1024)
  have t: "unat (mem_upper mbi * 1024 + 1048576) = (unat (mem_upper mbi) + 1024) * 1024"
    using unat_plus [of "mem_upper mbi * 1024" 1048576] u assms(1) by simp
  have d: "(n * 1024) div 4096 = n div 4" for n :: nat
    using div_mult_mult2 [of 1024 n 4] by simp
  have tp: "unat (totalram_pages lay) = (unat (mem_upper mbi) + 1024) div 4"
    using t d [of "unat (mem_upper mbi) + 1024"]
    by (simp add: lay_def machine_specific_memory_setup_def Let_def unat_div_4096)
  have "unat (max_low_pfn lay) = (if totalram_pages lay < (mem_lower mbi * 1024) div 4096
      then unat (totalram_pages lay) else unat ((mem_lower mbi * 1024) div 4096))"
    by (simp add: lay_def machine_specific_memory_setup_def Let_def)
  then show "unat (max_low_pfn lay) = min (unat (totalram_pages lay)) (unat (mem_lower mbi) div 4)"
    using l d [of "unat (mem_lower mbi)"] by (auto simp: word_less_nat_alt unat_div_4096)
  show "unat (max_pfn lay) = unat (mem_upper mbi) div 4"
    using u d by (simp add: lay_def machine_specific_memory_setup_def Let_def unat_div_4096)
  show "unat (totalram_pages lay) = (unat (mem_upper mbi) + 1024) div 4" by (rule tp)
qed

lemma create_mem_map_ok:
  assumes i: "i < MAX_MEMORY_BLOCKS" and skip: "\<forall>j < i. mb_start (blocks ! j) = 0 \<or> mb_end (blocks ! j) = 0"
    and b: "mb_start (blocks ! i) = ucast (st :: u32)" "mb_end (blocks ! i) = ucast (en :: u32)"
      "0 < unat st" "0 < unat en" "unat st + 4096 \<le> 2 ^ 32" "unat en + 4096 \<le> 2 ^ 32"
    and k: "kalloc (totalram_pages (layout B) * sizeof_page) (heap B) = Some (p, H)" "p \<noteq> 0"
    and r: "lo = (unat st + 4095) div 4096" "hi = (if unat en mod 4096 = 0 then unat en div 4096 - 1 else unat en div 4096)"
      "lo \<le> hi" "8 \<le> hi" "hi < unat (totalram_pages (layout B))"
  shows "\<exists>B'. create_mem_map blocks B = Some (True, B') \<and> mem_map_addr B' = p \<and> heap B' = H \<and>
    layout B' = layout B \<and> length (mem_map B') = unat (totalram_pages (layout B)) \<and>
    (\<forall>k < length (mem_map B'). taken (mem_map B' ! k) = (\<not> (lo \<le> k \<and> k \<le> hi)) \<and>
       \<not> PagePrivate (mem_map B' ! k) \<and> page_no (mem_map B' ! k) = of_nat k \<and>
       bit (flags (mem_map B' ! k)) 6 = taken (mem_map B' ! k))"
proof -
  let ?n = "unat (totalram_pages (layout B))"
  let ?a = "first_page_of (ucast (mb_start (blocks ! i)))" and ?e = "last_page_of (ucast (mb_end (blocks ! i)))"
  have uc: "(ucast (ucast w :: u64) :: u32) = w" for w :: u32
    by (rule bit_eqI) (auto simp: bit_simps)
  have a: "unat ?a = lo" using first_page_of_ok [of st] b r(1) by (simp add: uc)
  have e: "unat ?e = hi" using last_page_of_ok [of en] b r(2) by (simp add: uc)
  have nz: "mb_start (blocks ! i) \<noteq> 0" "mb_end (blocks ! i) \<noteq> 0"
    using b(1-4) uc [of st] uc [of en] by auto
  have "hi + 2 < 2 ^ 32" using r(2) b(6) by (auto split: if_splits)
  then obtain ps where ps: "release_blocks blocks 0 (init_descriptors ?n) = Some ps"
    "length ps = length (init_descriptors ?n)"
    "\<forall>k < length (init_descriptors ?n). ps ! k = (if lo \<le> k \<and> k \<le> hi
       then release_descriptor (init_descriptors ?n ! k) else init_descriptors ?n ! k)"
    using release_blocks_ok [OF i skip nz refl refl, of "init_descriptors ?n"] a e r
    by (auto simp: init_descriptors_def)
  have len: "length (init_descriptors ?n) = ?n" by (simp add: init_descriptors_def)
  show ?thesis
    using k ps len init_descriptors_nth [of _ ?n] by (simp add: create_mem_map_def)
qed

section \<open>Properties\<close>


definition sample_mmap :: "u32 \<Rightarrow> mmap_entry" where
  "sample_mmap a = (if a = 0x9000 then \<lparr>me_size = 20, me_addr = 0, me_len = 0x9FC00, me_type = 1\<rparr>
     else if a = 0x9018 then \<lparr>me_size = 20, me_addr = 0xF0000, me_len = 0x10000, me_type = 2\<rparr>
     else \<lparr>me_size = 20, me_addr = 0x100000, me_len = 0x1F00000, me_type = 1\<rparr>)"

definition sample_mbi :: multiboot_info where
  "sample_mbi = \<lparr>mb_flags = 0x4F, mem_lower = 639, mem_upper = 31744, mmap_length = 72, mmap_addr = 0x9000\<rparr>"

definition zero_layout :: phy_layout where
  "zero_layout = \<lparr>highest_usable_pfn = 0, totalram_pages = 0, max_pfn = 0, max_low_pfn = 0,
     highstart_pfn = 0, highend_pfn = 0, totalhigh_pages = 0\<rparr>"

definition no_blocks :: "memory_block list" where
  "no_blocks = replicate 10 \<lparr>mb_start = 0, mb_end = 0\<rparr>"


text \<open>
  The page counts: with less than 4 GiB of memory, \<^verbatim>\<open>machine_specific_memory_setup\<close> computes the
  number of 4 KiB pages of the memory above and below 1 MiB without wrap-around, and the low pages
  are the conventional memory, or all of it when there is less.
\<close>

theorem memory_setup_counts:
  assumes "unat (mem_upper mbi) + 1024 < 2 ^ 22" and "unat (mem_lower mbi) < 2 ^ 22"
  shows "unat (totalram_pages (machine_specific_memory_setup mbi)) = (unat (mem_upper mbi) + 1024) div 4 \<and>
    unat (max_low_pfn (machine_specific_memory_setup mbi)) =
      min ((unat (mem_upper mbi) + 1024) div 4) (unat (mem_lower mbi) div 4) \<and>
    unat (max_pfn (machine_specific_memory_setup mbi)) = unat (mem_upper mbi) div 4"
  using layout_ok [OF assms] by simp

theorem memory_setup_counts_witness:
  "unat (totalram_pages (machine_specific_memory_setup sample_mbi)) = 8192 \<and>
   unat (max_low_pfn (machine_specific_memory_setup sample_mbi)) = 159"
  using memory_setup_counts [of sample_mbi] by (simp add: sample_mbi_def)


definition sample_boot :: boot_mem where
  "sample_boot = \<lparr>mem_map = [], mem_map_addr = 0, layout = zero_layout\<lparr>totalram_pages := 20\<rparr>, heap = fresh_heap\<rparr>"

definition sample_blocks :: "memory_block list" where
  "sample_blocks = [\<lparr>mb_start = 0, mb_end = 0x9FC00\<rparr>, \<lparr>mb_start = 0x2001, mb_end = 0xC010\<rparr>] @ drop 2 no_blocks"

lemma sample_boot_kalloc: "\<exists>p H. kalloc (20 * sizeof_page) fresh_heap = Some (p, H) \<and> p \<noteq> 0"
  using kalloc_correct_aux [OF fresh_heap_ok, of "20 * sizeof_page"]
  by (fastforce simp: sizeof_page_def fresh_heap_def)


text \<open>
  \<^verbatim>\<open>get_free_page\<close> takes the lowest page that is not taken and changes nothing else, and
  \<^verbatim>\<open>release_page\<close> of the address it returned undoes it exactly.  When every page is taken it
  returns 0, which is also the address of page 0.
\<close>

theorem get_free_page_correct:
  assumes "map_sized B"
  shows "(case untaken B of
      [] \<Rightarrow> get_free_page B = Some (0, B)
    | k # ks \<Rightarrow> \<exists>B'. get_free_page B = Some (of_nat k * 4096, B') \<and> untaken B' = ks \<and>
        release_page (of_nat k * 4096) B' = Some B)"
proof (cases "untaken B")
  case (Cons k ks)
  then have "k \<in> set (untaken B)" by simp
  then have "k < length (mem_map B)" "\<not> bit (flags (mem_map B ! k)) 6" by (auto simp: untaken_def)
  from release_mark [OF assms this] Cons untaken_mark [OF Cons] get_free_page_ok [OF assms]
  show ?thesis by simp
qed (simp add: get_free_page_ok [OF assms])

definition sample_map :: boot_mem where
  "sample_map = sample_boot\<lparr>layout := zero_layout\<lparr>totalram_pages := 3\<rparr>,
     mem_map := [zero_page\<lparr>flags := 0xC0\<rparr>, zero_page, zero_page]\<rparr>"

theorem get_free_page_correct_witness:
  "\<exists>B'. get_free_page sample_map = Some (4096, B') \<and> untaken B' = [2] \<and> release_page 4096 B' = Some sample_map"
proof -
  have "untaken sample_map = [1, 2]"
    by (simp add: untaken_def sample_map_def zero_page_def upt_conv_Cons numeral_3_eq_3)
  moreover have "map_sized sample_map" by (simp add: map_sized_def sample_map_def zero_layout_def)
  ultimately show ?thesis using get_free_page_correct [of sample_map] by simp
qed

text \<open>
  The start-up test of the heap passes on a fresh heap with 300 bytes of room: the second array
  survives the release of the first and the allocation of the third, and the heap stays
  well formed.
\<close>

theorem test_allocator_passes:
  assumes "heap_ok H s []" and "s + 300 \<le> unat (heap_end H)"
  shows "\<exists>H' m' bs. test_allocator H m = Some (0, H', m') \<and> heap_ok H' s bs"
  by (rule test_allocator_ok [OF assms])

theorem test_allocator_passes_witness:
  "\<exists>H' m' bs. test_allocator fresh_heap (\<lambda>_. 0) = Some (0, H', m') \<and> heap_ok H' 0x1000 bs"
  by (rule test_allocator_passes [OF fresh_heap_ok]) (simp add: fresh_heap_def)

end
