(* ===== verification/Paging.thy ===== *)
theory Paging
  imports Boot_Memory
begin

text \<open>
  Paging (\<^verbatim>\<open>include/page.h\<close> and the second part of \<^verbatim>\<open>memory-management/mm.c\<close>): conversions between
  page descriptors, physical and kernel addresses, and the construction of the page tables in
  \<^verbatim>\<open>setup_paging\<close>.

  Page tables are words of physical memory, a function from addresses to words; \<^verbatim>\<open>swapper_pg_dir\<close> is an
  array of 1024 entries, and an index outside it is \<open>None\<close>.  \<open>walk\<close> is what a 32-bit x86 processor
  without large pages does with such tables; it is the specification the tables are checked against.
  Loading the control registers (\<^verbatim>\<open>enable_paging\<close>, \<^verbatim>\<open>confirm_paging\<close>, assembly code) and the store to the
  test page are not part of the model.
\<close>

section \<open>Address conversions\<close>

definition PAGE_OFFSET :: u32 where "PAGE_OFFSET = 0xC0000000"

definition pa_of :: "u32 \<Rightarrow> u32" where
  "pa_of x = (if x \<ge> PAGE_OFFSET then x - PAGE_OFFSET else x)"

definition va_of :: "u32 \<Rightarrow> u32" where
  "va_of x = x + PAGE_OFFSET"

definition page_address :: "nat \<Rightarrow> u32" where
  "page_address page = va_of (push_bit 12 (of_nat page))"

definition pfn_to_page :: "u32 \<Rightarrow> u32 \<Rightarrow> nat" where
  "pfn_to_page start_pfn pfn = unat (pfn - start_pfn)"

definition virt_to_page :: "u32 \<Rightarrow> u32 \<Rightarrow> nat" where
  "virt_to_page start_pfn kaddr = pfn_to_page start_pfn (drop_bit 12 (pa_of kaddr))"

definition phys_to_page :: "u32 \<Rightarrow> u32 \<Rightarrow> nat" where
  "phys_to_page start_pfn p = pfn_to_page start_pfn (drop_bit 12 p)"

definition page_to_phys :: "nat \<Rightarrow> u32" where
  "page_to_phys page = of_nat page * 4096"

section \<open>Page tables\<close>

record paging =
  swapper_pg_dir :: "u32 list"
  pt_mem :: "u32 \<Rightarrow> u32"

definition count_pgdir_entries :: "u32 \<Rightarrow> u32" where
  "count_pgdir_entries present = (present * 4096) div (4096 * 1024)"

definition pgd_index :: "u32 \<Rightarrow> u32" where
  "pgd_index phy_addr = phy_addr div (1024 * 4096)"

definition pg_entry :: "u32 \<Rightarrow> u32" where
  "pg_entry a = (a AND 0xFFFFF000) OR push_bit 0 1 OR push_bit 1 1"

function fill_table :: "u32 \<Rightarrow> u32 \<Rightarrow> nat \<Rightarrow> u32 \<Rightarrow> (u32 \<Rightarrow> u32) \<Rightarrow> u32 \<times> (u32 \<Rightarrow> u32)" where
  "fill_table pg_ptr total_ram jCnt phy_addr mem =
     (if phy_addr < total_ram \<and> jCnt < 1024
      then fill_table pg_ptr total_ram (Suc jCnt) (phy_addr + 4096)
             (mem(pg_ptr + 4 * of_nat jCnt := pg_entry phy_addr))
      else (phy_addr, mem))"
  by auto
termination by (relation "measure (\<lambda>(p, t, j, a, m). 1024 - j)") auto

declare fill_table.simps [simp del]

primrec setup_tables :: "nat \<Rightarrow> boot_mem \<Rightarrow> paging \<Rightarrow> (u32 \<times> boot_mem \<times> paging) option" where
  "setup_tables 0 B st = Some (0, B, st)"
| "setup_tables (Suc iCnt) B st = do {
     (phy_addr, B, st) \<leftarrow> setup_tables iCnt B st;
     (temp_addr, B) \<leftarrow> get_free_page B;
     let pgd = unat (pgd_index PAGE_OFFSET);
     if pgd + iCnt < length (swapper_pg_dir st) then do {
       let dir = (swapper_pg_dir st)[pgd + iCnt := pg_entry temp_addr, iCnt := pg_entry temp_addr];
       let (phy_addr, mem) = fill_table temp_addr (totalram_pages (layout B) * 4096) 0 phy_addr (pt_mem st);
       Some (phy_addr, B, st\<lparr>swapper_pg_dir := dir, pt_mem := mem\<rparr>)
     } else None
   }"

definition test_mmu :: "boot_mem \<Rightarrow> (bool \<times> boot_mem) option" where
  "test_mmu B = do {
     (phy_addr, B) \<leftarrow> get_free_page B;
     let i = unat (phy_addr div 4096);
     if i < length (mem_map B) then do {
       let taken1 = ((flags (mem_map B ! i) AND PG_FLAG_TAKEN) \<noteq> 0);
       B \<leftarrow> release_page phy_addr B;
       let taken2 = ((flags (mem_map B ! i) AND PG_FLAG_TAKEN) \<noteq> 0);
       Some (taken1 \<or> \<not> taken2, B)
     } else None
   }"

definition setup_paging :: "nat \<Rightarrow> boot_mem \<Rightarrow> paging \<Rightarrow> (bool \<times> boot_mem \<times> paging) option" where
  "setup_paging pgdir_entries B st = do {
     (phy_addr, B, st) \<leftarrow> setup_tables pgdir_entries B st;
     (ok, B) \<leftarrow> test_mmu B;
     Some (ok, B, st)
   }"

section \<open>What the processor does with the tables\<close>

definition walk :: "paging \<Rightarrow> u32 \<Rightarrow> u32 option" where
  "walk st va =
     (let pde = swapper_pg_dir st ! unat (va div 0x400000) in
      if (pde AND 1) = 0 then None
      else let pte = pt_mem st ((pde AND 0xFFFFF000) + 4 * ((va div 4096) mod 1024)) in
        if (pte AND 1) = 0 then None
        else Some ((pte AND 0xFFFFF000) OR (va AND 0xFFF)))"

section \<open>Lemmas\<close>

lemma frame_mask: "(0xFFFFF000 :: u32) = NOT (mask 12)"
  by (simp add: mask_numeral)

lemma offset_mask: "(0xFFF :: u32) = mask 12"
  by (simp add: mask_numeral)

lemma pg_entry_frame: "(pg_entry a AND 0xFFFFF000) = (a AND 0xFFFFF000)"
  unfolding pg_entry_def frame_mask
  by (rule bit_eqI) (simp only: bit_and_iff bit_or_iff bit_push_1 bit_not_iff bit_mask_iff, auto)

lemma pg_entry_present: "(pg_entry a AND 1) \<noteq> 0"
proof -
  have "bit (pg_entry a AND 1) 0" by (simp add: pg_entry_def bit_and_iff bit_or_iff)
  then show ?thesis by (metis bit_0_eq bot_apply bot_bool_def)
qed

lemma align_frame: "(a AND 0xFFFFF000) = (a :: u32)" if "unat a mod 4096 = 0"
proof -
  have "unat (a AND NOT (mask 12)) = unat a" using unat_align_down [of a 12] that by auto
  then show ?thesis unfolding frame_mask by (simp add: word_unat_eq_iff)
qed

lemma add_frames:
  fixes w :: u32
  assumes "unat w + 4096 * n < 2 ^ 32"
  shows "unat (w + 4096 * of_nat n) = unat w + 4096 * n"
proof -
  have "unat (of_nat (4096 * n) :: u32) = 4096 * n" using assms by (intro unat_of_nat_u32) simp
  then show ?thesis using unat_plus [of w "of_nat (4096 * n)"] assms by simp
qed

lemma fill_table_ok:
  assumes "unat phy + 4096 * (1024 - j) \<le> unat ram" and "unat pg + 4096 \<le> 2 ^ 32" and "j \<le> 1024"
  shows "\<exists>mem'. fill_table pg ram j phy mem = (phy + 4096 * of_nat (1024 - j), mem') \<and>
    (\<forall>l. j \<le> l \<longrightarrow> l < 1024 \<longrightarrow> mem' (pg + 4 * of_nat l) = pg_entry (phy + 4096 * of_nat (l - j))) \<and>
    (\<forall>a. (\<forall>l. j \<le> l \<longrightarrow> l < 1024 \<longrightarrow> a \<noteq> pg + 4 * of_nat l) \<longrightarrow> mem' a = mem a)"
  using assms
proof (induction pg ram j phy mem rule: fill_table.induct)
  case (1 pg ram j phy mem)
  show ?case
  proof (cases "j < 1024")
    case True
    let ?mem = "mem(pg + 4 * of_nat j := pg_entry phy)"
    have r: "unat ram < 2 ^ 32" using unsigned_less [of ram] by simp
    have p: "unat (phy + 4096) = unat phy + 4096" using add_frames [of phy 1] "1.prems"(1) True r by simp
    have lt: "phy < ram" using "1.prems"(1) True by (simp add: word_less_nat_alt)
    have "4096 * (1024 - j) = 4096 + 4096 * (1024 - Suc j)" using True by simp
    then have h: "unat (phy + 4096) + 4096 * (1024 - Suc j) \<le> unat ram" using "1.prems"(1) p by linarith
    have h2: "Suc j \<le> 1024" using True by simp
    obtain mem' where m: "fill_table pg ram (Suc j) (phy + 4096) ?mem = (phy + 4096 + 4096 * of_nat (1024 - Suc j), mem')"
      "\<forall>l. Suc j \<le> l \<longrightarrow> l < 1024 \<longrightarrow> mem' (pg + 4 * of_nat l) = pg_entry (phy + 4096 + 4096 * of_nat (l - Suc j))"
      "\<forall>a. (\<forall>l. Suc j \<le> l \<longrightarrow> l < 1024 \<longrightarrow> a \<noteq> pg + 4 * of_nat l) \<longrightarrow> mem' a = ?mem a"
      using "1.IH" [OF conjI [OF lt True] h "1.prems"(2) h2] by blast
    have run: "fill_table pg ram j phy mem = fill_table pg ram (Suc j) (phy + 4096) ?mem"
      using lt True by (simp add: fill_table.simps [of pg ram j])
    have step: "phy + 4096 + 4096 * of_nat (l - Suc j) = phy + 4096 * of_nat (l - j)" if "j < l" for l
    proof -
      have "l - j = Suc (l - Suc j)" using that by simp
      then show ?thesis by (simp add: algebra_simps)
    qed
    have own: "mem' (pg + 4 * of_nat j) = pg_entry phy"
    proof -
      have "pg + 4 * of_nat j \<noteq> pg + 4 * of_nat l" if "Suc j \<le> l" "l < 1024" for l
        using int_slot_inj [of pg 1024 j pg 1024 l] "1.prems"(2) True that by simp
      then show ?thesis using m(3) by simp
    qed
    have "mem' (pg + 4 * of_nat l) = pg_entry (phy + 4096 * of_nat (l - j))" if "j \<le> l" "l < 1024" for l
      using own m(2) step [of l] that by (cases "l = j") auto
    moreover have "mem' a = mem a" if "\<forall>l. j \<le> l \<longrightarrow> l < 1024 \<longrightarrow> a \<noteq> pg + 4 * of_nat l" for a
      using m(3) that True by auto
    ultimately show ?thesis using m(1) run step [OF True] by auto
  next
    case False
    then have "fill_table pg ram j phy mem = (phy, mem)" by (subst fill_table.simps) simp
    with False "1.prems" show ?thesis by auto
  qed
qed

text \<open>After \<open>n\<close> rounds the directory and the tables map the first \<open>n\<close> times 4 MiB, with the page
  tables in the pages \<open>ts\<close>.\<close>

definition mapped :: "nat \<Rightarrow> nat list \<Rightarrow> paging \<Rightarrow> bool" where
  "mapped n ts st \<longleftrightarrow> length (swapper_pg_dir st) = 1024 \<and>
     (\<forall>i < n. swapper_pg_dir st ! i = pg_entry (of_nat (ts ! i) * 4096) \<and>
        swapper_pg_dir st ! (768 + i) = pg_entry (of_nat (ts ! i) * 4096) \<and>
        (\<forall>j < 1024. pt_mem st (of_nat (ts ! i) * 4096 + 4 * of_nat j) = pg_entry (of_nat ((i * 1024 + j) * 4096))))"

lemma untaken_less: "k \<in> set (untaken B) \<Longrightarrow> k < length (mem_map B)"
  by (simp add: untaken_def)

lemma untaken_small:
  assumes "map_sized B" and "i < length (untaken B)"
  shows "untaken B ! i < 2 ^ 20"
  using untaken_less [OF nth_mem [OF assms(2)]] assms(1) by (simp add: map_sized_def)

lemma table_slots_disjoint:
  assumes "k < 2 ^ 20" "l < 2 ^ 20" "k \<noteq> l" "i < 1024" "j < 1024"
  shows "of_nat k * 4096 + 4 * of_nat i \<noteq> (of_nat l * 4096 + 4 * of_nat j :: u32)"
proof -
  have u: "unat (of_nat m * 4096 :: u32) = m * 4096" if "m < 2 ^ 20" for m
    using unat_of_nat_u32 [of "m * 4096"] that by simp
  have "k * 4096 + 4 * i \<noteq> l * 4096 + 4 * j"
  proof
    assume "k * 4096 + 4 * i = l * 4096 + 4 * j"
    then have "(k * 4096 + 4 * i) div 4096 = (l * 4096 + 4 * j) div 4096" by simp
    with assms show False by simp
  qed
  then show ?thesis
    using int_slot_inj [of "of_nat k * 4096" 1024 i "of_nat l * 4096" 1024 j] u assms by simp
qed

lemma pgd_768: "unat (pgd_index PAGE_OFFSET) = 768"
  by (simp add: pgd_index_def PAGE_OFFSET_def unat_div_distrib)

lemma setup_tables_ok:
  assumes sz: "map_sized B" and n: "n \<le> 256" and free: "n \<le> length (untaken B)"
    and ram: "n * 1024 \<le> unat (totalram_pages (layout B))" "unat (totalram_pages (layout B)) < 2 ^ 20"
    and dir: "length (swapper_pg_dir st) = 1024"
  shows "\<exists>B' st'. setup_tables n B st = Some (of_nat (n * 1024 * 4096), B', st') \<and> map_sized B' \<and>
    layout B' = layout B \<and> untaken B' = drop n (untaken B) \<and> mapped n (untaken B) st'"
  using n free ram(1)
proof (induction n)
  case 0
  then show ?case using sz dir by (simp add: mapped_def)
next
  case (Suc n)
  let ?ts = "untaken B" and ?k = "untaken B ! n"
  obtain B1 st1 where 1: "setup_tables n B st = Some (of_nat (n * 1024 * 4096), B1, st1)" "map_sized B1"
    "layout B1 = layout B" "untaken B1 = drop n ?ts" "mapped n ?ts st1"
    using Suc by auto
  have hd: "untaken B1 = ?k # drop (Suc n) ?ts" using 1(4) Suc.prems by (simp add: Cons_nth_drop_Suc)
  have g: "get_free_page B1 = Some (of_nat ?k * 4096, mark_taken ?k B1)"
    using get_free_page_ok [OF 1(2)] hd by simp
  note small = untaken_small [OF sz]
  have tk: "unat (of_nat ?k * 4096 :: u32) = ?k * 4096"
    using unat_of_nat_u32 [of "?k * 4096"] small [of n] Suc.prems by simp
  have ut: "unat (totalram_pages (layout B) * 4096) = unat (totalram_pages (layout B)) * 4096"
    using ram(2) by (simp add: unat_word_ariths)
  have up: "unat (of_nat (n * 1024 * 4096) :: u32) = n * 1024 * 4096"
    using Suc.prems by (intro unat_of_nat_u32) simp
  obtain mem' where m: "fill_table (of_nat ?k * 4096) (totalram_pages (layout B) * 4096) 0
      (of_nat (n * 1024 * 4096)) (pt_mem st1) = (of_nat (n * 1024 * 4096) + 4096 * of_nat 1024, mem')"
    "\<forall>l < 1024. mem' (of_nat ?k * 4096 + 4 * of_nat l) = pg_entry (of_nat (n * 1024 * 4096) + 4096 * of_nat l)"
    "\<forall>a. (\<forall>l < 1024. a \<noteq> of_nat ?k * 4096 + 4 * of_nat l) \<longrightarrow> mem' a = pt_mem st1 a"
    using fill_table_ok [of "of_nat (n * 1024 * 4096)" 0 "totalram_pages (layout B) * 4096" "of_nat ?k * 4096" "pt_mem st1"]
      ut up tk Suc.prems ram small [of n] by auto
  define st' where "st' = st1\<lparr>swapper_pg_dir := (swapper_pg_dir st1)[768 + n := pg_entry (of_nat ?k * 4096),
    n := pg_entry (of_nat ?k * 4096)], pt_mem := mem'\<rparr>"
  have d: "distinct ?ts" by (simp add: untaken_def)
  have old: "mem' (of_nat (?ts ! i) * 4096 + 4 * of_nat j) = pt_mem st1 (of_nat (?ts ! i) * 4096 + 4 * of_nat j)"
    if "i < n" "j < 1024" for i j
  proof -
    have "?ts ! i \<noteq> ?k" using d that Suc.prems by (simp add: nth_eq_iff_index_eq)
    then show ?thesis using m(3) table_slots_disjoint [of "?ts ! i" ?k j] small that Suc.prems by auto
  qed
  have new: "mem' (of_nat ?k * 4096 + 4 * of_nat j) = pg_entry (of_nat ((n * 1024 + j) * 4096))" if "j < 1024" for j
    using m(2) that by (simp add: algebra_simps)
  have "mapped (Suc n) ?ts st'"
    using 1(5) old new Suc.prems unfolding mapped_def st'_def
    by (auto simp: nth_list_update less_Suc_eq)
  moreover have "setup_tables (Suc n) B st = Some (of_nat (Suc n * 1024 * 4096), mark_taken ?k B1, st')"
    using 1 g m(1) Suc.prems by (simp add: mapped_def st'_def pgd_768 Let_def algebra_simps)
  moreover have "untaken (mark_taken ?k B1) = drop (Suc n) ?ts" by (rule untaken_mark [OF hd])
  ultimately show ?case using 1 by auto
qed

lemma va_parts:
  assumes pa: "unat pa < n * 0x400000" and va: "va = pa \<or> va = va_of pa" and n: "n \<le> 256"
  shows "unat (va div 0x400000) = unat pa div 0x400000 \<or> unat (va div 0x400000) = 768 + unat pa div 0x400000"
    and "unat ((va div 4096) mod 1024) = unat pa div 4096 mod 1024"
    and "(va AND mask 12) = (pa AND mask 12)"
proof -
  have "n * 0x400000 \<le> 256 * 0x400000" using n by (rule mult_right_mono) simp
  with pa have "unat pa < 2 ^ 30" by simp
  then have "unat (pa + PAGE_OFFSET) = unat pa + 0xC0000000"
    using unat_plus [of pa PAGE_OFFSET] by (simp add: PAGE_OFFSET_def)
  then obtain c where c: "c = 0 \<or> c = 768" "unat va = unat pa + c * 0x400000"
    using va by (auto simp: va_of_def)
  have "unat (va div 0x400000) = (unat pa + c * 0x400000) div 0x400000" by (simp add: unat_div_distrib c)
  also have "\<dots> = c + unat pa div 0x400000" by (rule div_mult_self1) simp
  finally show "unat (va div 0x400000) = unat pa div 0x400000 \<or> unat (va div 0x400000) = 768 + unat pa div 0x400000"
    using c(1) by auto
  have "unat va div 4096 = (unat pa + (c * 1024) * 4096) div 4096" by (simp add: c(2))
  also have "\<dots> = c * 1024 + unat pa div 4096" by (rule div_mult_self1) simp
  finally show "unat ((va div 4096) mod 1024) = unat pa div 4096 mod 1024"
    by (simp add: unat_mod_distrib unat_div_4096)
  have "unat va mod 4096 = (unat pa + (c * 1024) * 4096) mod 4096" by (simp add: c(2) mult.commute)
  also have "\<dots> = unat pa mod 4096" by (rule mod_mult_self1)
  finally have "unat (va AND mask 12) = unat (pa AND mask 12)" by (simp add: unat_and_mask)
  then show "(va AND mask 12) = (pa AND mask 12)" by (simp only: word_unat_eq_iff)
qed

lemma walk_mapped:
  assumes M: "mapped n ts st" and n: "n \<le> 256" and pa: "unat pa < n * 0x400000" and ts: "\<forall>i < n. ts ! i < 2 ^ 20"
    and va: "va = pa \<or> va = va_of pa"
  shows "walk st va = Some pa"
proof -
  define i where "i = unat pa div 0x400000"
  define j where "j = unat pa div 4096 mod 1024"
  have i: "i < n" using pa by (simp add: i_def less_mult_imp_div_less)
  have j: "j < 1024" by (simp add: j_def)
  have pn: "(i * 1024 + j) * 4096 = unat pa div 4096 * 4096"
  proof -
    have "i = unat pa div 4096 div 1024" by (simp add: i_def div_mult2_eq [symmetric])
    then show ?thesis by (simp add: j_def div_mult_mod_eq)
  qed
  have "unat (pa AND NOT (mask 12)) = (i * 1024 + j) * 4096"
    using unat_align_down [of pa 12] pn by simp
  then have frame: "(of_nat ((i * 1024 + j) * 4096) :: u32) = (pa AND NOT (mask 12))"
    by (rule of_nat_of_unat)
  note va_parts = va_parts [OF _ va, of n, folded i_def j_def]
  have va_cases: "unat (va div 0x400000) = i \<or> unat (va div 0x400000) = 768 + i"
    and vj: "unat ((va div 4096) mod 1024) = j" and off: "(va AND mask 12) = (pa AND mask 12)"
    using va_parts [OF _ n] pa by auto
  have "swapper_pg_dir st ! unat (va div 0x400000) = pg_entry (of_nat (ts ! i) * 4096)"
    using M i va_cases by (auto simp: mapped_def)
  moreover have "(of_nat (ts ! i) * 4096 AND 0xFFFFF000) = (of_nat (ts ! i) * 4096 :: u32)"
    using unat_of_nat_u32 [of "ts ! i * 4096"] ts i by (intro align_frame) simp
  moreover have "(va div 4096) mod 1024 = of_nat j" using of_nat_of_unat [OF vj] by simp
  moreover have "pt_mem st (of_nat (ts ! i) * 4096 + 4 * of_nat j) = pg_entry (of_nat ((i * 1024 + j) * 4096))"
    using M i j by (simp add: mapped_def)
  moreover have "(pg_entry (of_nat ((i * 1024 + j) * 4096)) AND 0xFFFFF000) = (pa AND NOT (mask 12))"
    unfolding pg_entry_frame unfolding frame frame_mask by (rule bit_eqI) (auto simp: bit_simps)
  moreover have "(pa AND NOT (mask 12)) OR (va AND 0xFFF) = pa"
    unfolding offset_mask off by (rule bit_eqI) (auto simp: bit_simps)
  ultimately show ?thesis
    by (simp add: walk_def Let_def pg_entry_present pg_entry_frame)
qed

lemma test_mmu_ok:
  assumes "map_sized B" and "untaken B \<noteq> []"
  shows "test_mmu B = Some (True, B)"
proof -
  obtain k ks where k: "untaken B = k # ks" using assms(2) by (cases "untaken B") auto
  then have "k \<in> set (untaken B)" by simp
  then have k': "k < length (mem_map B)" "\<not> bit (flags (mem_map B ! k)) 6" by (auto simp: untaken_def)
  have "k * 4096 < 2 ^ 32" using assms(1) k'(1) by (simp add: map_sized_def)
  then have "unat (of_nat k * 4096 div 4096 :: u32) = k"
    using unat_of_nat_u32 [of "k * 4096"] by (simp add: unat_div_4096)
  then show ?thesis
    using get_free_page_ok [OF assms(1)] k k' release_mark [OF assms(1) k']
      single_flag_zero [of PG_FLAG_TAKEN 6 "flags (mem_map B ! k)", OF bit_flag_masks(2)]
    by (simp add: test_mmu_def Let_def)
qed

lemma count_pgdir_ok:
  assumes "unat present < 2 ^ 20"
  shows "unat (count_pgdir_entries present) = unat present div 1024"
proof -
  have "unat (present * 4096) = unat present * 4096" using assms by (simp add: unat_word_ariths)
  then have "unat (count_pgdir_entries present) = unat present * 4096 div (1024 * 4096)"
    by (simp add: count_pgdir_entries_def unat_div_distrib)
  also have "\<dots> = unat present div 1024" by (rule div_mult_mult2) simp
  finally show ?thesis .
qed

section \<open>Properties\<close>

text \<open>
  C13: with at most 1 GiB of memory and enough untaken pages for the tables, \<^verbatim>\<open>setup_paging\<close> (for the
  number of directory entries \<^verbatim>\<open>count_pgdir_entries\<close> computes) succeeds, and the processor's walk of the
  tables then maps every physical address below the last whole 4 MiB both at its own address and
  at that address plus \<^verbatim>\<open>PAGE_OFFSET\<close>.  The page tables are in distinct pages, which stay taken; the
  memory test at the end passes and gives its page back.
\<close>

theorem setup_paging_maps:
  assumes "map_sized B" and "unat (totalram_pages (layout B)) \<le> 2 ^ 18"
    and "n = unat (count_pgdir_entries (totalram_pages (layout B)))" and "n < length (untaken B)"
    and "length (swapper_pg_dir st) = 1024"
  shows "\<exists>B' st'. setup_paging n B st = Some (True, B', st') \<and> untaken B' = drop n (untaken B) \<and>
    (\<forall>pa. unat pa < n * 0x400000 \<longrightarrow> walk st' pa = Some pa \<and> walk st' (va_of pa) = Some pa)"
proof -
  have n: "n = unat (totalram_pages (layout B)) div 1024" using count_pgdir_ok assms(2,3) by simp
  then have n256: "n \<le> 256" using assms(2) by simp
  have "n * 1024 \<le> unat (totalram_pages (layout B))" using n by simp
  then obtain B' st' where s: "setup_tables n B st = Some (of_nat (n * 1024 * 4096), B', st')" "map_sized B'"
    "untaken B' = drop n (untaken B)" "mapped n (untaken B) st'"
    using setup_tables_ok [OF assms(1) n256 _ _ _ assms(5)] assms(2,4) by auto
  have "\<forall>i < n. untaken B ! i < 2 ^ 20"
    using untaken_small [OF assms(1)] assms(4) by simp
  then have "walk st' pa = Some pa \<and> walk st' (va_of pa) = Some pa" if "unat pa < n * 0x400000" for pa
    using walk_mapped [OF s(4) n256 that] by blast
  moreover have "untaken B' \<noteq> []" using s(3) assms(4) by simp
  ultimately show ?thesis
    using s test_mmu_ok [OF s(2)] by (simp add: setup_paging_def)
qed

definition sample_pages :: boot_mem where
  "sample_pages = sample_boot\<lparr>layout := zero_layout\<lparr>totalram_pages := 1024\<rparr>,
     mem_map := replicate 1024 zero_page\<rparr>"

definition blank_tables :: paging where
  "blank_tables = \<lparr>swapper_pg_dir = replicate 1024 0, pt_mem = \<lambda>_. 0\<rparr>"

lemma sample_pages_ok: "map_sized sample_pages" "untaken sample_pages = [0..<1024]"
  by (auto simp: map_sized_def untaken_def sample_pages_def zero_layout_def zero_page_def)

theorem setup_paging_maps_witness:
  "\<exists>B' st'. setup_paging 1 sample_pages blank_tables = Some (True, B', st') \<and>
    walk st' 0x1234 = Some 0x1234 \<and> walk st' 0xC0001234 = Some 0x1234"
  using setup_paging_maps [OF sample_pages_ok(1), of 1 blank_tables] sample_pages_ok(2)
    count_pgdir_ok [of 1024]
  by (auto simp: sample_pages_def zero_layout_def blank_tables_def va_of_def PAGE_OFFSET_def
    dest: spec [of _ "0x1234"])

text \<open>
  The conversions of \<^verbatim>\<open>include/page.h\<close> are inverse to each other on the first GiB: a page's
  kernel address and its physical address lead back to the page.
\<close>

theorem page_address_roundtrip:
  assumes "page < 2 ^ 18"
  shows "virt_to_page 0 (page_address page) = page \<and> phys_to_page 0 (page_to_phys page) = page \<and>
    pa_of (page_address page) = page_to_phys page"
proof -
  have "unat (of_nat (page * 4096) :: u32) = page * 4096" using assms by (intro unat_of_nat_u32) simp
  then have u: "unat (of_nat page * 4096 :: u32) = page * 4096" by simp
  have "unat (of_nat page * 4096 + PAGE_OFFSET) = page * 4096 + 0xC0000000"
    using unat_plus [of "of_nat page * 4096" PAGE_OFFSET] u assms by (simp add: PAGE_OFFSET_def)
  then have "PAGE_OFFSET \<le> of_nat page * 4096 + PAGE_OFFSET"
    by (simp add: word_le_nat_alt PAGE_OFFSET_def)
  then have pa: "pa_of (page_address page) = page_to_phys page"
    by (simp add: pa_of_def page_address_def va_of_def page_to_phys_def push_bit_eq_mult)
  have "unat (drop_bit 12 (of_nat page * 4096 :: u32)) = page"
    by (simp add: drop_bit_eq_div unat_div_4096 u)
  then show ?thesis
    using pa by (simp add: virt_to_page_def phys_to_page_def pfn_to_page_def page_to_phys_def)
qed

theorem page_address_roundtrip_witness:
  "virt_to_page 0 (page_address 5) = 5 \<and> phys_to_page 0 (page_to_phys 5) = 5 \<and>
    pa_of (page_address 5) = page_to_phys 5"
  by (rule page_address_roundtrip) simp

end
