(* ===== verification/Slab.thy ===== *)
theory Slab
  imports Buddy_Init Paging
begin

text \<open>
  The slab allocator (\<^verbatim>\<open>memory-management/slab.c\<close>, \<^verbatim>\<open>include/slab.h\<close>): sizes, caches, slabs, object
  allocation and freeing, cache creation and \<^verbatim>\<open>kmalloc\<close>.

  Cache and slab descriptors are records in maps from their addresses; \<open>obj_word\<close> is the first word
  of each object, which links the free objects of a slab.  The list heads embedded in descriptors are
  nodes of one list heap.  \<open>None\<close> stands for a division by zero, an access outside the page map, a
  call of a non-null constructor or destructor (the kernel installs none) or a loop that does not end.
  The address of the global \<^verbatim>\<open>cache_cache\<close>, chosen by the linker, is a field of the state.
\<close>

section \<open>Data\<close>

definition CFLGS_OFF_SLAB :: u32 where "CFLGS_OFF_SLAB = 0x80000000"
definition SLAB_HWCACHE_ALIGN :: u32 where "SLAB_HWCACHE_ALIGN = 0x2000"
definition KMALLOC_MINALIGN :: u32 where "KMALLOC_MINALIGN = 8"
definition KMALLOC_MAX_ORDER :: nat where "KMALLOC_MAX_ORDER = 10"
definition cache_line_size :: u32 where "cache_line_size = push_bit 5 1"
definition BYTES_PER_WORD :: u32 where "BYTES_PER_WORD = 4"
definition sizeof_slab :: u32 where "sizeof_slab = 28"
definition sizeof_kmem_cache :: u32 where "sizeof_kmem_cache = 104"

definition ALIGN :: "u32 \<Rightarrow> u32 \<Rightarrow> u32" where
  "ALIGN x a = (x + (a - 1)) AND NOT (a - 1)"

datatype snode = SNULL | Partial u32 | Full u32 | Free u32 | SlabList u32 | CacheChain | CacheNext u32

instantiation snode :: zero
begin
definition zero_snode :: snode where "zero_snode = SNULL"
instance ..
end

record kmem_cache =
  free_objects :: u32
  objsize :: u32
  cflags :: u32
  num :: u32
  free_limit :: u32
  gfporder :: u32
  gfpflags :: u32
  colour :: u32
  colour_off :: u32
  colour_next :: u32
  slabp_cache :: u32
  slab_size :: u32
  ctor :: u32
  dtor :: u32
  cname :: string

record slab_desc =
  colouroff :: u32
  s_mem :: u32
  inuse :: u32
  sfree :: u32
  free_list :: u32

record slab_state =
  szone :: zone
  caches :: "u32 \<Rightarrow> kmem_cache"
  slabs :: "u32 \<Rightarrow> slab_desc"
  obj_word :: "u32 \<Rightarrow> u32"
  slists :: "snode list_heap"
  cs_cachep :: "u32 list"
  cache_cache :: u32

definition malloc_sizes :: "u32 list" where
  "malloc_sizes = [32, 64, 96, 128, 192, 256, 512, 1024, 2048, 4096, 8192, 16384, 32768, 65536, 131072]"

definition cache_names :: "string list" where
  "cache_names = [''size-32'', ''size-64'', ''size-96'', ''size-128'', ''size-192'', ''size-256'', ''size-512'',
     ''size-1024'', ''size-2048'', ''size-4096'', ''size-8192'', ''size-16384'', ''size-32768'',
     ''size-65536'', ''size-131072'']"

definition upd_cache :: "u32 \<Rightarrow> (kmem_cache \<Rightarrow> kmem_cache) \<Rightarrow> slab_state \<Rightarrow> slab_state" where
  "upd_cache c f S = S\<lparr>caches := (caches S)(c := f (caches S c))\<rparr>"

definition upd_slab :: "u32 \<Rightarrow> (slab_desc \<Rightarrow> slab_desc) \<Rightarrow> slab_state \<Rightarrow> slab_state" where
  "upd_slab s f S = S\<lparr>slabs := (slabs S)(s := f (slabs S s))\<rparr>"

definition upd_slists :: "(snode list_heap \<Rightarrow> snode list_heap) \<Rightarrow> slab_state \<Rightarrow> slab_state" where
  "upd_slists f S = S\<lparr>slists := f (slists S)\<rparr>"

definition OFF_SLAB :: "kmem_cache \<Rightarrow> bool" where
  "OFF_SLAB c \<longleftrightarrow> (cflags c AND CFLGS_OFF_SLAB) \<noteq> 0"

section \<open>Sizes\<close>

definition slab_mgmt_size :: "u32 \<Rightarrow> u32" where
  "slab_mgmt_size align = ALIGN sizeof_slab align"

definition cache_estimate :: "nat \<Rightarrow> u32 \<Rightarrow> u32 \<Rightarrow> u32 \<Rightarrow> (u32 \<times> u32) option" where
  "cache_estimate order osize align fl =
     (let slab_bytes = push_bit order 4096 in
      if osize = 0 then None
      else if (fl AND CFLGS_OFF_SLAB) \<noteq> 0
      then let nr_objs = slab_bytes div osize in Some (slab_bytes - nr_objs * osize - 0, nr_objs)
      else let nr_objs = (slab_bytes - sizeof_slab) div osize;
               nr_objs = (if slab_mgmt_size align + nr_objs * osize > slab_bytes then nr_objs - 1 else nr_objs)
           in Some (slab_bytes - nr_objs * osize - slab_mgmt_size align, nr_objs))"

fun slab_order_from :: "nat \<Rightarrow> nat \<Rightarrow> u32 \<Rightarrow> u32 \<Rightarrow> u32 \<Rightarrow> (u32 \<times> u32 \<times> nat) option" where
  "slab_order_from 0 order osize align fl = do {
     (left, n) \<leftarrow> cache_estimate order osize align fl;
     Some (left, n, if n = 0 then Suc order else order)
   }"
| "slab_order_from (Suc k) order osize align fl = do {
     (left, n) \<leftarrow> cache_estimate order osize align fl;
     if n = 0 then slab_order_from k (Suc order) osize align fl else Some (left, n, order)
   }"

definition calculate_slab_order :: "u32 \<Rightarrow> u32 \<Rightarrow> u32 \<Rightarrow> (u32 \<times> u32 \<times> nat) option" where
  "calculate_slab_order osize align fl = slab_order_from KMALLOC_MAX_ORDER 0 osize align fl"

section \<open>Pages of a slab\<close>

primrec upd_pages :: "nat \<Rightarrow> nat \<Rightarrow> (page \<Rightarrow> page) \<Rightarrow> zone \<Rightarrow> zone option" where
  "upd_pages 0 first f z = Some z"
| "upd_pages (Suc n) first f z = do { z \<leftarrow> upd_pages n first f z; upd_page (first + n) f z }"

definition kmem_getpages :: "u32 \<Rightarrow> u32 \<Rightarrow> slab_state \<Rightarrow> (u32 \<times> slab_state) option" where
  "kmem_getpages cachep fl S = do {
     let c = caches S cachep;
     (page, z) \<leftarrow> alloc_pages (szone S) (fl OR gfpflags c) (unat (gfporder c));
     (case page of
        None \<Rightarrow> Some (0, S\<lparr>szone := z\<rparr>)
      | Some p \<Rightarrow> do {
          z \<leftarrow> upd_pages (2 ^ unat (gfporder c)) p SetPageSlab z;
          Some (page_address p, S\<lparr>szone := z\<rparr>)
        })
   }"

definition kmem_freepages :: "u32 \<Rightarrow> u32 \<Rightarrow> slab_state \<Rightarrow> slab_state option" where
  "kmem_freepages cachep addr S = do {
     let c = caches S cachep;
     let page = virt_to_page (zone_start_pfn (szone S)) addr;
     z \<leftarrow> upd_pages (2 ^ unat (gfporder c)) page ClearPageSlab (szone S);
     z \<leftarrow> free_pages_op z page (unat (gfporder c));
     Some (S\<lparr>szone := z\<rparr>)
   }"

definition page_set_cache :: "nat \<Rightarrow> u32 \<Rightarrow> zone \<Rightarrow> zone" where
  "page_set_cache page cachep z = upd_lists (set_next (LRU page) (Ext cachep)) z"

definition page_set_slab :: "nat \<Rightarrow> u32 \<Rightarrow> zone \<Rightarrow> zone" where
  "page_set_slab page slabp z = upd_lists (set_prev (LRU page) (Ext slabp)) z"

primrec map_pages :: "nat \<Rightarrow> nat \<Rightarrow> u32 \<Rightarrow> u32 \<Rightarrow> zone \<Rightarrow> zone option" where
  "map_pages 0 first cachep slabp z = Some z"
| "map_pages (Suc n) first cachep slabp z = do {
     z \<leftarrow> map_pages n first cachep slabp z;
     z \<leftarrow> upd_page (first + n) (\<lambda>p. p\<lparr>first_page := Some first\<rparr>) z;
     Some (page_set_slab (first + n) slabp (page_set_cache (first + n) cachep z))
   }"

definition slab_map_pages :: "u32 \<Rightarrow> u32 \<Rightarrow> u32 \<Rightarrow> slab_state \<Rightarrow> slab_state option" where
  "slab_map_pages cachep slabp objp S = do {
     let page = virt_to_page (zone_start_pfn (szone S)) objp;
     z \<leftarrow> map_pages (2 ^ unat (gfporder (caches S cachep))) page cachep slabp (szone S);
     Some (S\<lparr>szone := z\<rparr>)
   }"

fun ext_addr :: "bnode \<Rightarrow> u32 option" where
  "ext_addr (Ext a) = Some a"
| "ext_addr NULLP = Some 0"
| "ext_addr _ = None"

definition virt_to_slab :: "u32 \<Rightarrow> slab_state \<Rightarrow> u32 option" where
  "virt_to_slab obj S = do {
     p \<leftarrow> get_page (szone S) (virt_to_page (zone_start_pfn (szone S)) obj);
     head \<leftarrow> first_page p;
     ext_addr (prev_of (lists (szone S)) (LRU head))
   }"

definition page_cache_of :: "u32 \<Rightarrow> slab_state \<Rightarrow> u32 option" where
  "page_cache_of obj S = ext_addr (next_of (lists (szone S)) (LRU (virt_to_page (zone_start_pfn (szone S)) obj)))"

section \<open>Objects of a slab\<close>

text \<open>The constructor pointer is null for every cache the kernel creates; calling another one is
  outside the model.\<close>

fun init_objs :: "nat \<Rightarrow> u32 \<Rightarrow> u32 \<Rightarrow> slab_state \<Rightarrow> slab_state" where
  "init_objs 0 cachep slabp S = S"
| "init_objs (Suc i) cachep slabp S =
     (let objp = s_mem (slabs S slabp) + of_nat i * objsize (caches S cachep);
          S = S\<lparr>obj_word := (obj_word S)(objp := free_list (slabs S slabp))\<rparr>;
          S = upd_slab slabp (\<lambda>s. s\<lparr>free_list := objp\<rparr>) S
      in init_objs i cachep slabp S)"

definition cache_init_objs :: "u32 \<Rightarrow> u32 \<Rightarrow> slab_state \<Rightarrow> slab_state option" where
  "cache_init_objs cachep slabp S =
     (let S = upd_slab slabp (\<lambda>s. s\<lparr>free_list := 0\<rparr>) S in
      if ctor (caches S cachep) \<noteq> 0 \<and> num (caches S cachep) \<noteq> 0 then None
      else Some (init_objs (unat (num (caches S cachep))) cachep slabp S))"

definition slab_get_obj :: "u32 \<Rightarrow> u32 \<Rightarrow> slab_state \<Rightarrow> u32 \<times> slab_state" where
  "slab_get_obj cachep slabp S =
     (let objp = free_list (slabs S slabp);
          S = upd_slab slabp (\<lambda>s. s\<lparr>free_list := obj_word S objp\<rparr>) S;
          S = upd_slab slabp (\<lambda>s. s\<lparr>inuse := inuse s + 1\<rparr>) S;
          S = upd_cache cachep (\<lambda>c. c\<lparr>free_objects := free_objects c - 1\<rparr>) S
      in (objp, S))"

definition slab_put_obj :: "u32 \<Rightarrow> u32 \<Rightarrow> slab_state \<Rightarrow> slab_state" where
  "slab_put_obj slabp objp S =
     (let S = S\<lparr>obj_word := (obj_word S)(objp := free_list (slabs S slabp))\<rparr>
      in upd_slab slabp (\<lambda>s. s\<lparr>free_list := objp, inuse := inuse s - 1\<rparr>) S)"

fun slab_entry :: "snode \<Rightarrow> u32 option" where
  "slab_entry (SlabList s) = Some s"
| "slab_entry _ = None"

definition kmem_list3_init :: "u32 \<Rightarrow> slab_state \<Rightarrow> slab_state" where
  "kmem_list3_init c S =
     (let S = upd_slists (\<lambda>h. INIT_LIST_HEAD (Free c) (INIT_LIST_HEAD (Partial c) (INIT_LIST_HEAD (Full c) h))) S
      in upd_cache c (\<lambda>x. x\<lparr>free_objects := 0\<rparr>) S)"

definition display_kmemlist :: "u32 \<Rightarrow> slab_state \<Rightarrow> unit option" where
  "display_kmemlist c S = do {
     _ \<leftarrow> list_for_each (slists S) (Partial c);
     _ \<leftarrow> list_for_each (slists S) (Full c);
     _ \<leftarrow> list_for_each (slists S) (Free c);
     Some ()
   }"

section \<open>Allocation\<close>

text \<open>
  \<^verbatim>\<open>kmem_cache_alloc\<close>, \<^verbatim>\<open>cache_alloc_refill\<close>, \<^verbatim>\<open>cache_grow\<close> and \<^verbatim>\<open>alloc_slabmgmt\<close> call each other: a
  cache with external slab descriptors allocates them from another cache.  The first argument
  bounds the nesting.
\<close>

definition alloc_slabmgmt :: "(u32 \<Rightarrow> u32 \<Rightarrow> slab_state \<Rightarrow> (u32 \<times> slab_state) option) \<Rightarrow>
    u32 \<Rightarrow> u32 \<Rightarrow> u32 \<Rightarrow> u32 \<Rightarrow> slab_state \<Rightarrow> (u32 \<times> slab_state) option" where
  "alloc_slabmgmt alloc cachep objp col fl S = do {
     (slabp, col, S) \<leftarrow>
       (if OFF_SLAB (caches S cachep)
        then do { (slabp, S) \<leftarrow> alloc (slabp_cache (caches S cachep)) fl S; Some (slabp, col, S) }
        else Some (objp + col, col + slab_size (caches S cachep), S));
     if slabp = 0 \<and> OFF_SLAB (caches S cachep) then Some (0, S)
     else do {
       let S = upd_slists (INIT_LIST_HEAD (SlabList slabp)) S;
       let S = upd_slab slabp (\<lambda>_. \<lparr>colouroff = col, s_mem = objp + col, inuse = 0, sfree = 0, free_list = 0\<rparr>) S;
       Some (slabp, S)
     }
   }"

definition grow_slab :: "(u32 \<Rightarrow> u32 \<Rightarrow> slab_state \<Rightarrow> (u32 \<times> slab_state) option) \<Rightarrow>
    u32 \<Rightarrow> u32 \<Rightarrow> u32 \<Rightarrow> u32 \<Rightarrow> slab_state \<Rightarrow> (bool \<times> slab_state) option" where
  "grow_slab alloc cachep fl objp offset S = do {
       (slabp, S) \<leftarrow> alloc_slabmgmt alloc cachep objp offset fl S;
       if slabp = 0 then do { S \<leftarrow> kmem_freepages cachep objp S; Some (False, S) }
       else do {
         S \<leftarrow> slab_map_pages cachep slabp objp S;
         S \<leftarrow> cache_init_objs cachep slabp S;
         let S = upd_slists (list_add_tail (Free cachep) (SlabList slabp)) S;
         let S = upd_cache cachep (\<lambda>c. c\<lparr>free_objects := free_objects c + num c\<rparr>) S;
         Some (True, S)
       }
     }"

definition cache_grow :: "(u32 \<Rightarrow> u32 \<Rightarrow> slab_state \<Rightarrow> (u32 \<times> slab_state) option) \<Rightarrow>
    u32 \<Rightarrow> u32 \<Rightarrow> u32 \<Rightarrow> slab_state \<Rightarrow> (bool \<times> slab_state) option" where
  "cache_grow alloc cachep fl objp S = do {
     let offset = colour_next (caches S cachep);
     let S = upd_cache cachep (\<lambda>c. c\<lparr>colour_next := colour_next c + 1\<rparr>) S;
     let S = (if colour_next (caches S cachep) \<ge> colour (caches S cachep)
              then upd_cache cachep (\<lambda>c. c\<lparr>colour_next := 0\<rparr>) S else S);
     let offset = offset * colour_off (caches S cachep);
     (objp, S) \<leftarrow> (if objp = 0 then kmem_getpages cachep fl S else Some (objp, S));
     if objp = 0 then Some (False, S) else grow_slab alloc cachep fl objp offset S
   }"

definition refill_slab :: "(u32 \<Rightarrow> u32 \<Rightarrow> slab_state \<Rightarrow> (u32 \<times> slab_state) option) \<Rightarrow>
    u32 \<Rightarrow> u32 \<Rightarrow> slab_state \<Rightarrow> (u32 option \<times> slab_state) option" where
  "refill_slab alloc cachep fl S =
     (if next_of (slists S) (Partial cachep) = Partial cachep then do {
        (x, S) \<leftarrow> (if next_of (slists S) (Free cachep) = Free cachep
                   then cache_grow alloc cachep fl 0 S else Some (True, S));
        if \<not> x then Some (None, S)
        else do {
          slabp \<leftarrow> slab_entry (next_of (slists S) (Free cachep));
          let S = upd_slists (list_del (SlabList slabp)) S;
          let S = upd_slists (list_add (Partial cachep) (SlabList slabp)) S;
          Some (Some slabp, S)
        }
      } else do {
        slabp \<leftarrow> slab_entry (next_of (slists S) (Partial cachep));
        Some (Some slabp, S)
      })"

definition refill_take :: "u32 \<Rightarrow> u32 \<Rightarrow> slab_state \<Rightarrow> (u32 \<times> slab_state) option" where
  "refill_take cachep slabp S = do {
     let (objp, S) = slab_get_obj cachep slabp S;
     let S = (if free_list (slabs S slabp) = 0
              then upd_slists (list_add (Full cachep) (SlabList slabp))
                     (upd_slists (list_del (SlabList slabp)) S)
              else S);
     _ \<leftarrow> display_kmemlist cachep S;
     Some (objp, S)
   }"

definition cache_alloc_refill :: "(u32 \<Rightarrow> u32 \<Rightarrow> slab_state \<Rightarrow> (u32 \<times> slab_state) option) \<Rightarrow>
    u32 \<Rightarrow> u32 \<Rightarrow> slab_state \<Rightarrow> (u32 \<times> slab_state) option" where
  "cache_alloc_refill alloc cachep fl S = do {
     _ \<leftarrow> display_kmemlist cachep S;
     (r, S) \<leftarrow> refill_slab alloc cachep fl S;
     (case r of None \<Rightarrow> Some (0, S) | Some slabp \<Rightarrow> refill_take cachep slabp S)
   }"

primrec kmem_cache_alloc :: "nat \<Rightarrow> u32 \<Rightarrow> u32 \<Rightarrow> slab_state \<Rightarrow> (u32 \<times> slab_state) option" where
  "kmem_cache_alloc 0 cachep fl S = None"
| "kmem_cache_alloc (Suc d) cachep fl S = cache_alloc_refill (kmem_cache_alloc d) cachep fl S"

section \<open>Freeing\<close>

definition slab_destroy :: "(u32 \<Rightarrow> u32 \<Rightarrow> slab_state \<Rightarrow> slab_state option) \<Rightarrow>
    u32 \<Rightarrow> u32 \<Rightarrow> slab_state \<Rightarrow> slab_state option" where
  "slab_destroy free cachep slabp S =
     (if dtor (caches S cachep) \<noteq> 0 \<and> num (caches S cachep) \<noteq> 0 then None
      else if OFF_SLAB (caches S cachep) then do {
        S \<leftarrow> kmem_freepages cachep (s_mem (slabs S slabp)) S;
        free (slabp_cache (caches S cachep)) slabp S
      } else kmem_freepages cachep (s_mem (slabs S slabp) - colouroff (slabs S slabp)) S)"

primrec kmem_cache_free :: "nat \<Rightarrow> u32 \<Rightarrow> u32 \<Rightarrow> slab_state \<Rightarrow> slab_state option" where
  "kmem_cache_free 0 cachep objp S = None"
| "kmem_cache_free (Suc d) cachep objp S = do {
     slabp \<leftarrow> virt_to_slab objp S;
     let was_full = (inuse (slabs S slabp) = num (caches S cachep));
     let S = slab_put_obj slabp objp S;
     let S = upd_cache cachep (\<lambda>c. c\<lparr>free_objects := free_objects c + 1\<rparr>) S;
     if inuse (slabs S slabp) = 0 then do {
       let S = upd_slists (list_del (SlabList slabp)) S;
       if free_objects (caches S cachep) > free_limit (caches S cachep) then do {
         let S = upd_cache cachep (\<lambda>c. c\<lparr>free_objects := free_objects c - num c\<rparr>) S;
         slab_destroy (kmem_cache_free d) cachep slabp S
       } else Some (upd_slists (list_add (Free cachep) (SlabList slabp)) S)
     } else if was_full
       then Some (upd_slists (list_add_tail (Partial cachep) (SlabList slabp))
                    (upd_slists (list_del (SlabList slabp)) S))
       else Some S
   }"

section \<open>Creating caches\<close>

definition round_word :: "u32 \<Rightarrow> u32" where
  "round_word osize =
     (if (osize AND (BYTES_PER_WORD - 1)) \<noteq> 0
      then (osize + (BYTES_PER_WORD - 1)) AND NOT (BYTES_PER_WORD - 1) else osize)"

partial_function (option) shrink_align :: "u32 \<Rightarrow> u32 \<Rightarrow> u32 option" where
  "shrink_align osize ralign =
     (if osize \<le> ralign div 2 then shrink_align osize (ralign div 2) else Some ralign)"

definition finish_cache :: "u32 \<Rightarrow> string \<Rightarrow> u32 \<Rightarrow> u32 \<Rightarrow> u32 \<Rightarrow> u32 \<Rightarrow> u32 \<Rightarrow> slab_state \<Rightarrow> slab_state" where
  "finish_cache cachep name osize align fl ctorp left_over S =
     (let S = upd_cache cachep (\<lambda>c. c\<lparr>free_limit := num c\<rparr>) S;
          ssize = (if (fl AND CFLGS_OFF_SLAB) \<noteq> 0 then sizeof_slab else ALIGN sizeof_slab align);
          coff = (if cache_line_size < align then align else cache_line_size);
          S = upd_cache cachep (\<lambda>c. c\<lparr>colour_off := coff, colour := left_over div coff, slab_size := ssize,
            cflags := fl, objsize := osize, ctor := ctorp, cname := name\<rparr>) S;
          S = upd_cache cachep (\<lambda>c. c\<lparr>slabp_cache := slabp_cache (caches S (cache_cache S))\<rparr>) S;
          S = upd_slists (INIT_LIST_HEAD (CacheNext cachep)) S
      in upd_slists (list_add CacheChain (CacheNext cachep)) S)"

definition fill_cache :: "u32 \<Rightarrow> string \<Rightarrow> u32 \<Rightarrow> u32 \<Rightarrow> u32 \<Rightarrow> u32 \<Rightarrow> slab_state \<Rightarrow> (u32 \<times> slab_state) option" where
  "fill_cache cachep name osize align fl ctorp S = do {
     let S = kmem_list3_init cachep S;
     let S = upd_cache cachep (\<lambda>c. c\<lparr>objsize := osize\<rparr>) S;
     let osize = ALIGN osize align;
     (left_over, n, order) \<leftarrow> calculate_slab_order osize align fl;
     let S = upd_cache cachep (\<lambda>c. c\<lparr>num := n, gfporder := of_nat order\<rparr>) S;
     if n = 0 then do { S \<leftarrow> kmem_cache_free 2 (cache_cache S) cachep S; Some (0, S) }
     else Some (cachep, finish_cache cachep name osize align fl ctorp left_over S)
   }"

definition kmem_cache_create ::
    "string \<Rightarrow> u32 \<Rightarrow> u32 \<Rightarrow> u32 \<Rightarrow> u32 \<Rightarrow> slab_state \<Rightarrow> (u32 \<times> slab_state) option" where
  "kmem_cache_create name osize align fl ctorp S = do {
     let osize = round_word osize;
     ralign \<leftarrow> (if (fl AND SLAB_HWCACHE_ALIGN) \<noteq> 0 then shrink_align osize cache_line_size
                else Some BYTES_PER_WORD);
     (cachep, S) \<leftarrow> kmem_cache_alloc 2 (cache_cache S) 0 S;
     if cachep = 0 then Some (0, S) else fill_cache cachep name osize align fl ctorp S
   }"

fun create_size_caches :: "(string \<times> u32) list \<Rightarrow> slab_state \<Rightarrow> slab_state option" where
  "create_size_caches [] S = Some S"
| "create_size_caches ((name, osize) # cs) S = do {
     (c, S) \<leftarrow> kmem_cache_create name osize KMALLOC_MINALIGN (CFLGS_OFF_SLAB OR SLAB_HWCACHE_ALIGN) 0 S;
     let S = S\<lparr>cs_cachep := cs_cachep S @ [c]\<rparr>;
     if c = 0 then Some S else create_size_caches cs S
   }"

definition kmem_cache_init :: "string \<Rightarrow> u32 \<Rightarrow> u32 \<Rightarrow> u32 \<Rightarrow> slab_state \<Rightarrow> slab_state option" where
  "kmem_cache_init name osize ctorp dtorp S = do {
     let cachep = cache_cache S;
     let S = upd_slists (INIT_LIST_HEAD CacheChain) S;
     let S = upd_slists (INIT_LIST_HEAD (CacheNext cachep)) S;
     let S = upd_slists (list_add CacheChain (CacheNext cachep)) S;
     let osize = ALIGN osize cache_line_size;
     let S = upd_cache cachep (\<lambda>c. c\<lparr>colour_off := cache_line_size, objsize := osize, cname := name\<rparr>) S;
     let S = kmem_list3_init cachep S;
     let S = upd_cache cachep (\<lambda>c. c\<lparr>ctor := ctorp, dtor := dtorp\<rparr>) S;
     (left_over, n, order) \<leftarrow> calculate_slab_order osize cache_line_size 0;
     let S = upd_cache cachep (\<lambda>c. c\<lparr>num := n, gfporder := of_nat order,
       colour := left_over div cache_line_size, colour_next := 0,
       slab_size := ALIGN sizeof_slab cache_line_size, free_limit := n\<rparr>) S;
     (sc, S) \<leftarrow> kmem_cache_create ''slab_cache'' sizeof_slab KMALLOC_MINALIGN SLAB_HWCACHE_ALIGN 0 S;
     let S = upd_cache cachep (\<lambda>c. c\<lparr>slabp_cache := sc\<rparr>) S;
     create_size_caches (zip cache_names malloc_sizes) S
   }"

definition init_slab :: "slab_state \<Rightarrow> slab_state option" where
  "init_slab S = kmem_cache_init ''kmem_cache'' sizeof_kmem_cache 0 0 S"

section \<open>General allocation\<close>

definition kmem_cache_zalloc :: "u32 \<Rightarrow> u32 \<Rightarrow> slab_state \<Rightarrow> (u32 \<times> slab_state) option" where
  "kmem_cache_zalloc cachep fl S = do {
     (objp, S) \<leftarrow> kmem_cache_alloc 2 cachep fl S;
     if objp = 0 then Some (0, S) else Some (objp, S\<lparr>obj_word := (obj_word S)(objp := 0)\<rparr>)
   }"

fun size_class :: "u32 \<Rightarrow> (u32 \<times> u32) list \<Rightarrow> u32 option" where
  "size_class req [] = None"
| "size_class req ((cs, c) # xs) = (if req > cs then size_class req xs else Some c)"

definition kmalloc :: "u32 \<Rightarrow> u32 \<Rightarrow> slab_state \<Rightarrow> (u32 \<times> slab_state) option" where
  "kmalloc req fl S =
     (case size_class req (zip malloc_sizes (cs_cachep S)) of
        None \<Rightarrow> Some (0, S)
      | Some c \<Rightarrow> kmem_cache_alloc 2 c fl S)"

definition kfree :: "u32 \<Rightarrow> slab_state \<Rightarrow> slab_state option" where
  "kfree objp S =
     (if objp = 0 then Some S
      else do { cachep \<leftarrow> page_cache_of objp S; kmem_cache_free 2 cachep objp S })"

end
