(* ===== verification/Slab_Cache.thy ===== *)
theory Slab_Cache
  imports Slab
begin

text \<open>
  The invariant of a cache and its preservation by allocation from existing slabs and by freeing.

  \<open>F s\<close> is the list of free objects of slab \<open>s\<close> in the order of its free chain and \<open>H\<close> the contents of
  the three lists of slabs.  \<open>cache_core\<close> ties descriptors, chains, counters and lists together;
  \<open>slabs_sorted\<close> says that every slab is on the list its number of free objects calls for.
\<close>

section \<open>Invariant of a cache\<close>

fun fchain :: "(u32 \<Rightarrow> u32) \<Rightarrow> u32 \<Rightarrow> u32 list \<Rightarrow> bool" where
  "fchain w p [] \<longleftrightarrow> p = 0"
| "fchain w p (x # xs) \<longleftrightarrow> p = x \<and> x \<noteq> 0 \<and> fchain w (w x) xs"

definition objs :: "kmem_cache \<Rightarrow> slab_desc \<Rightarrow> u32 set" where
  "objs c s = (\<lambda>i. s_mem s + of_nat i * objsize c) ` {..<unat (num c)}"

definition slab_inv :: "u32 \<Rightarrow> slab_state \<Rightarrow> u32 \<Rightarrow> u32 list \<Rightarrow> bool" where
  "slab_inv c S s xs \<longleftrightarrow>
     (let os = objs (caches S c) (slabs S s) in
      fchain (obj_word S) (free_list (slabs S s)) xs \<and> distinct xs \<and> set xs \<subseteq> os \<and> 0 \<notin> os \<and>
      card os = unat (num (caches S c)) \<and>
      unat (inuse (slabs S s)) + length xs = unat (num (caches S c)) \<and>
      (\<forall>p \<in> os. virt_to_slab p S = Some s))"

definition cache_heads :: "u32 \<Rightarrow> snode set" where
  "cache_heads c = {Partial c, Full c, Free c}"

definition cache_slabs :: "u32 \<Rightarrow> (snode \<Rightarrow> snode list) \<Rightarrow> u32 set" where
  "cache_slabs c H = {s. \<exists>a \<in> cache_heads c. SlabList s \<in> set (H a)}"

definition cache_core :: "u32 \<Rightarrow> slab_state \<Rightarrow> snode set \<Rightarrow> (snode \<Rightarrow> snode list) \<Rightarrow> (u32 \<Rightarrow> u32 list) \<Rightarrow> bool" where
  "cache_core c S A H F \<longleftrightarrow>
     dlists (slists S) A H \<and> cache_heads c \<subseteq> A \<and>
     (\<forall>a \<in> cache_heads c. set (H a) \<subseteq> range SlabList) \<and>
     (\<forall>s \<in> cache_slabs c H. slab_inv c S s (F s)) \<and>
     (\<forall>s \<in> cache_slabs c H. \<forall>t \<in> cache_slabs c H. s \<noteq> t \<longrightarrow>
        objs (caches S c) (slabs S s) \<inter> objs (caches S c) (slabs S t) = {}) \<and>
     0 < num (caches S c) \<and>
     free_objects (caches S c) = of_nat (\<Sum>s \<in> cache_slabs c H. length (F s))"

definition slabs_sorted :: "u32 \<Rightarrow> nat \<Rightarrow> (snode \<Rightarrow> snode list) \<Rightarrow> (u32 \<Rightarrow> u32 list) \<Rightarrow> bool" where
  "slabs_sorted c n H F \<longleftrightarrow>
     (\<forall>s. SlabList s \<in> set (H (Partial c)) \<longrightarrow> F s \<noteq> [] \<and> length (F s) < n) \<and>
     (\<forall>s. SlabList s \<in> set (H (Full c)) \<longrightarrow> F s = []) \<and>
     (\<forall>s. SlabList s \<in> set (H (Free c)) \<longrightarrow> length (F s) = n)"

definition cache_inv :: "u32 \<Rightarrow> slab_state \<Rightarrow> snode set \<Rightarrow> (snode \<Rightarrow> snode list) \<Rightarrow> (u32 \<Rightarrow> u32 list) \<Rightarrow> bool" where
  "cache_inv c S A H F \<longleftrightarrow> cache_core c S A H F \<and> slabs_sorted c (unat (num (caches S c))) H F"

definition all_objs :: "u32 \<Rightarrow> slab_state \<Rightarrow> (snode \<Rightarrow> snode list) \<Rightarrow> u32 set" where
  "all_objs c S H = (\<Union>s \<in> cache_slabs c H. objs (caches S c) (slabs S s))"

definition free_objs :: "u32 \<Rightarrow> (snode \<Rightarrow> snode list) \<Rightarrow> (u32 \<Rightarrow> u32 list) \<Rightarrow> u32 set" where
  "free_objs c H F = (\<Union>s \<in> cache_slabs c H. set (F s))"

section \<open>Lemmas\<close>

lemma unat_u32_less: "unat (x :: u32) < 4294967296"
  using unsigned_less [of x, where 'a = nat] by simp

lemma fchain_other: "p \<notin> set xs \<Longrightarrow> fchain (w(p := v)) q xs = fchain w q xs"
  by (induction xs arbitrary: q) auto

lemma upd_simps [simp]:
  "szone (upd_cache c f S) = szone S" "szone (upd_slab s g S) = szone S" "szone (upd_slists h S) = szone S"
  "slabs (upd_cache c f S) = slabs S" "slabs (upd_slists h S) = slabs S"
  "caches (upd_slab s g S) = caches S" "caches (upd_slists h S) = caches S"
  "obj_word (upd_cache c f S) = obj_word S" "obj_word (upd_slab s g S) = obj_word S"
  "obj_word (upd_slists h S) = obj_word S"
  "slists (upd_cache c f S) = slists S" "slists (upd_slab s g S) = slists S"
  "slists (upd_slists h S) = h (slists S)"
  "slabs (upd_slab s g S) = (slabs S)(s := g (slabs S s))"
  "caches (upd_cache c f S) = (caches S)(c := f (caches S c))"
  by (simp_all add: upd_cache_def upd_slab_def upd_slists_def)

lemma virt_to_slab_zone: "szone S' = szone S \<Longrightarrow> virt_to_slab p S' = virt_to_slab p S"
  by (simp add: virt_to_slab_def)

lemma objs_cong:
  "num c' = num c \<Longrightarrow> objsize c' = objsize c \<Longrightarrow> s_mem s' = s_mem s \<Longrightarrow> objs c' s' = objs c s"
  by (simp add: objs_def)

lemma finite_objs [simp]: "finite (objs c s)"
  by (simp add: objs_def)

lemma finite_cache_slabs [simp]: "finite (cache_slabs c H)"
proof -
  have "cache_slabs c H \<subseteq> (\<Union>a \<in> cache_heads c. {s. SlabList s \<in> set (H a)})" by (auto simp: cache_slabs_def)
  moreover have "finite {s. SlabList s \<in> set xs}" for xs
    by (rule finite_subset [OF _ finite_imageI [OF finite_set [of xs], of "\<lambda>x. case x of SlabList s \<Rightarrow> s | _ \<Rightarrow> 0"]]) force
  ultimately show ?thesis by (auto intro: finite_subset simp: cache_heads_def)
qed

definition same_slabs :: "u32 \<Rightarrow> (snode \<Rightarrow> snode list) \<Rightarrow> (snode \<Rightarrow> snode list) \<Rightarrow> bool" where
  "same_slabs c H H' \<longleftrightarrow> cache_slabs c H' = cache_slabs c H \<and> (\<forall>b. b \<notin> cache_heads c \<longrightarrow> H' b = H b)"

lemma same_slabs_refl [simp]: "same_slabs c H H"
  by (simp add: same_slabs_def)

lemma same_slabs_trans: "same_slabs c H H' \<Longrightarrow> same_slabs c H' H'' \<Longrightarrow> same_slabs c H H''"
  by (simp add: same_slabs_def)

lemma cache_slabs_move:
  assumes "a \<in> cache_heads c" "b \<in> cache_heads c" "a \<noteq> b" "SlabList s \<in> set (H a)" "distinct (H a)"
    and "set ys = insert (SlabList s) (set (H b))"
  shows "same_slabs c H (H(a := remove1 (SlabList s) (H a), b := ys))"
proof -
  have "(\<exists>d \<in> cache_heads c. SlabList x \<in> set ((H(a := remove1 (SlabList s) (H a), b := ys)) d)) \<longleftrightarrow>
    (\<exists>d \<in> cache_heads c. SlabList x \<in> set (H d))" for x
    using assms by (cases "x = s") (fastforce split: if_splits)+
  then show ?thesis using assms(1,2) by (auto simp: same_slabs_def cache_slabs_def)
qed

lemma core_distinct: "cache_core c S A H F \<Longrightarrow> a \<in> cache_heads c \<Longrightarrow> distinct (H a)"
  using kl.inv_distinct [of "slists S" A H a] by (auto simp: cache_core_def)

lemma core_moved:
  assumes C: "cache_core c S A H F" and heads: "a \<in> cache_heads c" "b \<in> cache_heads c" "a \<noteq> b"
    and s: "SlabList s \<in> set (H a)" and ys: "set ys = insert (SlabList s) (set (H b))"
    and D: "dlists h A (H(a := remove1 (SlabList s) (H a), b := ys))"
  shows "cache_core c (S\<lparr>slists := h\<rparr>) A (H(a := remove1 (SlabList s) (H a), b := ys)) F"
proof -
  have "a \<in> A" using C heads by (auto simp: cache_core_def)
  then have dist: "distinct (H a)" using C kl.inv_distinct by (fastforce simp: cache_core_def)
  note cs = cache_slabs_move [OF heads s dist ys, unfolded same_slabs_def, THEN conjunct1]
  have inv: "slab_inv c (S\<lparr>slists := h\<rparr>) t xs = slab_inv c S t xs" for t xs
    by (simp add: slab_inv_def virt_to_slab_def)
  have rng: "\<forall>d \<in> cache_heads c. set ((H(a := remove1 (SlabList s) (H a), b := ys)) d) \<subseteq> range SlabList"
    using C heads ys dist unfolding cache_core_def by (auto split: if_splits)
  show ?thesis using C D rng unfolding cache_core_def cs inv by simp
qed


lemma core_move:
  assumes C: "cache_core c S A H F" and heads: "a \<in> cache_heads c" "b \<in> cache_heads c" "a \<noteq> b"
    and s: "SlabList s \<in> set (H a)"
  shows "cache_core c (upd_slists (list_add b (SlabList s)) (upd_slists (list_del (SlabList s)) S)) A
      (H(a := remove1 (SlabList s) (H a), b := SlabList s # H b)) F"
    and "cache_core c (upd_slists (list_add_tail b (SlabList s)) (upd_slists (list_del (SlabList s)) S)) A
      (H(a := remove1 (SlabList s) (H a), b := H b @ [SlabList s])) F"
proof -
  have D: "dlists (slists S) A H" and A: "a \<in> A" "b \<in> A" using C heads by (auto simp: cache_core_def)
  show "cache_core c (upd_slists (list_add b (SlabList s)) (upd_slists (list_del (SlabList s)) S)) A
      (H(a := remove1 (SlabList s) (H a), b := SlabList s # H b)) F"
    using core_moved [OF C heads s _ kl.move [OF D A heads(3) s]] by (simp add: upd_slists_def)
  show "cache_core c (upd_slists (list_add_tail b (SlabList s)) (upd_slists (list_del (SlabList s)) S)) A
      (H(a := remove1 (SlabList s) (H a), b := H b @ [SlabList s])) F"
    using core_moved [OF C heads s _ kl.move_tail [OF D A heads(3) s]] by (simp add: upd_slists_def)
qed

lemma sum_upd:
  assumes "finite X" "s \<in> X"
  shows "(\<Sum>t \<in> X. length ((F(s := ys)) t)) + length (F s) = (\<Sum>t \<in> X. length (F t)) + length ys"
  using assms by (simp add: sum.remove [of X s])

lemma core_count: "cache_core c S A H F \<Longrightarrow> free_objects (caches S c) = of_nat (\<Sum>s \<in> cache_slabs c H. length (F s))"
  by (simp only: cache_core_def)

lemma core_step:
  assumes C: "cache_core c S A H F" and s: "s \<in> cache_slabs c H"
    and same: "slists S' = slists S" "szone S' = szone S" "num (caches S' c) = num (caches S c)"
      "objsize (caches S' c) = objsize (caches S c)" "\<And>t. s_mem (slabs S' t) = s_mem (slabs S t)"
    and inv: "slab_inv c S' s ys"
    and other: "\<And>t. t \<in> cache_slabs c H \<Longrightarrow> t \<noteq> s \<Longrightarrow> slab_inv c S' t (F t)"
    and cnt: "free_objects (caches S' c) + of_nat (length (F s)) = free_objects (caches S c) + of_nat (length ys)"
  shows "cache_core c S' A H (F(s := ys))"
proof -
  have os: "objs (caches S' c) (slabs S' t) = objs (caches S c) (slabs S t)" for t
    using same by (intro objs_cong) auto
  have "of_nat (\<Sum>t \<in> cache_slabs c H. length ((F(s := ys)) t)) + of_nat (length (F s)) =
      (of_nat (\<Sum>t \<in> cache_slabs c H. length (F t)) + of_nat (length ys) :: u32)"
    unfolding of_nat_add [symmetric] sum_upd [OF finite_cache_slabs s, of F ys] ..
  then have "free_objects (caches S' c) + of_nat (length (F s)) =
      of_nat (\<Sum>t \<in> cache_slabs c H. length ((F(s := ys)) t)) + of_nat (length (F s))"
    using cnt unfolding core_count [OF C] by (simp only:)
  then have "free_objects (caches S' c) = of_nat (\<Sum>t \<in> cache_slabs c H. length ((F(s := ys)) t))"
    by (simp only: add_right_cancel)
  moreover have "\<forall>t \<in> cache_slabs c H. slab_inv c S' t ((F(s := ys)) t)" using inv other by simp
  ultimately show ?thesis using C same unfolding cache_core_def os by (simp del: fun_upd_apply)
qed

lemma slab_invD:
  assumes "slab_inv c S s xs"
  shows "fchain (obj_word S) (free_list (slabs S s)) xs" "distinct xs"
    "set xs \<subseteq> objs (caches S c) (slabs S s)" "0 \<notin> objs (caches S c) (slabs S s)"
    "card (objs (caches S c) (slabs S s)) = unat (num (caches S c))"
    "unat (inuse (slabs S s)) + length xs = unat (num (caches S c))"
    "p \<in> objs (caches S c) (slabs S s) \<Longrightarrow> virt_to_slab p S = Some s"
  using assms by (auto simp: slab_inv_def Let_def)

definition same_layout :: "u32 \<Rightarrow> slab_state \<Rightarrow> slab_state \<Rightarrow> bool" where
  "same_layout c S S' \<longleftrightarrow>
     (\<exists>n. caches S' c = (caches S c)\<lparr>free_objects := n\<rparr>) \<and> szone S' = szone S \<and>
     (\<forall>t. s_mem (slabs S' t) = s_mem (slabs S t) \<and> colouroff (slabs S' t) = colouroff (slabs S t))"

lemma same_layout_trans: "same_layout c S S' \<Longrightarrow> same_layout c S' S'' \<Longrightarrow> same_layout c S S''"
  by (auto simp: same_layout_def)

lemma same_layout_lists [simp]: "same_layout c S (upd_slists f S') = same_layout c S S'"
  by (simp add: same_layout_def)

lemma same_layout_refl [simp]: "same_layout c S S"
  by (auto simp: same_layout_def intro!: exI [of _ "free_objects (caches S c)"])

lemma same_layout_objs:
  assumes "same_layout c S S'"
  shows "objs (caches S' c) (slabs S' t) = objs (caches S c) (slabs S t)" "num (caches S' c) = num (caches S c)"
  using assms by (auto simp: same_layout_def objs_def)

lemma get_obj_core:
  assumes C: "cache_core c S A H F" and s: "s \<in> cache_slabs c H" and F: "F s = p # xs"
  shows "\<exists>S'. slab_get_obj c s S = (p, S') \<and> cache_core c S' A H (F(s := xs)) \<and>
    free_list (slabs S' s) = (case xs of [] \<Rightarrow> 0 | q # _ \<Rightarrow> q) \<and> same_layout c S S'"
proof -
  have I: "slab_inv c S s (p # xs)" using C s F unfolding cache_core_def by metis
  note D = slab_invD [OF I]
  have p: "free_list (slabs S s) = p" "fchain (obj_word S) (obj_word S p) xs" using D(1) by auto
  obtain S' where S': "slab_get_obj c s S = (p, S')" using p by (simp add: slab_get_obj_def Let_def)
  then have eqs: "slists S' = slists S" "szone S' = szone S" "obj_word S' = obj_word S"
    "slabs S' = (slabs S)(s := (slabs S s)\<lparr>free_list := obj_word S p, inuse := inuse (slabs S s) + 1\<rparr>)"
    "caches S' = (caches S)(c := (caches S c)\<lparr>free_objects := free_objects (caches S c) - 1\<rparr>)"
    using p by (auto simp: slab_get_obj_def Let_def)
  have os: "objs (caches S' c) (slabs S' t) = objs (caches S c) (slabs S t)" for t
    using eqs by (intro objs_cong) auto
  have "unat (inuse (slabs S s) + 1) = unat (inuse (slabs S s)) + 1"
    using D(6) unat_plus [of "inuse (slabs S s)" 1] unat_u32_less [of "num (caches S c)"] by simp
  then have "slab_inv c S' s xs" using D p unfolding slab_inv_def os
    by (simp add: eqs virt_to_slab_zone [OF eqs(2)] Let_def)
  moreover have "slab_inv c S' t (F t)" if "t \<in> cache_slabs c H" "t \<noteq> s" for t
    using C that unfolding cache_core_def slab_inv_def os by (simp add: eqs virt_to_slab_zone [OF eqs(2)])
  ultimately have "cache_core c S' A H (F(s := xs))"
    by (intro core_step [OF C s]) (simp_all add: eqs F)
  moreover have "free_list (slabs S' s) = (case xs of [] \<Rightarrow> 0 | q # _ \<Rightarrow> q)"
    using p(2) by (cases xs) (auto simp: eqs)
  moreover have "same_layout c S S'" by (auto simp: same_layout_def eqs)
  ultimately show ?thesis using S' by auto
qed


lemma display_core: "cache_core c S A H F \<Longrightarrow> display_kmemlist c S = Some ()"
  unfolding cache_core_def cache_heads_def display_kmemlist_def
  by (auto simp: list_for_each_dlist [OF dlistsD [of _ A H]])

lemma on_one_head:
  assumes C: "cache_core c S A H F" and a: "a \<in> cache_heads c" and s: "SlabList s \<in> set (H a)"
  shows "SlabList t \<in> set (remove1 (SlabList s) (H a)) \<longleftrightarrow> t \<noteq> s \<and> SlabList t \<in> set (H a)"
    and "SlabList s \<in> set (H (Partial c)) \<longleftrightarrow> a = Partial c" and "SlabList s \<in> set (H (Full c)) \<longleftrightarrow> a = Full c"
    and "SlabList s \<in> set (H (Free c)) \<longleftrightarrow> a = Free c"
proof -
  have D: "dlists (slists S) A H" "a \<in> A" and A: "Partial c \<in> A" "Full c \<in> A" "Free c \<in> A"
    using assms by (auto simp: cache_core_def cache_heads_def)
  show "SlabList t \<in> set (remove1 (SlabList s) (H a)) \<longleftrightarrow> t \<noteq> s \<and> SlabList t \<in> set (H a)"
    using kl.inv_distinct [OF D] by auto
  show "SlabList s \<in> set (H (Partial c)) \<longleftrightarrow> a = Partial c" "SlabList s \<in> set (H (Full c)) \<longleftrightarrow> a = Full c"
    "SlabList s \<in> set (H (Free c)) \<longleftrightarrow> a = Free c"
    using A [THEN kl.on_one_list(2) [OF D _ s]] by auto
qed

lemma cache_heads_mem [simp]: "Partial c \<in> cache_heads c" "Full c \<in> cache_heads c" "Free c \<in> cache_heads c"
  by (auto simp: cache_heads_def)

lemma on_list_slab: "SlabList s \<in> set (H a) \<Longrightarrow> a \<in> cache_heads c \<Longrightarrow> s \<in> cache_slabs c H"
  by (auto simp: cache_slabs_def)

lemma refill_take_ok:
  assumes C: "cache_core c S A H F" and s: "SlabList s \<in> set (H (Partial c))" and F: "F s = p # xs"
    and len: "length (F s) \<le> unat (num (caches S c))"
    and sorted: "slabs_sorted c (unat (num (caches S c))) (H(Partial c := remove1 (SlabList s) (H (Partial c)))) F"
  shows "\<exists>S' H'. refill_take c s S = Some (p, S') \<and> cache_inv c S' A H' (F(s := xs)) \<and>
    same_slabs c H H' \<and> same_layout c S S'"
proof -
  have sl: "s \<in> cache_slabs c H" by (rule on_list_slab [of _ _ "Partial c"]) (use s in simp_all)
  obtain S1 where S1: "slab_get_obj c s S = (p, S1)" "cache_core c S1 A H (F(s := xs))"
    "free_list (slabs S1 s) = (case xs of [] \<Rightarrow> 0 | q # _ \<Rightarrow> q)" "same_layout c S S1"
    using get_obj_core [OF C sl F] by blast
  have num: "num (caches S1 c) = num (caches S c)" by (rule same_layout_objs(2) [OF S1(4)])
  note one = on_one_head [OF C _ s, simplified]
  show ?thesis
  proof (cases xs)
    case Nil
    let ?H = "H(Partial c := remove1 (SlabList s) (H (Partial c)), Full c := SlabList s # H (Full c))"
    let ?S = "upd_slists (list_add (Full c) (SlabList s)) (upd_slists (list_del (SlabList s)) S1)"
    have core: "cache_core c ?S A ?H (F(s := xs))" by (rule core_move(1) [OF S1(2)]) (use s in simp_all)
    moreover have "slabs_sorted c (unat (num (caches S c))) ?H (F(s := xs))"
      using sorted one Nil unfolding slabs_sorted_def by auto
    moreover have "same_slabs c H ?H"
      by (rule cache_slabs_move) (use s core_distinct [OF C] in simp_all)
    ultimately show ?thesis using S1 Nil num display_core [OF core]
      by (auto simp: refill_take_def cache_inv_def)
  next
    case (Cons q ys)
    then have "q \<noteq> 0"
      using C sl F slab_invD(1) [of c S s "F s"] unfolding cache_core_def by auto
    moreover have "slabs_sorted c (unat (num (caches S c))) H (F(s := xs))"
      using sorted one Cons len F unfolding slabs_sorted_def by auto
    ultimately show ?thesis using S1 Cons num display_core [OF S1(2)]
      by (auto simp: refill_take_def cache_inv_def)
  qed
qed


lemma head_slab:
  assumes C: "cache_core c S A H F" and a: "a \<in> cache_heads c"
  shows "next_of (slists S) a = a \<longleftrightarrow> H a = []"
    and "H a \<noteq> [] \<Longrightarrow> \<exists>s. next_of (slists S) a = SlabList s \<and> SlabList s \<in> set (H a)"
proof -
  have D: "dlists (slists S) A H" "a \<in> A" using assms by (auto simp: cache_core_def)
  show "next_of (slists S) a = a \<longleftrightarrow> H a = []"
    using dlist_next [OF dlistsD [OF D]] kl.inv_heads [OF D D(2)] hd_in_set [of "H a"]
    by (cases "H a") auto
  show "\<exists>s. next_of (slists S) a = SlabList s \<and> SlabList s \<in> set (H a)" if "H a \<noteq> []"
  proof -
    have mem: "hd (H a) \<in> set (H a)" using that by simp
    moreover have "set (H a) \<subseteq> range SlabList" using C a by (simp add: cache_core_def)
    ultimately obtain s where "hd (H a) = SlabList s" by blast
    then show ?thesis using kl.first_eq [OF D that] mem by auto
  qed
qed

lemma refill_slab_available:
  assumes C: "cache_core c S A H F" and sorted: "slabs_sorted c (unat (num (caches S c))) H F"
    and some: "H (Partial c) \<noteq> [] \<or> H (Free c) \<noteq> []"
  shows "\<exists>s S1 H1. refill_slab alloc c fl S = Some (Some s, S1) \<and> cache_core c S1 A H1 F \<and>
    SlabList s \<in> set (H1 (Partial c)) \<and> F s \<noteq> [] \<and> length (F s) \<le> unat (num (caches S c)) \<and>
    same_slabs c H H1 \<and>
    slabs_sorted c (unat (num (caches S c))) (H1(Partial c := remove1 (SlabList s) (H1 (Partial c)))) F \<and>
    same_layout c S S1"
proof (cases "H (Partial c) = []")
  case False
  then obtain s where s: "next_of (slists S) (Partial c) = SlabList s" "SlabList s \<in> set (H (Partial c))"
    using head_slab(2) [OF C, of "Partial c"] by auto
  have "slabs_sorted c (unat (num (caches S c))) (H(Partial c := remove1 (SlabList s) (H (Partial c)))) F"
    using sorted on_one_head(1) [OF C _ s(2)] by (auto simp: slabs_sorted_def)
  moreover have "F s \<noteq> []" "length (F s) \<le> unat (num (caches S c))"
    using s(2) sorted by (auto simp: slabs_sorted_def less_imp_le)
  ultimately show ?thesis using s C
    by (intro exI [of _ s] exI [of _ S] exI [of _ H]) (simp add: refill_slab_def)
next
  case True
  then obtain s where s: "next_of (slists S) (Free c) = SlabList s" "SlabList s \<in> set (H (Free c))"
    using some head_slab(2) [OF C, of "Free c"] by auto
  let ?H = "H(Free c := remove1 (SlabList s) (H (Free c)), Partial c := SlabList s # H (Partial c))"
  let ?S = "upd_slists (list_add (Partial c) (SlabList s)) (upd_slists (list_del (SlabList s)) S)"
  have "cache_core c ?S A ?H F" by (rule core_move(1) [OF C]) (use s in simp_all)
  moreover have "slabs_sorted c (unat (num (caches S c))) (?H(Partial c := remove1 (SlabList s) (?H (Partial c)))) F"
    using sorted True on_one_head(1) [OF C _ s(2)] by (auto simp: slabs_sorted_def)
  moreover have "same_slabs c H ?H"
    by (rule cache_slabs_move) (use s core_distinct [OF C] in simp_all)
  moreover have "length (F s) = unat (num (caches S c))" using sorted s(2) by (auto simp: slabs_sorted_def)
  moreover have "refill_slab alloc c fl S = Some (Some s, ?S)"
    using True s head_slab(1) [OF C] by (simp add: refill_slab_def)
  moreover have "0 < unat (num (caches S c))" using C by (simp add: cache_core_def unat_gt_0 word_neq_0_conv)
  ultimately show ?thesis by (intro exI [of _ s] exI [of _ ?S] exI [of _ ?H]) auto
qed

lemma cache_alloc_available:
  assumes I: "cache_inv c S A H F" and some: "H (Partial c) \<noteq> [] \<or> H (Free c) \<noteq> []"
  shows "\<exists>p s xs S' H'. kmem_cache_alloc (Suc d) c fl S = Some (p, S') \<and> s \<in> cache_slabs c H \<and> F s = p # xs \<and>
    cache_inv c S' A H' (F(s := xs)) \<and> same_slabs c H H' \<and> same_layout c S S'"
proof -
  have C: "cache_core c S A H F" using I by (auto simp: cache_inv_def)
  obtain s S1 H1 where R: "refill_slab (kmem_cache_alloc d) c fl S = Some (Some s, S1)"
    "cache_core c S1 A H1 F" "SlabList s \<in> set (H1 (Partial c))" "F s \<noteq> []" "length (F s) \<le> unat (num (caches S c))"
    "same_slabs c H H1"
    "slabs_sorted c (unat (num (caches S c))) (H1(Partial c := remove1 (SlabList s) (H1 (Partial c)))) F"
    "same_layout c S S1"
    using refill_slab_available [OF C _ some] I unfolding cache_inv_def by blast
  obtain p xs where F: "F s = p # xs" using R(4) by (cases "F s") auto
  obtain S2 H2 where "refill_take c s S1 = Some (p, S2)" "cache_inv c S2 A H2 (F(s := xs))"
    "same_slabs c H1 H2" "same_layout c S1 S2"
    using refill_take_ok [OF R(2,3) F] R(5,7) same_layout_objs(2) [OF R(8)] by auto
  moreover have "s \<in> cache_slabs c H" using R(3,6) on_list_slab [of s H1 "Partial c" c] by (simp add: same_slabs_def)
  ultimately show ?thesis using R F display_core [OF C] same_layout_trans [OF R(8)] same_slabs_trans [OF R(6)]
    by (intro exI [of _ p] exI [of _ s] exI [of _ xs] exI [of _ S2] exI [of _ H2])
      (simp add: cache_alloc_refill_def)
qed

section \<open>Freeing\<close>

lemma put_obj_core:
  assumes C: "cache_core c S A H F" and s: "s \<in> cache_slabs c H"
    and p: "p \<in> objs (caches S c) (slabs S s)" "p \<notin> set (F s)"
    and S': "S' = upd_cache c (\<lambda>x. x\<lparr>free_objects := free_objects x + 1\<rparr>) (slab_put_obj s p S)"
  shows "cache_core c S' A H (F(s := p # F s))"
    and "unat (inuse (slabs S' s)) + 1 = unat (inuse (slabs S s))"
proof -
  have I: "slab_inv c S t (F t)" if "t \<in> cache_slabs c H" for t using C that unfolding cache_core_def by metis
  note D = slab_invD [OF I [OF s]]
  have eqs: "slists S' = slists S" "szone S' = szone S" "obj_word S' = (obj_word S)(p := free_list (slabs S s))"
    "slabs S' = (slabs S)(s := (slabs S s)\<lparr>free_list := p, inuse := inuse (slabs S s) - 1\<rparr>)"
    "caches S' = (caches S)(c := (caches S c)\<lparr>free_objects := free_objects (caches S c) + 1\<rparr>)"
    by (simp_all add: S' slab_put_obj_def Let_def upd_slab_def)
  have os: "objs (caches S' c) (slabs S' t) = objs (caches S c) (slabs S t)" for t
    using eqs by (intro objs_cong) auto
  have "length (p # F s) \<le> card (objs (caches S c) (slabs S s))"
    using D(2,3) p distinct_card [of "p # F s"] card_mono [of "objs (caches S c) (slabs S s)" "set (p # F s)"] by auto
  then have "0 < unat (inuse (slabs S s))" using D(5,6) by simp
  then show iu: "unat (inuse (slabs S' s)) + 1 = unat (inuse (slabs S s))"
    by (simp add: eqs unat_minus_one unat_gt_0)
  have "slab_inv c S' s (p # F s)" using D p iu unfolding slab_inv_def os
    by (auto simp: eqs virt_to_slab_zone [OF eqs(2)] Let_def fchain_other [OF p(2)])
  moreover have "slab_inv c S' t (F t)" if t: "t \<in> cache_slabs c H" "t \<noteq> s" for t
  proof -
    have "p \<notin> set (F t)" using C s t p slab_invD(3) [OF I [OF t(1)]] unfolding cache_core_def by blast
    then show ?thesis using I [OF t(1)] t(2) unfolding slab_inv_def os
      by (simp add: eqs virt_to_slab_zone [OF eqs(2)] fchain_other)
  qed
  ultimately show "cache_core c S' A H (F(s := p # F s))"
    by (intro core_step [OF C s]) (simp_all add: eqs)
qed


lemma in_objs_not_free:
  assumes "cache_core c S A H F" "s \<in> cache_slabs c H" "p \<in> objs (caches S c) (slabs S s)" "p \<notin> set (F s)"
  shows "length (F s) < unat (num (caches S c))" and "virt_to_slab p S = Some s"
    and "unat (inuse (slabs S s)) + length (F s) = unat (num (caches S c))"
proof -
  have I: "slab_inv c S s (F s)" using assms unfolding cache_core_def by metis
  note D = slab_invD [OF I]
  show "virt_to_slab p S = Some s" "unat (inuse (slabs S s)) + length (F s) = unat (num (caches S c))"
    using D(6,7) assms(3) by auto
  show "length (F s) < unat (num (caches S c))"
    using D(2,3,5) assms(3,4) distinct_card [of "p # F s"]
      card_mono [of "objs (caches S c) (slabs S s)" "set (p # F s)"] by auto
qed

lemma inv_move:
  assumes C: "cache_core c S A H F" and heads: "a \<in> cache_heads c" "b \<in> cache_heads c" "a \<noteq> b"
    and s: "SlabList s \<in> set (H a)"
    and add: "add = list_add b \<and> ys = SlabList s # H b \<or> add = list_add_tail b \<and> ys = H b @ [SlabList s]"
    and sorted: "slabs_sorted c (unat (num (caches S c))) (H(a := remove1 (SlabList s) (H a), b := ys)) F"
  shows "cache_inv c (upd_slists (add (SlabList s)) (upd_slists (list_del (SlabList s)) S)) A
      (H(a := remove1 (SlabList s) (H a), b := ys)) F"
    and "same_slabs c H (H(a := remove1 (SlabList s) (H a), b := ys))"
proof -
  show "cache_inv c (upd_slists (add (SlabList s)) (upd_slists (list_del (SlabList s)) S)) A
      (H(a := remove1 (SlabList s) (H a), b := ys)) F"
    using add core_move [OF C heads s] sorted by (auto simp: cache_inv_def)
  show "same_slabs c H (H(a := remove1 (SlabList s) (H a), b := ys))"
    by (rule cache_slabs_move) (use add heads s core_distinct [OF C] in auto)
qed

lemma cache_free_kept:
  assumes I: "cache_inv c S A H F" and s: "s \<in> cache_slabs c H"
    and p: "p \<in> objs (caches S c) (slabs S s)" "p \<notin> set (F s)"
    and keep: "length (F s) + 1 < unat (num (caches S c)) \<or>
      free_objects (caches S c) + 1 \<le> free_limit (caches S c)"
  shows "\<exists>S' H'. kmem_cache_free (Suc d) c p S = Some S' \<and> cache_inv c S' A H' (F(s := p # F s)) \<and>
    same_slabs c H H' \<and> same_layout c S S'"
proof -
  let ?n = "unat (num (caches S c))"
  define S1 where "S1 = upd_cache c (\<lambda>x. x\<lparr>free_objects := free_objects x + 1\<rparr>) (slab_put_obj s p S)"
  have C: "cache_core c S A H F" and sorted: "slabs_sorted c ?n H F" using I by (auto simp: cache_inv_def)
  note O = in_objs_not_free [OF C s p]
  note C1 = put_obj_core [OF C s p S1_def]
  have caches: "caches S1 c = (caches S c)\<lparr>free_objects := free_objects (caches S c) + 1\<rparr>" "szone S1 = szone S"
    by (simp_all add: S1_def slab_put_obj_def Let_def upd_slab_def)
  have lay: "same_layout c S S1"
    by (auto simp: S1_def same_layout_def slab_put_obj_def Let_def upd_slab_def)
  have emp: "inuse (slabs S1 s) = 0 \<longleftrightarrow> length (F s) + 1 = ?n" using C1(2) O(3) unat_eq_0 by fastforce
  have full: "inuse (slabs S s) = num (caches S c) \<longleftrightarrow> F s = []" using O(3) by (auto simp: word_unat_eq_iff)
  obtain a where a: "a \<in> cache_heads c" "SlabList s \<in> set (H a)" using s by (auto simp: cache_slabs_def)
  note one = on_one_head [OF C a]
  have a': "a = Partial c \<and> F s \<noteq> [] \<or> a = Full c \<and> F s = []"
    using a sorted O(1) unfolding cache_heads_def slabs_sorted_def by fastforce
  have free: "kmem_cache_free (Suc d) c p S =
    (if inuse (slabs S1 s) = 0
     then if free_objects (caches S1 c) > free_limit (caches S1 c)
       then slab_destroy (kmem_cache_free d) c s (upd_cache c (\<lambda>c. c\<lparr>free_objects := free_objects c - num c\<rparr>)
          (upd_slists (list_del (SlabList s)) S1))
       else Some (upd_slists (list_add (Free c) (SlabList s)) (upd_slists (list_del (SlabList s)) S1))
     else if F s = [] then Some (upd_slists (list_add_tail (Partial c) (SlabList s))
                    (upd_slists (list_del (SlabList s)) S1))
     else Some S1)" using O(2) full by (simp add: S1_def Let_def)
  consider "length (F s) + 1 = ?n" | "length (F s) + 1 < ?n" "F s = []" | "length (F s) + 1 < ?n" "F s \<noteq> []"
    using O(1) by linarith
  then show ?thesis
  proof cases
    case 1
    then have "slabs_sorted c (unat (num (caches S1 c)))
        (H(a := remove1 (SlabList s) (H a), Free c := SlabList s # H (Free c))) (F(s := p # F s))"
      using sorted a' one by (auto simp: slabs_sorted_def caches)
    from inv_move [OF C1(1) a(1) _ _ a(2) _ this, of "list_add (Free c)"] show ?thesis
      using 1 emp keep free a' lay by (auto simp: caches)
  next
    case 2
    then have "slabs_sorted c (unat (num (caches S1 c)))
        (H(a := remove1 (SlabList s) (H a), Partial c := H (Partial c) @ [SlabList s])) (F(s := p # F s))"
      using sorted a' one by (auto simp: slabs_sorted_def caches)
    from inv_move [OF C1(1) a(1) _ _ a(2) _ this, of "list_add_tail (Partial c)"] show ?thesis
      using 2 emp free a' lay by (auto simp: caches)
  next
    case 3
    then have "cache_inv c S1 A H (F(s := p # F s))"
      using C1(1) sorted a' one by (auto simp: cache_inv_def slabs_sorted_def caches)
    then show ?thesis using 3 emp free lay by (auto simp: caches)
  qed
qed


end
