(* ===== verification/Slab_Grow.thy ===== *)
theory Slab_Grow
  imports Slab_Cache
begin

text \<open>
  Growing a cache: a new slab is carved out of pages taken from the buddy allocator.
  \<open>cache_pages\<close> says that no page holding a slab or an object of the cache is free in the zone, which
  is what makes a new slab disjoint from all existing ones.
\<close>

section \<open>Growing a cache\<close>

lemma upd_pages_ok:
  assumes "first + n \<le> length (zone_mem_map z)"
  shows "\<exists>m. upd_pages n first f z = Some (z\<lparr>zone_mem_map := m\<rparr>) \<and> length m = length (zone_mem_map z) \<and>
    (\<forall>i < length m. m ! i = (if i \<in> {first..<first + n} then f (zone_mem_map z ! i) else zone_mem_map z ! i))"
  using assms
proof (induction n)
  case 0
  then show ?case by (auto intro!: exI [of _ "zone_mem_map z"])
next
  case (Suc n)
  then obtain m where "upd_pages n first f z = Some (z\<lparr>zone_mem_map := m\<rparr>)" "length m = length (zone_mem_map z)"
    "\<forall>i < length m. m ! i = (if i \<in> {first..<first + n} then f (zone_mem_map z ! i) else zone_mem_map z ! i)"
    by auto
  then show ?case using Suc.prems
    by (intro exI [of _ "m[first + n := f (m ! (first + n))]"]) (auto simp: upd_page_def nth_list_update)
qed

lemma map_pages_ok:
  assumes "first + n \<le> length (zone_mem_map z)"
  shows "\<exists>m h. map_pages n first c s z = Some (z\<lparr>zone_mem_map := m, lists := h\<rparr>) \<and> length m = length (zone_mem_map z) \<and>
    (\<forall>i < length m. m ! i = (if i \<in> {first..<first + n} then (zone_mem_map z ! i)\<lparr>first_page := Some first\<rparr> else zone_mem_map z ! i)) \<and>
    (\<forall>x. next_of h x = (if x \<in> LRU ` {first..<first + n} then Ext c else next_of (lists z) x)) \<and>
    (\<forall>x. prev_of h x = (if x \<in> LRU ` {first..<first + n} then Ext s else prev_of (lists z) x))"
  using assms
proof (induction n)
  case 0
  then show ?case by (auto intro!: exI [of _ "zone_mem_map z"] exI [of _ "lists z"])
next
  case (Suc n)
  then obtain m h where "map_pages n first c s z = Some (z\<lparr>zone_mem_map := m, lists := h\<rparr>)"
    "length m = length (zone_mem_map z)"
    "\<forall>i < length m. m ! i = (if i \<in> {first..<first + n} then (zone_mem_map z ! i)\<lparr>first_page := Some first\<rparr> else zone_mem_map z ! i)"
    "\<forall>x. next_of h x = (if x \<in> LRU ` {first..<first + n} then Ext c else next_of (lists z) x)"
    "\<forall>x. prev_of h x = (if x \<in> LRU ` {first..<first + n} then Ext s else prev_of (lists z) x)"
    by auto
  then show ?case using Suc.prems
    by (intro exI [of _ "m[first + n := (m ! (first + n))\<lparr>first_page := Some first\<rparr>]"]
        exI [of _ "set_prev (LRU (first + n)) (Ext s) (set_next (LRU (first + n)) (Ext c) h)"])
      (auto simp: upd_page_def upd_lists_def page_set_slab_def page_set_cache_def nth_list_update heap_simps)
qed

lemma buddy_ok_frame:
  assumes ok: "buddy_ok c z F"
    and same: "present_pages z' = present_pages z" "nr_free z' = nr_free z" "free_pages z' = free_pages z"
      "length (zone_mem_map z') = length (zone_mem_map z)"
    and priv: "\<And>i. i < length (zone_mem_map z) \<Longrightarrow>
      PagePrivate (zone_mem_map z' ! i) = PagePrivate (zone_mem_map z ! i) \<and>
      page_private (zone_mem_map z' ! i) = page_private (zone_mem_map z ! i)"
    and nodes: "\<And>x. x \<notin> LRU ` (- F) \<Longrightarrow> next_of (lists z') x = next_of (lists z) x \<and>
      prev_of (lists z') x = prev_of (lists z) x"
  shows "buddy_ok c z' F"
proof -
  obtain G where G: "buddy_inv z G" "coalesced G" "free_set G = F" using ok by (auto simp: buddy_ok_def)
  have "dlists (lists z') heads (fl_nodes G)"
  proof (rule dlists_frame [OF buddy_invD(1) [OF G(1)]])
    fix a p assume a: "a \<in> heads" "p \<in> set (a # fl_nodes G a)"
    then have "p \<notin> LRU ` (- F)" using on_free_list [where G = G] G(3) by (auto elim!: headsE)
    then show "next_of (lists z') p = next_of (lists z) p \<and> prev_of (lists z') p = prev_of (lists z) p"
      by (rule nodes)
  qed
  then have "buddy_inv z' G"
    using G(1) block_in_zone [OF G(1)] priv unfolding buddy_inv_def same by auto
  then show ?thesis using ok G same by (auto simp: buddy_ok_def)
qed

lemma SetPageSlab_private [simp]: "PagePrivate (SetPageSlab p) = PagePrivate p"
  "page_private (SetPageSlab p) = page_private p" "page_zone (SetPageSlab p) = page_zone p"
  by (simp_all add: PagePrivate_iff SetPageSlab_def bit_or_iff bit_flag_masks)

lemma PagePrivate_first_page [simp]: "PagePrivate (p\<lparr>first_page := v\<rparr>) = PagePrivate p"
  by (simp add: PagePrivate_iff)

lemma page_offset:
  assumes "p * 4096 + d < 2 ^ 30"
  shows "unat (page_address p + of_nat d) = 0xC0000000 + p * 4096 + d"
    and "virt_to_page 0 (page_address p + of_nat d) = p + d div 4096"
proof -
  have u: "unat (of_nat (p * 4096 + d) :: u32) = p * 4096 + d" using assms by (intro unat_of_nat_u32) simp
  have a: "page_address p + of_nat d = of_nat (p * 4096 + d) + PAGE_OFFSET"
    by (simp add: page_address_def va_of_def push_bit_eq_mult)
  show un: "unat (page_address p + of_nat d) = 0xC0000000 + p * 4096 + d"
    unfolding a using unat_plus [of "of_nat (p * 4096 + d)" PAGE_OFFSET] u assms by (simp add: PAGE_OFFSET_def)
  then have "PAGE_OFFSET \<le> page_address p + of_nat d" by (simp add: word_le_nat_alt PAGE_OFFSET_def)
  then have "pa_of (page_address p + of_nat d) = of_nat (p * 4096 + d)"
    unfolding pa_of_def by (simp add: a)
  then show "virt_to_page 0 (page_address p + of_nat d) = p + d div 4096"
    using u by (simp add: virt_to_page_def pfn_to_page_def drop_bit_eq_div unat_div_4096)
qed

lemma init_objs_ok:
  assumes nz: "\<And>i. i < n \<Longrightarrow> s_mem (slabs S s) + of_nat i * objsize (caches S c) \<noteq> 0"
    and inj: "inj_on (\<lambda>i. s_mem (slabs S s) + of_nat i * objsize (caches S c)) {..<n}"
    and ch: "fchain (obj_word S) (free_list (slabs S s)) xs"
    and xs: "\<And>i. i < n \<Longrightarrow> s_mem (slabs S s) + of_nat i * objsize (caches S c) \<notin> set xs"
  shows "\<exists>w fl. init_objs n c s S = S\<lparr>obj_word := w, slabs := (slabs S)(s := (slabs S s)\<lparr>free_list := fl\<rparr>)\<rparr> \<and>
    fchain w fl (map (\<lambda>i. s_mem (slabs S s) + of_nat i * objsize (caches S c)) [0..<n] @ xs) \<and>
    (\<forall>a. a \<notin> (\<lambda>i. s_mem (slabs S s) + of_nat i * objsize (caches S c)) ` {..<n} \<longrightarrow> w a = obj_word S a)"
  using assms
proof (induction n arbitrary: S xs)
  case 0
  have "(slabs S)(s := (slabs S s)\<lparr>free_list := free_list (slabs S s)\<rparr>) = slabs S" by (simp add: fun_upd_idem)
  with 0 show ?case by (intro exI [of _ "obj_word S"] exI [of _ "free_list (slabs S s)"]) simp
next
  case (Suc n)
  let ?a = "\<lambda>i. s_mem (slabs S s) + of_nat i * objsize (caches S c)"
  let ?S = "upd_slab s (\<lambda>x. x\<lparr>free_list := ?a n\<rparr>) (S\<lparr>obj_word := (obj_word S)(?a n := free_list (slabs S s))\<rparr>)"
  have eq: "s_mem (slabs ?S s) = s_mem (slabs S s)" "caches ?S = caches S"
    "obj_word ?S = (obj_word S)(?a n := free_list (slabs S s))" "free_list (slabs ?S s) = ?a n" by simp_all
  have ch: "fchain (obj_word ?S) (free_list (slabs ?S s)) (?a n # xs)"
    using Suc.prems(1) [of n] Suc.prems(3) Suc.prems(4) [of n] by (simp add: fchain_other eq)
  have inj: "inj_on (\<lambda>i. s_mem (slabs ?S s) + of_nat i * objsize (caches ?S c)) {..<n}"
    using Suc.prems(2) unfolding eq by (rule inj_on_subset) auto
  have ne: "?a i \<noteq> ?a n" if "i < n" for i
    using inj_onD [OF Suc.prems(2), of i n] that by auto
  have nz: "s_mem (slabs ?S s) + of_nat i * objsize (caches ?S c) \<noteq> 0" if "i < n" for i
    unfolding eq using Suc.prems(1) [of i] that by simp
  have off: "s_mem (slabs ?S s) + of_nat i * objsize (caches ?S c) \<notin> set (?a n # xs)" if "i < n" for i
    unfolding eq using Suc.prems(4) [of i] ne [OF that] that by simp
  obtain w fl where w: "init_objs n c s ?S = ?S\<lparr>obj_word := w, slabs := (slabs ?S)(s := (slabs ?S s)\<lparr>free_list := fl\<rparr>)\<rparr>"
    "fchain w fl (map ?a [0..<n] @ ?a n # xs)" "\<forall>a. a \<notin> ?a ` {..<n} \<longrightarrow> w a = obj_word ?S a"
    using Suc.IH [OF nz inj ch off] unfolding eq by blast
  have "init_objs (Suc n) c s S = init_objs n c s ?S" by (simp add: Let_def)
  also have "\<dots> = S\<lparr>obj_word := w, slabs := (slabs S)(s := (slabs S s)\<lparr>free_list := fl\<rparr>)\<rparr>"
    unfolding w(1) by (simp add: upd_slab_def)
  finally have "init_objs (Suc n) c s S = S\<lparr>obj_word := w, slabs := (slabs S)(s := (slabs S s)\<lparr>free_list := fl\<rparr>)\<rparr>" .
  moreover have "fchain w fl (map ?a [0..<Suc n] @ xs)" using w(2) by simp
  moreover have "\<forall>a. a \<notin> ?a ` {..<Suc n} \<longrightarrow> w a = obj_word S a" using w(3) by (auto simp: lessThan_Suc)
  ultimately show ?case by blast
qed


definition zone_ready :: "u32 \<Rightarrow> zone \<Rightarrow> nat set \<Rightarrow> bool" where
  "zone_ready k z F \<longleftrightarrow> buddy_ok k z F \<and> zone_start_pfn z = 0 \<and> present_pages z \<le> 2 ^ 18"

lemma taken_slab [simp]: "taken (SetPageSlab p) = taken p" "taken (p\<lparr>first_page := v\<rparr>) = taken p"
  "page_no (SetPageSlab p) = page_no p"
  by (simp_all add: taken_def SetPageSlab_def bit_or_iff bit_flag_masks)

lemma zone_readyD:
  assumes "zone_ready k z F"
  shows "buddy_ok k z F" "zone_start_pfn z = 0" "present_pages z \<le> 2 ^ 18"
    "present_pages z = length (zone_mem_map z)" "F \<subseteq> {..<length (zone_mem_map z)}"
  using assms buddy_ok_bound [of k z F] buddy_ok_length [of k z F] by (auto simp: zone_ready_def)

lemma kmem_getpages_ok:
  assumes Z: "zone_ready k (szone S) F" and order: "unat (gfporder (caches S c)) < BUDDY_GROUPS"
  shows "\<exists>r z'. kmem_getpages c fl S = Some (r, S\<lparr>szone := z'\<rparr>) \<and> kept_outside F (szone S) z' \<and>
    (r = 0 \<and> zone_ready k z' F \<and> (\<forall>b. aligned b (unat (gfporder (caches S c))) \<longrightarrow> \<not> block b (unat (gfporder (caches S c))) \<subseteq> F) \<or>
     (\<exists>p. r = page_address p \<and> aligned p (unat (gfporder (caches S c))) \<and> block p (unat (gfporder (caches S c))) \<subseteq> F \<and>
       zone_ready k z' (F - block p (unat (gfporder (caches S c))))))"
proof -
  let ?k = "unat (gfporder (caches S c))"
  note Z' = zone_readyD [OF Z]
  obtain r z1 where a: "allocate_block (szone S) ?k = Some (r, z1)" "kept_outside F (szone S) z1"
    "case r of None \<Rightarrow> buddy_ok k z1 F \<and> (\<forall>b. aligned b ?k \<longrightarrow> \<not> block b ?k \<subseteq> F)
       | Some p \<Rightarrow> aligned p ?k \<and> block p ?k \<subseteq> F \<and> buddy_ok k z1 (F - block p ?k)"
    using bp.alloc_ok [OF Z'(1) order] by blast
  have sz: "zone_start_pfn z1 = 0" "present_pages z1 \<le> 2 ^ 18" "length (zone_mem_map z1) = length (zone_mem_map (szone S))"
    using a(2) Z' by (auto simp: kept_outside_def same_pages_def)
  show ?thesis
  proof (cases r)
    case None
    then show ?thesis using a sz Z' by (auto simp: kmem_getpages_def alloc_pages_def zone_ready_def Let_def)
  next
    case (Some p)
    have "p + 2 ^ ?k \<le> length (zone_mem_map z1)"
      using a(3) Some Z'(5) sz(3) by (intro block_bound) auto
    then obtain m where m: "upd_pages (2 ^ ?k) p SetPageSlab z1 = Some (z1\<lparr>zone_mem_map := m\<rparr>)"
      "length m = length (zone_mem_map z1)"
      "\<forall>i < length m. m ! i = (if i \<in> block p ?k then SetPageSlab (zone_mem_map z1 ! i) else zone_mem_map z1 ! i)"
      using upd_pages_ok unfolding block_def by blast
    have "buddy_ok k (z1\<lparr>zone_mem_map := m\<rparr>) (F - block p ?k)"
      by (rule buddy_ok_frame [of _ z1]) (use a(3) Some m in auto)
    moreover have "kept_outside F z1 (z1\<lparr>zone_mem_map := m\<rparr>)"
      using m a(3) Some by (auto simp: kept_outside_def same_pages_def)
    ultimately show ?thesis using a m Some sz kept_trans [OF a(2) _ order_refl order_refl]
      by (auto simp: kmem_getpages_def alloc_pages_def zone_ready_def Let_def)
  qed
qed

lemma slab_map_pages_ok:
  assumes Z: "zone_ready k (szone S) F" and disj: "block p (unat (gfporder (caches S c))) \<inter> F = {}"
    and bound: "p + 2 ^ unat (gfporder (caches S c)) \<le> present_pages (szone S)" and p: "virt_to_page 0 objp = p"
  shows "\<exists>z'. slab_map_pages c s objp S = Some (S\<lparr>szone := z'\<rparr>) \<and> zone_ready k z' F \<and>
    kept_outside (block p (unat (gfporder (caches S c)))) (szone S) z' \<and>
    (\<forall>i \<in> block p (unat (gfporder (caches S c))). first_page (zone_mem_map z' ! i) = Some p \<and>
      next_of (lists z') (LRU i) = Ext c \<and> prev_of (lists z') (LRU i) = Ext s)"
proof -
  let ?k = "unat (gfporder (caches S c))" and ?z = "szone S"
  note Z' = zone_readyD [OF Z]
  obtain m h where m: "map_pages (2 ^ ?k) p c s ?z = Some (?z\<lparr>zone_mem_map := m, lists := h\<rparr>)"
    "length m = length (zone_mem_map ?z)"
    "\<forall>i < length m. m ! i = (if i \<in> block p ?k then (zone_mem_map ?z ! i)\<lparr>first_page := Some p\<rparr> else zone_mem_map ?z ! i)"
    "\<forall>x. next_of h x = (if x \<in> LRU ` block p ?k then Ext c else next_of (lists ?z) x)"
    "\<forall>x. prev_of h x = (if x \<in> LRU ` block p ?k then Ext s else prev_of (lists ?z) x)"
    using map_pages_ok [of p "2 ^ ?k" ?z c s] bound Z'(4) unfolding block_def by auto
  let ?z' = "?z\<lparr>zone_mem_map := m, lists := h\<rparr>"
  have "buddy_ok k ?z' F"
    by (rule buddy_ok_frame [OF Z'(1)]) (use m disj in auto)
  moreover have "kept_outside (block p ?k) ?z ?z'"
    using m by (auto simp: kept_outside_def same_pages_def)
  moreover have "\<forall>i \<in> block p ?k. i < length m" using bound Z'(4) m(2) by (auto simp: block_def)
  ultimately show ?thesis using m Z' p
    by (intro exI [of _ ?z']) (auto simp: slab_map_pages_def zone_ready_def Let_def)
qed


lemma obj_addr:
  "page_address p + of_nat off + of_nat i * sz = page_address p + of_nat (off + i * unat sz)"
  by simp

lemma objs_in_block:
  assumes fit: "off + unat (num c) * unat (objsize c) \<le> 4096 * 2 ^ k" and nz: "0 < objsize c"
    and p: "p + 2 ^ k \<le> 2 ^ 18" and s: "s_mem d = page_address p + of_nat off"
  shows "inj_on (\<lambda>i. s_mem d + of_nat i * objsize c) {..<unat (num c)}" (is ?inj)
    and "a \<in> objs c d \<Longrightarrow> virt_to_page 0 a \<in> block p k" and "0 \<notin> objs c d"
    and "card (objs c d) = unat (num c)"
proof -
  have sz: "0 < unat (objsize c)" using nz by (simp add: unat_gt_0 word_neq_0_conv)
  have off: "off + i * unat (objsize c) < 4096 * 2 ^ k" if "i < unat (num c)" for i
  proof -
    have "Suc i * unat (objsize c) \<le> unat (num c) * unat (objsize c)" using that by (intro mult_le_mono1) simp
    then show ?thesis using fit sz by simp
  qed
  have lt: "p * 4096 + (off + i * unat (objsize c)) < 2 ^ 30" if "i < unat (num c)" for i
    using off [OF that] p by simp
  note a = page_offset [OF lt, folded obj_addr, folded s]
  show inj: ?inj
  proof (rule inj_onI)
    fix i j assume ij: "i \<in> {..<unat (num c)}" "j \<in> {..<unat (num c)}"
      and "s_mem d + of_nat i * objsize c = s_mem d + of_nat j * objsize c"
    then have "unat (s_mem d + of_nat i * objsize c) = unat (s_mem d + of_nat j * objsize c)" by simp
    then have "i * unat (objsize c) = j * unat (objsize c)" using a(1) [of i] a(1) [of j] ij by auto
    then show "i = j" using sz by auto
  qed
  show "virt_to_page 0 a \<in> block p k" if mem: "a \<in> objs c d"
  proof -
    obtain i where i: "i < unat (num c)" "a = s_mem d + of_nat i * objsize c" using mem by (auto simp: objs_def)
    have "(off + i * unat (objsize c)) div 4096 < 2 ^ k" using off [OF i(1)] by (simp add: less_mult_imp_div_less mult.commute)
    then show ?thesis using a(2) [OF i(1)] i(2) by (simp add: block_def)
  qed
  show "0 \<notin> objs c d"
  proof
    assume "0 \<in> objs c d"
    then obtain i where i: "i < unat (num c)" "s_mem d + of_nat i * objsize c = 0" by (auto simp: objs_def)
    from a(1) [OF i(1)] show False unfolding i(2) by simp
  qed
  show "card (objs c d) = unat (num c)" using card_image [OF inj] by (simp add: objs_def)
qed

lemma slab_inv_frame:
  assumes I: "slab_inv c S s xs" and same: "num (caches S' c) = num (caches S c)" "objsize (caches S' c) = objsize (caches S c)"
      "slabs S' s = slabs S s"
    and w: "\<And>a. a \<in> objs (caches S c) (slabs S s) \<Longrightarrow> obj_word S' a = obj_word S a"
    and v: "\<And>a. a \<in> objs (caches S c) (slabs S s) \<Longrightarrow> virt_to_slab a S' = virt_to_slab a S"
  shows "slab_inv c S' s xs"
proof -
  have os: "objs (caches S' c) (slabs S' s) = objs (caches S c) (slabs S s)" using same by (intro objs_cong) auto
  have "fchain (obj_word S') q ys = fchain (obj_word S) q ys" if "set ys \<subseteq> objs (caches S c) (slabs S s)" for q ys
    using that w by (induction ys arbitrary: q) auto
  then show ?thesis using slab_invD [OF I] same v unfolding slab_inv_def os by (simp add: Let_def)
qed


definition cache_fits :: "kmem_cache \<Rightarrow> bool" where
  "cache_fits c \<longleftrightarrow> \<not> OFF_SLAB c \<and> ctor c = 0 \<and> unat (gfporder c) < BUDDY_GROUPS \<and> 0 < objsize c \<and> 0 < num c \<and>
     unat (colour c) * unat (colour_off c) + unat (slab_size c) + unat (num c) * unat (objsize c)
       \<le> 4096 * 2 ^ unat (gfporder c) \<and>
     (colour_next c < colour c \<or> colour_next c = 0)"

definition slab_objs :: "kmem_cache \<Rightarrow> slab_desc \<Rightarrow> u32 list" where
  "slab_objs c s = map (\<lambda>i. s_mem s + of_nat i * objsize c) [0..<unat (num c)]"

lemma set_slab_objs [simp]: "set (slab_objs c s) = objs c s"
  by (auto simp: slab_objs_def objs_def)

lemma length_slab_objs [simp]: "length (slab_objs c s) = unat (num c)"
  by (simp add: slab_objs_def)

lemma distinct_slab_objs:
  "inj_on (\<lambda>i. s_mem s + of_nat i * objsize c) {..<unat (num c)} \<Longrightarrow> distinct (slab_objs c s)"
  by (simp add: slab_objs_def distinct_map atLeast0LessThan)

lemma cache_init_objs_ok:
  assumes "ctor (caches S c) = 0" and nz: "0 \<notin> objs (caches S c) (slabs S s)"
    and inj: "inj_on (\<lambda>i. s_mem (slabs S s) + of_nat i * objsize (caches S c)) {..<unat (num (caches S c))}"
  shows "\<exists>w f. cache_init_objs c s S = Some (S\<lparr>obj_word := w, slabs := (slabs S)(s := (slabs S s)\<lparr>free_list := f\<rparr>)\<rparr>) \<and>
    fchain w f (slab_objs (caches S c) (slabs S s)) \<and>
    (\<forall>a. a \<notin> objs (caches S c) (slabs S s) \<longrightarrow> w a = obj_word S a)"
proof -
  define S0 where "S0 = upd_slab s (\<lambda>x. x\<lparr>free_list := 0\<rparr>) S"
  have S0: "s_mem (slabs S0 s) = s_mem (slabs S s)" "caches S0 = caches S" "free_list (slabs S0 s) = 0"
    "obj_word S0 = obj_word S" by (simp_all add: S0_def)
  have nz': "s_mem (slabs S0 s) + of_nat i * objsize (caches S0 c) \<noteq> 0" if "i < unat (num (caches S c))" for i
  proof -
    have "s_mem (slabs S s) + of_nat i * objsize (caches S c) \<in> objs (caches S c) (slabs S s)"
      using that by (auto simp: objs_def)
    then show ?thesis using nz unfolding S0 by (metis (no_types))
  qed
  obtain w f where w: "init_objs (unat (num (caches S c))) c s S0 =
      S0\<lparr>obj_word := w, slabs := (slabs S0)(s := (slabs S0 s)\<lparr>free_list := f\<rparr>)\<rparr>"
    "fchain w f (slab_objs (caches S c) (slabs S s))" "\<forall>a. a \<notin> objs (caches S c) (slabs S s) \<longrightarrow> w a = obj_word S a"
    using init_objs_ok [of "unat (num (caches S c))" S0 s c "[]", OF nz'] inj unfolding S0 slab_objs_def objs_def by auto
  moreover have "S0\<lparr>obj_word := w, slabs := (slabs S0)(s := (slabs S0 s)\<lparr>free_list := f\<rparr>)\<rparr> =
      S\<lparr>obj_word := w, slabs := (slabs S)(s := (slabs S s)\<lparr>free_list := f\<rparr>)\<rparr>"
    by (simp add: S0_def upd_slab_def)
  ultimately show ?thesis using assms(1) S0(2)
    by (intro exI [of _ w] exI [of _ f]) (simp add: cache_init_objs_def Let_def S0_def [symmetric])
qed

definition fresh_slab :: "u32 \<Rightarrow> nat \<Rightarrow> u32 \<Rightarrow> slab_state \<Rightarrow> slab_state \<Rightarrow> bool" where
  "fresh_slab c p s S S' \<longleftrightarrow>
     slab_inv c S' s (slab_objs (caches S' c) (slabs S' s)) \<and>
     slists S' = list_add_tail (Free c) (SlabList s) (INIT_LIST_HEAD (SlabList s) (slists S)) \<and>
     (\<forall>t. t \<noteq> s \<longrightarrow> slabs S' t = slabs S t) \<and>
     caches S' = (caches S)(c := (caches S c)\<lparr>free_objects := free_objects (caches S c) + num (caches S c)\<rparr>) \<and>
     (\<forall>a. virt_to_page 0 a \<notin> block p (unat (gfporder (caches S c))) \<longrightarrow> obj_word S' a = obj_word S a) \<and>
     virt_to_page 0 s \<in> block p (unat (gfporder (caches S c))) \<and>
     (\<forall>a \<in> objs (caches S' c) (slabs S' s). virt_to_page 0 a \<in> block p (unat (gfporder (caches S c)))) \<and>
     (\<forall>i \<in> block p (unat (gfporder (caches S c))). first_page (zone_mem_map (szone S') ! i) = Some p)"

lemma grow_slab_ok:
  assumes Z: "zone_ready k (szone S) F" and fit: "cache_fits (caches S c)"
    and p: "block p (unat (gfporder (caches S c))) \<inter> F = {}"
      "p + 2 ^ unat (gfporder (caches S c)) \<le> present_pages (szone S)"
    and off: "unat off + unat (slab_size (caches S c)) + unat (num (caches S c)) * unat (objsize (caches S c))
      \<le> 4096 * 2 ^ unat (gfporder (caches S c))"
  shows "\<exists>S'. grow_slab alloc c fl (page_address p) off S = Some (True, S') \<and> zone_ready k (szone S') F \<and>
    kept_outside (block p (unat (gfporder (caches S c)))) (szone S) (szone S') \<and>
    fresh_slab c p (page_address p + off) S S'"
proof -
  let ?c = "caches S c" and ?k = "unat (gfporder (caches S c))" and ?s = "page_address p + off"
  let ?d = "\<lparr>colouroff = off + slab_size ?c, s_mem = page_address p + (off + slab_size ?c), inuse = 0, sfree = 0, free_list = 0\<rparr>"
  have fitD: "\<not> OFF_SLAB ?c" "ctor ?c = 0" "0 < objsize ?c" "0 < num ?c" using fit by (auto simp: cache_fits_def)
  have pb: "p + 2 ^ ?k \<le> 2 ^ 18" using p(2) zone_readyD(3) [OF Z] by simp
  have pl: "p < 2 ^ 18" by (rule start_bound [OF pb])
  have "0 < unat (num ?c) * unat (objsize ?c)" using fitD by (simp add: unat_gt_0 word_neq_0_conv)
  then have small: "unat off < 4096 * 2 ^ ?k" using off by linarith
  have s: "unat ?s \<noteq> 0" "virt_to_page 0 ?s \<in> block p ?k"
    using page_offset [of p "unat off"] small pb
    by (auto simp: block_def less_mult_imp_div_less mult.commute)
  then have s0: "?s \<noteq> 0" by (metis unat_eq_0)
  have smem: "s_mem ?d = page_address p + of_nat (unat off + unat (slab_size ?c))" by simp
  note O = objs_in_block [OF off fitD(3) pb smem]
  let ?S1 = "upd_slab ?s (\<lambda>_. ?d) (upd_slists (INIT_LIST_HEAD (SlabList ?s)) S)"
  obtain z' where z': "slab_map_pages c ?s (page_address p) ?S1 = Some (?S1\<lparr>szone := z'\<rparr>)" "zone_ready k z' F"
    "kept_outside (block p ?k) (szone S) z'"
    "\<forall>i \<in> block p ?k. first_page (zone_mem_map z' ! i) = Some p \<and> next_of (lists z') (LRU i) = Ext c \<and>
      prev_of (lists z') (LRU i) = Ext ?s"
    using slab_map_pages_ok [of k ?S1 F p c "page_address p" ?s] Z p page_offset(2) [of p 0] pl by auto
  define S2 where "S2 = ?S1\<lparr>szone := z'\<rparr>"
  have S2: "slabs S2 = (slabs S)(?s := ?d)" "caches S2 = caches S" "obj_word S2 = obj_word S" "szone S2 = z'"
    "slists S2 = INIT_LIST_HEAD (SlabList ?s) (slists S)"
    by (simp_all add: S2_def upd_slab_def)
  obtain w f where w: "cache_init_objs c ?s S2 = Some (S2\<lparr>obj_word := w, slabs := (slabs S2)(?s := ?d\<lparr>free_list := f\<rparr>)\<rparr>)"
    "fchain w f (slab_objs ?c ?d)" "\<forall>a. a \<notin> objs ?c ?d \<longrightarrow> w a = obj_word S a"
    using cache_init_objs_ok [of S2 c ?s] fitD(2) O(1,3) unfolding S2 by auto
  define S3 where "S3 = upd_cache c (\<lambda>c. c\<lparr>free_objects := free_objects c + num c\<rparr>)
    (upd_slists (list_add_tail (Free c) (SlabList ?s)) (S2\<lparr>obj_word := w, slabs := (slabs S2)(?s := ?d\<lparr>free_list := f\<rparr>)\<rparr>))"
  have run: "grow_slab alloc c fl (page_address p) off S = Some (True, S3)"
    using fitD s0 z'(1) w(1) by (simp add: grow_slab_def alloc_slabmgmt_def S3_def S2_def Let_def)
  have S3: "szone S3 = z'" "obj_word S3 = w" "slabs S3 = (slabs S)(?s := ?d\<lparr>free_list := f\<rparr>)"
    "caches S3 = (caches S)(c := ?c\<lparr>free_objects := free_objects ?c + num ?c\<rparr>)"
    "slists S3 = list_add_tail (Free c) (SlabList ?s) (INIT_LIST_HEAD (SlabList ?s) (slists S))"
    by (simp_all add: S3_def S2)
  have os: "objs (caches S3 c) (slabs S3 ?s) = objs ?c ?d" "slab_objs (caches S3 c) (slabs S3 ?s) = slab_objs ?c ?d"
    unfolding S3 by (simp_all add: objs_def slab_objs_def)
  have "virt_to_slab a S3 = Some ?s" if "a \<in> objs ?c ?d" for a
  proof -
    have "virt_to_page 0 a \<in> block p ?k" using that by (rule O(2))
    moreover from this have "virt_to_page 0 a < length (zone_mem_map z')"
      using p(2) zone_readyD [OF Z] z'(3) by (auto simp: block_def kept_outside_def same_pages_def)
    ultimately show ?thesis using z'(4) zone_readyD(2) [OF z'(2)]
      by (simp add: virt_to_slab_def S3 get_page_def)
  qed
  then have "slab_inv c S3 ?s (slab_objs (caches S3 c) (slabs S3 ?s))"
    using O(3,4) distinct_slab_objs [of ?d ?c] O(1) w(2) unfolding slab_inv_def os by (simp add: S3)
  moreover have "obj_word S3 a = obj_word S a" if "virt_to_page 0 a \<notin> block p ?k" for a
    using w(3) O(2) that unfolding S3 by blast
  moreover have "\<forall>t. t \<noteq> ?s \<longrightarrow> slabs S3 t = slabs S t" by (simp add: S3(3))
  moreover have "\<forall>a \<in> objs (caches S3 c) (slabs S3 ?s). virt_to_page 0 a \<in> block p ?k" using O(2) os(1) by simp
  moreover have "\<forall>i \<in> block p ?k. first_page (zone_mem_map (szone S3) ! i) = Some p" using z'(4) S3(1) by simp
  ultimately have "fresh_slab c p ?s S S3" using s(2) S3(4,5) unfolding fresh_slab_def by blast
  moreover have "zone_ready k (szone S3) F" "kept_outside (block p ?k) (szone S) (szone S3)" using z'(2,3) S3(1) by auto
  ultimately show ?thesis using run by blast
qed


definition obj_page_ok :: "zone \<Rightarrow> nat set \<Rightarrow> u32 \<Rightarrow> bool" where
  "obj_page_ok z F a \<longleftrightarrow> virt_to_page 0 a \<in> {..<length (zone_mem_map z)} - F \<and>
     (\<exists>h \<in> {..<length (zone_mem_map z)} - F. first_page (zone_mem_map z ! virt_to_page 0 a) = Some h)"

definition cache_pages :: "u32 \<Rightarrow> slab_state \<Rightarrow> snode set \<Rightarrow> (snode \<Rightarrow> snode list) \<Rightarrow> nat set \<Rightarrow> bool" where
  "cache_pages c S A H F \<longleftrightarrow>
     (\<forall>a \<in> A. \<forall>s. SlabList s \<in> set (H a) \<longrightarrow> virt_to_page 0 s \<notin> F) \<and> (\<forall>s. SlabList s \<notin> A) \<and>
     (\<forall>s \<in> cache_slabs c H. \<forall>a \<in> objs (caches S c) (slabs S s). obj_page_ok (szone S) F a)"

lemma virt_to_slab_kept:
  assumes "kept_outside F (szone S) (szone S')" "zone_start_pfn (szone S) = 0" "obj_page_ok (szone S) F a"
  shows "virt_to_slab a S' = virt_to_slab a S"
  using assms by (auto simp: virt_to_slab_def obj_page_ok_def kept_outside_def same_pages_def get_page_def)

lemma obj_page_kept:
  assumes "kept_outside X z z'" "obj_page_ok z F a" "X \<subseteq> F" "G \<subseteq> F"
  shows "obj_page_ok z' G a"
proof -
  have "length (zone_mem_map z') = length (zone_mem_map z)" "virt_to_page 0 a < length (zone_mem_map z)"
    "zone_mem_map z' ! virt_to_page 0 a = zone_mem_map z ! virt_to_page 0 a"
    using assms by (auto simp: kept_outside_def same_pages_def obj_page_ok_def)
  then show ?thesis using assms(2,4) by (auto simp: obj_page_ok_def)
qed

lemma obj_page_mono: "obj_page_ok z F a \<Longrightarrow> X \<subseteq> F \<Longrightarrow> obj_page_ok z X a"
  by (auto simp: obj_page_ok_def)

lemma core_zone:
  assumes C: "cache_core c S A H F" and P: "cache_pages c S A H Fp" and Z: "zone_start_pfn (szone S) = 0"
    and same: "slists S' = slists S" "slabs S' = slabs S" "obj_word S' = obj_word S"
      "num (caches S' c) = num (caches S c)" "objsize (caches S' c) = objsize (caches S c)"
      "free_objects (caches S' c) = free_objects (caches S c)"
    and K: "kept_outside Fp (szone S) (szone S')"
  shows "cache_core c S' A H F" and "cache_pages c S' A H Fp"
proof -
  have os: "objs (caches S' c) (slabs S' t) = objs (caches S c) (slabs S t)" for t
    using same by (intro objs_cong) auto
  have v: "virt_to_slab a S' = virt_to_slab a S" if "t \<in> cache_slabs c H" "a \<in> objs (caches S c) (slabs S t)" for t a
    by (rule virt_to_slab_kept [OF K Z]) (use P that in \<open>auto simp: cache_pages_def\<close>)
  have "slab_inv c S' t (F t)" if "t \<in> cache_slabs c H" for t
    by (rule slab_inv_frame [where S = S]) (use C that same v in \<open>auto simp: cache_core_def\<close>)
  then show "cache_core c S' A H F" using C unfolding cache_core_def os by (simp add: same)
  show "cache_pages c S' A H Fp"
    using P obj_page_kept [OF K _ order_refl order_refl] unfolding cache_pages_def os by blast
qed

lemma fresh_core:
  assumes C: "cache_core c S A H F" and P: "cache_pages c S A H Fp" and Z: "zone_start_pfn (szone S) = 0"
    and fr: "fresh_slab c p s S S'" and B: "block p (unat (gfporder (caches S c))) = B" "B \<subseteq> Fp"
    and K: "kept_outside B (szone S) (szone S')" and len: "Fp \<subseteq> {..<length (zone_mem_map (szone S))}"
  shows "cache_core c S' A (H(Free c := H (Free c) @ [SlabList s])) (F(s := slab_objs (caches S' c) (slabs S' s)))"
    and "cache_pages c S' A (H(Free c := H (Free c) @ [SlabList s])) (Fp - B)"
    and "cache_slabs c (H(Free c := H (Free c) @ [SlabList s])) = insert s (cache_slabs c H)" and "s \<notin> cache_slabs c H"
proof -
  let ?H = "H(Free c := H (Free c) @ [SlabList s])" and ?F = "F(s := slab_objs (caches S' c) (slabs S' s))"
  note fs = fr [unfolded fresh_slab_def B(1)]
  have off: "SlabList s \<notin> set (H a)" if "a \<in> A" for a using P fs B(2) that unfolding cache_pages_def by blast
  have sA: "SlabList s \<notin> A" using P by (auto simp: cache_pages_def)
  have heads: "Free c \<in> A" "dlists (slists S) A H" using C by (auto simp: cache_core_def)
  show cs: "cache_slabs c ?H = insert s (cache_slabs c H)" by (auto simp: cache_slabs_def cache_heads_def)
  show new: "s \<notin> cache_slabs c H" using off C by (auto simp: cache_slabs_def cache_core_def)
  have "dlists (INIT_LIST_HEAD (SlabList s) (slists S)) A H"
    by (rule dlists_frame [OF heads(2)]) (use off sA in \<open>auto simp: list_op_defs heap_simps\<close>)
  from kl.inv_add_tail [OF this heads(1) sA off] have D: "dlists (slists S') A ?H" using fs by simp
  have os: "objs (caches S' c) (slabs S' t) = objs (caches S c) (slabs S t)" if "t \<noteq> s" for t
    using fs that by (intro objs_cong) auto
  have pg: "obj_page_ok (szone S) Fp a" if "t \<in> cache_slabs c H" "a \<in> objs (caches S c) (slabs S t)" for t a
    using P that by (auto simp: cache_pages_def)
  have old: "slab_inv c S' t (F t)" if t: "t \<in> cache_slabs c H" for t
  proof (rule slab_inv_frame [where S = S])
    show "slab_inv c S t (F t)" using C t by (auto simp: cache_core_def)
    show "slabs S' t = slabs S t" using fs new t by metis
    show "obj_word S' a = obj_word S a" if "a \<in> objs (caches S c) (slabs S t)" for a
      using pg [OF t that] fs B(2) by (auto simp: obj_page_ok_def)
    show "virt_to_slab a S' = virt_to_slab a S" if "a \<in> objs (caches S c) (slabs S t)" for a
      by (rule virt_to_slab_kept [OF K Z obj_page_mono [OF pg [OF t that] B(2)]])
  qed (use fs in simp_all)
  have fsB: "virt_to_page 0 s \<in> B" "\<And>a. a \<in> objs (caches S' c) (slabs S' s) \<Longrightarrow> virt_to_page 0 a \<in> B"
    "\<And>i. i \<in> B \<Longrightarrow> first_page (zone_mem_map (szone S') ! i) = Some p"
    "slab_inv c S' s (slab_objs (caches S' c) (slabs S' s))"
    using fs by blast+
  have fsc: "num (caches S' c) = num (caches S c)" "free_objects (caches S' c) = free_objects (caches S c) + num (caches S c)"
    using fs by simp_all
  have disj: "objs (caches S' c) (slabs S' s) \<inter> objs (caches S c) (slabs S t) = {}" if "t \<in> cache_slabs c H" for t
    using pg [OF that] fsB(2) B(2) unfolding obj_page_ok_def by blast
  have "(\<Sum>t \<in> insert s (cache_slabs c H). length (?F t)) = unat (num (caches S c)) + (\<Sum>t \<in> cache_slabs c H. length (F t))"
    using new fsc(1) by (subst sum.insert) (auto intro!: sum.cong)
  then have "free_objects (caches S' c) = of_nat (\<Sum>t \<in> insert s (cache_slabs c H). length (?F t))"
    using C fsc(2) by (simp add: cache_core_def)
  moreover have "\<forall>t \<in> insert s (cache_slabs c H). slab_inv c S' t (?F t)" using old fsB(4) new by auto
  moreover have "0 < num (caches S' c)" using C fsc by (simp add: cache_core_def)
  moreover have "\<forall>t \<in> insert s (cache_slabs c H). \<forall>u \<in> insert s (cache_slabs c H). t \<noteq> u \<longrightarrow>
      objs (caches S' c) (slabs S' t) \<inter> objs (caches S' c) (slabs S' u) = {}"
    using C disj os new unfolding cache_core_def by (metis Int_commute insertE)
  moreover have "\<forall>a \<in> cache_heads c. set (?H a) \<subseteq> range SlabList" using C by (auto simp: cache_core_def)
  ultimately show "cache_core c S' A ?H ?F" using D C unfolding cache_core_def cs by blast
  have "p \<in> B" using B(1) block_nonempty(1) by blast
  moreover have BL: "i < length (zone_mem_map (szone S'))" if "i \<in> B" for i
    using that len B(2) K by (auto simp: kept_outside_def same_pages_def)
  ultimately have "obj_page_ok (szone S') (Fp - B) a" if "a \<in> objs (caches S' c) (slabs S' s)" for a
    using fsB(2) [OF that] fsB(3) unfolding obj_page_ok_def by auto
  moreover have "obj_page_ok (szone S') (Fp - B) a" if t: "t \<in> cache_slabs c H" "a \<in> objs (caches S' c) (slabs S' t)" for t a
  proof -
    have "a \<in> objs (caches S c) (slabs S t)" using t os [of t] new by blast
    from obj_page_kept [OF K pg [OF t(1) this] B(2)] show ?thesis by blast
  qed
  ultimately show "cache_pages c S' A ?H (Fp - B)"
    using P fsB(1) unfolding cache_pages_def cs by (auto split: if_splits)
qed


lemma grow_offset:
  assumes "cache_fits c"
  shows "unat (colour_next c * colour_off c) + unat (slab_size c) + unat (num c) * unat (objsize c)
    \<le> 4096 * 2 ^ unat (gfporder c)"
proof -
  have le: "unat (colour_next c) * unat (colour_off c) \<le> unat (colour c) * unat (colour_off c)"
    using assms by (intro mult_le_mono1) (auto simp: cache_fits_def word_less_nat_alt)
  have "unat (gfporder c) \<le> 10" using assms by (simp add: cache_fits_def BUDDY_GROUPS_def)
  then have "(4096::nat) * 2 ^ unat (gfporder c) \<le> 4096 * 2 ^ 10" by (intro mult_le_mono2 power_increasing) auto
  moreover have fit: "unat (colour c) * unat (colour_off c) + unat (slab_size c) + unat (num c) * unat (objsize c)
    \<le> 4096 * 2 ^ unat (gfporder c)" using assms by (simp add: cache_fits_def)
  ultimately have "unat (colour_next c) * unat (colour_off c) \<le> 4096 * 2 ^ 10" using le by linarith
  then have "unat (colour_next c * colour_off c) = unat (colour_next c) * unat (colour_off c)"
    by (simp add: unat_word_ariths)
  then show ?thesis using le fit by linarith
qed

lemma cache_fits_cong:
  assumes "cache_fits c" "cflags c' = cflags c" "ctor c' = ctor c" "gfporder c' = gfporder c" "objsize c' = objsize c"
    "num c' = num c" "colour c' = colour c" "colour_off c' = colour_off c" "slab_size c' = slab_size c"
    "colour_next c' < colour c \<or> colour_next c' = 0"
  shows "cache_fits c'"
  using assms by (simp add: cache_fits_def OFF_SLAB_def)


lemma cache_grow_ok:
  assumes C: "cache_core c S A H F" and Z: "zone_ready k (szone S) Fp" and P: "cache_pages c S A H Fp"
    and fit: "cache_fits (caches S c)"
  shows "\<exists>b S'. cache_grow alloc c fl 0 S = Some (b, S') \<and> cache_fits (caches S' c) \<and>
    num (caches S' c) = num (caches S c) \<and>
    (\<forall>t \<in> cache_slabs c H. objs (caches S' c) (slabs S' t) = objs (caches S c) (slabs S t)) \<and>
    (if b then \<exists>p s B. B = block p (unat (gfporder (caches S c))) \<and> B \<subseteq> Fp \<and> zone_ready k (szone S') (Fp - B) \<and>
       s \<notin> cache_slabs c H \<and> cache_pages c S' A (H(Free c := H (Free c) @ [SlabList s])) (Fp - B) \<and>
       cache_core c S' A (H(Free c := H (Free c) @ [SlabList s])) (F(s := slab_objs (caches S' c) (slabs S' s)))
     else zone_ready k (szone S') Fp \<and> cache_core c S' A H F \<and> cache_pages c S' A H Fp \<and>
       (\<forall>b. aligned b (unat (gfporder (caches S c))) \<longrightarrow> \<not> block b (unat (gfporder (caches S c))) \<subseteq> Fp))"
proof -
  let ?o = "unat (gfporder (caches S c))" and ?off = "colour_next (caches S c) * colour_off (caches S c)"
  define S1 where "S1 = (let S1 = upd_cache c (\<lambda>c. c\<lparr>colour_next := colour_next c + 1\<rparr>) S in
    if colour_next (caches S1 c) \<ge> colour (caches S1 c) then upd_cache c (\<lambda>c. c\<lparr>colour_next := 0\<rparr>) S1 else S1)"
  have S1: "szone S1 = szone S" "slabs S1 = slabs S" "obj_word S1 = obj_word S" "slists S1 = slists S"
    "\<exists>n. caches S1 c = (caches S c)\<lparr>colour_next := n\<rparr> \<and> (n < colour (caches S c) \<or> n = 0)"
    by (auto simp: S1_def Let_def)
  then obtain n where n: "caches S1 c = (caches S c)\<lparr>colour_next := n\<rparr>" "n < colour (caches S c) \<or> n = 0" by blast
  have fit1: "cache_fits (caches S1 c)" by (rule cache_fits_cong [OF fit]) (use n in simp_all)
  have order: "unat (gfporder (caches S1 c)) < BUDDY_GROUPS" using fit1 by (simp add: cache_fits_def)
  obtain r z' where r: "kmem_getpages c fl S1 = Some (r, S1\<lparr>szone := z'\<rparr>)" "kept_outside Fp (szone S) z'"
    "r = 0 \<and> zone_ready k z' Fp \<and> (\<forall>b. aligned b ?o \<longrightarrow> \<not> block b ?o \<subseteq> Fp) \<or>
     (\<exists>p. r = page_address p \<and> aligned p ?o \<and> block p ?o \<subseteq> Fp \<and> zone_ready k z' (Fp - block p ?o))"
    using kmem_getpages_ok [of k S1 Fp c fl] Z S1(1) order n(1) by auto
  let ?S2 = "S1\<lparr>szone := z'\<rparr>"
  have core2: "cache_core c ?S2 A H F" "cache_pages c ?S2 A H Fp"
    by (rule core_zone [OF C P zone_readyD(2) [OF Z]]; use S1 n r(2) in simp)+
  have run: "cache_grow alloc c fl 0 S = (if r = 0 then Some (False, ?S2) else grow_slab alloc c fl r ?off ?S2)"
    using r(1) n(1) unfolding cache_grow_def S1_def Let_def by (auto split: if_splits)
  consider (none) "r = 0" "zone_ready k z' Fp" "\<forall>b. aligned b ?o \<longrightarrow> \<not> block b ?o \<subseteq> Fp"
    | (some) p where "r = page_address p" "aligned p ?o" "block p ?o \<subseteq> Fp" "zone_ready k z' (Fp - block p ?o)"
    using r(3) by blast
  then show ?thesis
  proof cases
    case none
    then show ?thesis using run core2 fit1 n(1) S1(2)
      by (intro exI [of _ False] exI [of _ ?S2]) (simp add: objs_def)
  next
    case some
    have pb: "p + 2 ^ ?o \<le> present_pages z'"
      using some(3) zone_readyD(5) [OF Z] zone_readyD(4) [OF some(4)] r(2)
      by (intro block_bound) (auto simp: kept_outside_def same_pages_def)
    have len: "Fp \<subseteq> {..<length (zone_mem_map (szone ?S2))}"
      using zone_readyD(5) [OF Z] r(2) by (auto simp: kept_outside_def same_pages_def)
    have "r \<noteq> 0" using page_offset(1) [of p 0] start_bound [OF pb] zone_readyD(3) [OF some(4)] some(1) by auto
    moreover obtain S3 where S3: "grow_slab alloc c fl (page_address p) ?off ?S2 = Some (True, S3)"
      "zone_ready k (szone S3) (Fp - block p ?o)" "kept_outside (block p ?o) (szone ?S2) (szone S3)"
      "fresh_slab c p (page_address p + ?off) ?S2 S3"
      using grow_slab_ok [of k ?S2 "Fp - block p ?o" c p ?off alloc fl] some fit1 n(1) pb grow_offset [OF fit] by auto
    moreover have zs: "zone_start_pfn (szone ?S2) = 0" using zone_readyD(2) [OF some(4)] by simp
    have "block p (unat (gfporder (caches ?S2 c))) = block p ?o" using n(1) by simp
    note fc = fresh_core [OF core2 zs S3(4) this some(3) S3(3) len]
    moreover have "cache_fits (caches S3 c)"
      by (rule cache_fits_cong [OF fit1]) (use S3(4) fit1 in \<open>auto simp: fresh_slab_def cache_fits_def\<close>)
    moreover have "num (caches S3 c) = num (caches S c)" using S3(4) n(1) by (simp add: fresh_slab_def)
    moreover have "objs (caches S3 c) (slabs S3 t) = objs (caches S c) (slabs S t)" if "t \<in> cache_slabs c H" for t
    proof -
      have "t \<noteq> page_address p + ?off" using that fc(4) by blast
      then show ?thesis using S3(4) n(1) S1(2) by (intro objs_cong) (auto simp: fresh_slab_def)
    qed
    ultimately show ?thesis using run some n(1)
      by (intro exI [of _ True] exI [of _ S3]) (auto simp del: fun_upd_apply)
  qed
qed

end
