(* ===== verification/Slab_Alloc.thy ===== *)
theory Slab_Alloc
  imports Slab_Grow
begin

text \<open>
  What the slab allocator promises: objects handed out are never in use, freed objects become free
  again, slabs are filled as far as their pages allow, and \<^verbatim>\<open>kmalloc\<close> picks the smallest sufficient
  size class.  The properties are stated on the set of objects in use.
\<close>

section \<open>Allocation\<close>

definition used_objs :: "u32 \<Rightarrow> slab_state \<Rightarrow> (snode \<Rightarrow> snode list) \<Rightarrow> (u32 \<Rightarrow> u32 list) \<Rightarrow> u32 set" where
  "used_objs c S H F = all_objs c S H - free_objs c H F"

definition cache_ok :: "u32 \<Rightarrow> u32 \<Rightarrow> slab_state \<Rightarrow> snode set \<Rightarrow> (snode \<Rightarrow> snode list) \<Rightarrow> (u32 \<Rightarrow> u32 list) \<Rightarrow> nat set \<Rightarrow> bool" where
  "cache_ok k c S A H F Fp \<longleftrightarrow>
     cache_inv c S A H F \<and> cache_pages c S A H Fp \<and> zone_ready k (szone S) Fp \<and> cache_fits (caches S c)"

lemma layout_pages:
  assumes L: "same_layout c S S'" and P: "cache_pages c S A H Fp" and H: "same_slabs c H H'" and A: "cache_heads c \<subseteq> A"
  shows "cache_pages c S' A H' Fp"
proof -
  have "virt_to_page 0 s \<notin> Fp" if a: "a \<in> A" "SlabList s \<in> set (H' a)" for a s
  proof (cases "a \<in> cache_heads c")
    case True
    then have "s \<in> cache_slabs c H" using H on_list_slab a by (fastforce simp: same_slabs_def)
    then show ?thesis using P A by (auto simp: cache_slabs_def cache_pages_def)
  qed (use a H P in \<open>auto simp: same_slabs_def cache_pages_def\<close>)
  then show ?thesis
    using P H L same_layout_objs(1) [OF L] by (auto simp: cache_pages_def same_layout_def same_slabs_def)
qed

lemma layout_fits: "same_layout c S S' \<Longrightarrow> cache_fits (caches S c) \<Longrightarrow> cache_fits (caches S' c)"
  by (rule cache_fits_cong [where c = "caches S c"]) (auto simp: same_layout_def cache_fits_def)

lemma in_slab_objs:
  assumes "cache_core c S A H F" "s \<in> cache_slabs c H"
  shows "set (F s) \<subseteq> objs (caches S c) (slabs S s)" "distinct (F s)"
    and "t \<in> cache_slabs c H \<Longrightarrow> t \<noteq> s \<Longrightarrow> objs (caches S c) (slabs S t) \<inter> objs (caches S c) (slabs S s) = {}"
proof -
  have I: "slab_inv c S s (F s)" using assms by (auto simp: cache_core_def)
  show "set (F s) \<subseteq> objs (caches S c) (slabs S s)" "distinct (F s)" using slab_invD(2,3) [OF I] by auto
  show "objs (caches S c) (slabs S t) \<inter> objs (caches S c) (slabs S s) = {}" if "t \<in> cache_slabs c H" "t \<noteq> s"
    using assms that by (simp add: cache_core_def)
qed

lemma used_take:
  assumes C: "cache_core c S A H F" and s: "s \<in> cache_slabs c H" and F: "F s = p # xs"
    and L: "same_layout c S S'" and H': "same_slabs c H H'"
  shows "used_objs c S' H' (F(s := xs)) = insert p (used_objs c S H F)" "p \<in> free_objs c H F" "p \<notin> used_objs c S H F"
proof -
  have H: "cache_slabs c H' = cache_slabs c H" using H' by (simp add: same_slabs_def)
  have all: "all_objs c S' H' = all_objs c S H" using same_layout_objs(1) [OF L] by (simp add: all_objs_def H)
  have p: "p \<in> objs (caches S c) (slabs S s)" "p \<notin> set xs" using in_slab_objs(1,2) [OF C s] F by auto
  have off: "p \<notin> set (F t)" if "t \<in> cache_slabs c H" "t \<noteq> s" for t
    using in_slab_objs(1) [OF C that(1)] in_slab_objs(3) [OF C s that] p(1) by blast
  have "free_objs c H' (F(s := xs)) = free_objs c H F - {p}"
  proof -
    have "set ((F(s := xs)) t) = set (F t) - {p}" if "t \<in> cache_slabs c H" for t
      using F p(2) off [OF that] by (cases "t = s") auto
    then show ?thesis unfolding free_objs_def H by blast
  qed
  moreover have "p \<in> all_objs c S H" using s p(1) by (auto simp: all_objs_def)
  moreover show "p \<in> free_objs c H F" using s F by (force simp: free_objs_def)
  ultimately show "used_objs c S' H' (F(s := xs)) = insert p (used_objs c S H F)" "p \<notin> used_objs c S H F"
    by (auto simp: used_objs_def all)
qed


lemma available_if_free: 
  assumes "cache_inv c S A H F" "H (Partial c) = []" "H (Free c) = []"
  shows "free_objs c H F = {}"
  using assms by (auto simp: free_objs_def cache_slabs_def cache_heads_def cache_inv_def slabs_sorted_def)

lemma cache_alloc_present:
  assumes ok: "cache_ok k c S A H F Fp" and some: "H (Partial c) \<noteq> [] \<or> H (Free c) \<noteq> []"
  shows "\<exists>p S' H' F'. kmem_cache_alloc (Suc d) c fl S = Some (p, S') \<and> cache_ok k c S' A H' F' Fp \<and> p \<noteq> 0 \<and>
    p \<in> all_objs c S' H' \<and> p \<notin> used_objs c S H F \<and> used_objs c S' H' F' = insert p (used_objs c S H F)"
proof -
  have I: "cache_inv c S A H F" and C: "cache_core c S A H F" using ok by (auto simp: cache_ok_def cache_inv_def)
  obtain p s xs S' H' where r: "kmem_cache_alloc (Suc d) c fl S = Some (p, S')" "s \<in> cache_slabs c H" "F s = p # xs"
    "cache_inv c S' A H' (F(s := xs))" "same_slabs c H H'" "same_layout c S S'"
    using cache_alloc_available [OF I some] by blast
  note U = used_take [OF C r(2,3,6,5)]
  have "cache_ok k c S' A H' (F(s := xs)) Fp"
    using ok r(4,6) layout_pages [OF r(6) _ r(5)] layout_fits [OF r(6)] C
    by (auto simp: cache_ok_def same_layout_def cache_core_def)
  moreover have "p \<noteq> 0" using C r(2,3) slab_invD(1) [of c S s "F s"] by (auto simp: cache_core_def)
  moreover have "p \<in> all_objs c S' H'" using U(1) by (auto simp: used_objs_def)
  ultimately show ?thesis using r(1) U by blast
qed

lemma fresh_used:
  assumes C: "cache_core c S' A (H(Free c := H (Free c) @ [SlabList s])) (F(s := slab_objs (caches S' c) (slabs S' s)))"
    and s: "s \<notin> cache_slabs c H" and old: "\<And>t. t \<in> cache_slabs c H \<Longrightarrow> objs (caches S' c) (slabs S' t) = objs (caches S c) (slabs S t)"
  shows "used_objs c S' (H(Free c := H (Free c) @ [SlabList s])) (F(s := slab_objs (caches S' c) (slabs S' s))) = used_objs c S H F"
proof -
  let ?H = "H(Free c := H (Free c) @ [SlabList s])"
  have cs: "cache_slabs c ?H = insert s (cache_slabs c H)" by (auto simp: cache_slabs_def cache_heads_def)
  have disj: "objs (caches S c) (slabs S t) \<inter> objs (caches S' c) (slabs S' s) = {}" if "t \<in> cache_slabs c H" for t
    using in_slab_objs(3) [OF C, of s t] that s old [OF that] by (auto simp: cs)
  have "set (F t) \<subseteq> objs (caches S c) (slabs S t)" if "t \<in> cache_slabs c H" for t
    using in_slab_objs(1) [OF C, of t] that s old [OF that] by (auto simp: cs)
  then have "(\<Union>t \<in> cache_slabs c H. set (F t)) \<inter> objs (caches S' c) (slabs S' s) = {}" using disj by blast
  moreover have "(\<Union>t \<in> cache_slabs c H. objs (caches S c) (slabs S t)) \<inter> objs (caches S' c) (slabs S' s) = {}"
    using disj by blast
  moreover have "all_objs c S' ?H = objs (caches S' c) (slabs S' s) \<union> all_objs c S H"
    unfolding all_objs_def cs using old by auto
  moreover have "free_objs c ?H (F(s := slab_objs (caches S' c) (slabs S' s))) =
      objs (caches S' c) (slabs S' s) \<union> free_objs c H F"
    unfolding free_objs_def cs using s by (auto split: if_splits)
  ultimately show ?thesis by (auto simp: used_objs_def all_objs_def free_objs_def)
qed


lemma refill_after_grow:
  assumes "next_of (slists S) (Partial c) = Partial c" "next_of (slists S) (Free c) = Free c"
    and "cache_grow alloc c fl 0 S = Some (True, S1)"
    and "next_of (slists S1) (Partial c) = Partial c" "next_of (slists S1) (Free c) \<noteq> Free c"
  shows "refill_slab alloc c fl S = refill_slab alloc c fl S1"
  using assms by (simp add: refill_slab_def)

lemma cache_alloc_ok:
  assumes ok: "cache_ok k c S A H F Fp"
  shows "\<exists>p S' H' F' Fp'. kmem_cache_alloc (Suc d) c fl S = Some (p, S') \<and> cache_ok k c S' A H' F' Fp' \<and> Fp' \<subseteq> Fp \<and>
    (if p = 0 then used_objs c S' H' F' = used_objs c S H F \<and> free_objs c H F = {} \<and>
       (\<forall>b. aligned b (unat (gfporder (caches S c))) \<longrightarrow> \<not> block b (unat (gfporder (caches S c))) \<subseteq> Fp)
     else p \<in> all_objs c S' H' \<and> p \<notin> used_objs c S H F \<and> used_objs c S' H' F' = insert p (used_objs c S H F))"
proof (cases "H (Partial c) \<noteq> [] \<or> H (Free c) \<noteq> []")
  case True
  from cache_alloc_present [OF ok this, of d fl] show ?thesis by fastforce
next
  case False
  note I = ok [unfolded cache_ok_def]
  have C: "cache_core c S A H F" and sorted: "slabs_sorted c (unat (num (caches S c))) H F"
    using I by (auto simp: cache_inv_def)
  have empty: "next_of (slists S) (Partial c) = Partial c" "next_of (slists S) (Free c) = Free c"
    using head_slab(1) [OF C] False by auto
  obtain b S1 where g: "cache_grow (kmem_cache_alloc d) c fl 0 S = Some (b, S1)" "cache_fits (caches S1 c)"
    "num (caches S1 c) = num (caches S c)"
    "\<forall>t \<in> cache_slabs c H. objs (caches S1 c) (slabs S1 t) = objs (caches S c) (slabs S t)"
    "if b then \<exists>p s B. B = block p (unat (gfporder (caches S c))) \<and> B \<subseteq> Fp \<and> zone_ready k (szone S1) (Fp - B) \<and>
       s \<notin> cache_slabs c H \<and> cache_pages c S1 A (H(Free c := H (Free c) @ [SlabList s])) (Fp - B) \<and>
       cache_core c S1 A (H(Free c := H (Free c) @ [SlabList s])) (F(s := slab_objs (caches S1 c) (slabs S1 s)))
     else zone_ready k (szone S1) Fp \<and> cache_core c S1 A H F \<and> cache_pages c S1 A H Fp \<and>
       (\<forall>b. aligned b (unat (gfporder (caches S c))) \<longrightarrow> \<not> block b (unat (gfporder (caches S c))) \<subseteq> Fp)"
    using cache_grow_ok [OF C, of k Fp "kmem_cache_alloc d" fl] I by blast
  show ?thesis
  proof (cases b)
    case True
    then obtain p s B where s: "B \<subseteq> Fp" "zone_ready k (szone S1) (Fp - B)" "s \<notin> cache_slabs c H"
      "cache_pages c S1 A (H(Free c := H (Free c) @ [SlabList s])) (Fp - B)"
      "cache_core c S1 A (H(Free c := H (Free c) @ [SlabList s])) (F(s := slab_objs (caches S1 c) (slabs S1 s)))"
      using g(5) by auto
    let ?H = "H(Free c := H (Free c) @ [SlabList s])" and ?F = "F(s := slab_objs (caches S1 c) (slabs S1 s))"
    have off: "SlabList s \<notin> set (H (Partial c))" "SlabList s \<notin> set (H (Full c))" "SlabList s \<notin> set (H (Free c))"
      using s(3) unfolding cache_slabs_def cache_heads_def by auto
    have "slabs_sorted c (unat (num (caches S1 c))) ?H ?F"
      using sorted False off g(3) by (auto simp: slabs_sorted_def)
    then have ok1: "cache_ok k c S1 A ?H ?F (Fp - B)" using s g(2) by (simp add: cache_ok_def cache_inv_def)
    have "refill_slab (kmem_cache_alloc d) c fl S = refill_slab (kmem_cache_alloc d) c fl S1"
      by (rule refill_after_grow [OF empty]) (use True g(1) head_slab(1) [OF s(5)] False in auto)
    then have run: "kmem_cache_alloc (Suc d) c fl S = kmem_cache_alloc (Suc d) c fl S1"
      using display_core [OF C] display_core [OF s(5)] by (simp add: cache_alloc_refill_def)
    have "used_objs c S1 ?H ?F = used_objs c S H F" by (rule fresh_used [OF s(5,3)]) (use g(4) in auto)
    with cache_alloc_present [OF ok1, of d fl] show ?thesis unfolding run by fastforce
  next
    case False
    then have "refill_slab (kmem_cache_alloc d) c fl S = Some (None, S1)"
      using empty g(1) by (simp add: refill_slab_def)
    then have run: "kmem_cache_alloc (Suc d) c fl S = Some (0, S1)"
      using display_core [OF C] by (simp add: cache_alloc_refill_def)
    moreover have "cache_ok k c S1 A H F Fp" using False g sorted by (simp add: cache_ok_def cache_inv_def)
    moreover have "used_objs c S1 H F = used_objs c S H F" using g(4) by (simp add: used_objs_def all_objs_def)
    moreover have "free_objs c H F = {}"
      by (rule available_if_free) (use I \<open>\<not> (H (Partial c) \<noteq> [] \<or> H (Free c) \<noteq> [])\<close> in auto)
    ultimately show ?thesis using False g(5) by (intro exI [of _ 0] exI [of _ S1] exI [of _ H] exI [of _ F] exI [of _ Fp]) simp
  qed
qed


lemma cache_free_ok:
  assumes ok: "cache_ok k c S A H F Fp" and p: "p \<in> used_objs c S H F"
    and keep: "free_objects (caches S c) + 1 \<le> free_limit (caches S c)"
  shows "\<exists>S' H' F'. kmem_cache_free (Suc d) c p S = Some S' \<and> cache_ok k c S' A H' F' Fp \<and>
    used_objs c S' H' F' = used_objs c S H F - {p} \<and> all_objs c S' H' = all_objs c S H"
proof -
  have I: "cache_inv c S A H F" and C: "cache_core c S A H F" using ok by (auto simp: cache_ok_def cache_inv_def)
  obtain s where s: "s \<in> cache_slabs c H" "p \<in> objs (caches S c) (slabs S s)" "p \<notin> set (F s)"
    using p by (auto simp: used_objs_def all_objs_def free_objs_def)
  obtain S' H' where r: "kmem_cache_free (Suc d) c p S = Some S'" "cache_inv c S' A H' (F(s := p # F s))"
    "same_slabs c H H'" "same_layout c S S'"
    using cache_free_kept [OF I s] keep by blast
  have H: "cache_slabs c H' = cache_slabs c H" using r(3) by (simp add: same_slabs_def)
  have all: "all_objs c S' H' = all_objs c S H" using same_layout_objs(1) [OF r(4)] by (simp add: all_objs_def H)
  have "free_objs c H' (F(s := p # F s)) = insert p (free_objs c H F)"
    unfolding free_objs_def H using s(1) by (auto split: if_splits)
  then have "used_objs c S' H' (F(s := p # F s)) = used_objs c S H F - {p}" by (auto simp: used_objs_def all)
  moreover have "cache_ok k c S' A H' (F(s := p # F s)) Fp"
    using ok r(2,4) layout_pages [OF r(4) _ r(3)] layout_fits [OF r(4)] C
    by (auto simp: cache_ok_def same_layout_def cache_core_def)
  ultimately show ?thesis using r(1) all by blast
qed

section \<open>Sizes\<close>

lemma unat_slab_bytes: "order \<le> 10 \<Longrightarrow> unat (push_bit order 4096 :: u32) = 4096 * 2 ^ order"
proof -
  assume "order \<le> 10"
  then have "4096 * 2 ^ order \<le> (4096::nat) * 2 ^ 10" by (intro mult_le_mono2 power_increasing) auto
  then have "unat (of_nat (4096 * 2 ^ order) :: u32) = 4096 * 2 ^ order" by (intro unat_of_nat_u32) simp
  then show ?thesis by (simp add: push_bit_eq_mult)
qed

lemma estimate_on_slab:
  fixes b m s :: nat
  assumes "0 < s" "28 \<le> m" "m \<le> 28 + s" "m \<le> b" and n: "n = (let n = (b - 28) div s in if m + n * s > b then n - 1 else n)"
  shows "n * s + m \<le> b \<and> b - n * s - m < s"
proof -
  define q where "q = (b - 28) div s"
  have q: "q * s \<le> b - 28" "b - 28 < q * s + s"
    using dividend_less_div_times [OF assms(1), of "b - 28"] by (simp_all add: q_def)
  show ?thesis
  proof (cases "m + q * s > b")
    case True
    then have "0 < q" using assms(4) by (cases q) auto
    then obtain r where r: "q = Suc r" by (cases q) auto
    show ?thesis using True q assms(2-4) r by (auto simp: q_def [symmetric] Let_def n)
  next
    case False
    then show ?thesis using q assms(2-4) by (auto simp: q_def [symmetric] Let_def n)
  qed
qed

definition mgmt_bytes :: "u32 \<Rightarrow> u32 \<Rightarrow> nat" where
  "mgmt_bytes align fl = (if (fl AND CFLGS_OFF_SLAB) \<noteq> 0 then 0 else unat (slab_mgmt_size align))"

lemma cache_estimate_ok:
  assumes order: "order \<le> 10" and sz: "0 < osize" and mg: "28 \<le> slab_mgmt_size align"
      "unat (slab_mgmt_size align) \<le> 28 + unat osize" "slab_mgmt_size align \<le> 4096"
  shows "\<exists>left n. cache_estimate order osize align fl = Some (left, n) \<and>
    unat n * unat osize + mgmt_bytes align fl + unat left = 4096 * 2 ^ order \<and> left < osize"
proof -
  let ?b = "push_bit order 4096 :: u32" and ?s = "unat osize"
  define B :: nat where "B = 4096 * 2 ^ order"
  have b: "unat ?b = B" using unat_slab_bytes [OF order] by (simp add: B_def)
  have b4: "4096 \<le> B" by (simp add: B_def)
  have s0: "0 < ?s" "osize \<noteq> 0" using sz by (auto simp: unat_gt_0)
  have "B \<le> (4096::nat) * 2 ^ 10" unfolding B_def using order by (intro mult_le_mono2 power_increasing) auto
  then have bmax: "B \<le> 4194304" by simp
  show ?thesis
  proof (cases "(fl AND CFLGS_OFF_SLAB) \<noteq> 0")
    case True
    let ?n = "?b div osize"
    have n: "unat ?n = B div ?s" by (simp add: unat_div_distrib b)
    have le: "unat ?n * ?s \<le> B" unfolding n by simp
    have m: "unat (?n * osize) = unat ?n * ?s" using le bmax by (subst unat_word_ariths) simp
    have "unat (?b - ?n * osize) = B - unat ?n * ?s"
      using m le b by (subst unat_sub) (auto simp: word_le_nat_alt)
    moreover have "B - unat ?n * ?s < ?s"
      unfolding n minus_div_mult_eq_mod using s0(1) by simp
    ultimately show ?thesis using True le s0 B_def
      by (auto simp: cache_estimate_def Let_def mgmt_bytes_def word_less_nat_alt)
  next
    case False
    let ?m = "unat (slab_mgmt_size align)"
    define q where "q = (?b - sizeof_slab) div osize"
    define n where "n = (if slab_mgmt_size align + q * osize > ?b then q - 1 else q)"
    have m: "28 \<le> ?m" "?m \<le> 4096" using mg by (auto simp: word_le_nat_alt)
    have q: "unat q = (B - 28) div ?s"
      unfolding q_def unat_div_distrib using b b4 by (subst unat_sub) (auto simp: sizeof_slab_def word_le_nat_alt)
    have qle: "unat q * ?s \<le> B - 28" unfolding q by simp
    have qs: "unat (q * osize) = unat q * ?s" using qle bmax by (subst unat_word_ariths) simp
    have "unat (slab_mgmt_size align + q * osize) = ?m + unat q * ?s"
      using qs qle bmax m by (subst unat_plus) auto
    then have cond: "slab_mgmt_size align + q * osize > ?b \<longleftrightarrow> ?m + unat q * ?s > B"
      using b by (simp add: word_less_nat_alt)
    have "q \<noteq> 0" if "?m + unat q * ?s > B" using that m b4 by (cases "q = 0") auto
    then have n': "unat n = (let n = (B - 28) div ?s in if ?m + n * ?s > B then n - 1 else n)"
      unfolding n_def cond Let_def q [symmetric] by (auto simp: unat_minus_one)
    note E = estimate_on_slab [OF s0(1) m(1) mg(2) order_trans [OF m(2) b4] n']
    have ns: "unat (n * osize) = unat n * ?s" using E bmax by (subst unat_word_ariths) simp
    have d: "unat (?b - n * osize) = B - unat n * ?s"
      using E ns b by (subst unat_sub) (auto simp: word_le_nat_alt)
    have "unat (?b - n * osize - slab_mgmt_size align) = B - unat n * ?s - ?m"
      using E d by (subst unat_sub) (auto simp: word_le_nat_alt)
    moreover have "cache_estimate order osize align fl = Some (?b - n * osize - slab_mgmt_size align, n)"
      using False s0 by (simp add: cache_estimate_def Let_def n_def q_def)
    ultimately show ?thesis using False E B_def by (simp add: mgmt_bytes_def word_less_nat_alt)
  qed
qed


definition none_fits :: "nat \<Rightarrow> u32 \<Rightarrow> u32 \<Rightarrow> u32 \<Rightarrow> bool" where
  "none_fits order osize align fl \<longleftrightarrow> map_option snd (cache_estimate order osize align fl) = Some 0"

lemma slab_order_from_ok:
  assumes sz: "0 < osize" and mg: "28 \<le> slab_mgmt_size align"
      "unat (slab_mgmt_size align) \<le> 28 + unat osize" "slab_mgmt_size align \<le> 4096"
    and "order + k \<le> 10"
  shows "\<exists>left n ord. slab_order_from k order osize align fl = Some (left, n, ord) \<and>
    (if n = 0 then \<forall>i. order \<le> i \<longrightarrow> i \<le> order + k \<longrightarrow> none_fits i osize align fl
     else order \<le> ord \<and> ord \<le> order + k \<and> cache_estimate ord osize align fl = Some (left, n) \<and>
       (\<forall>i. order \<le> i \<longrightarrow> i < ord \<longrightarrow> none_fits i osize align fl))"
  using assms(5)
proof (induction k arbitrary: order)
  case 0
  obtain left n where e: "cache_estimate order osize align fl = Some (left, n)"
    using cache_estimate_ok [OF _ sz mg, of order fl] 0 by auto
  then show ?case by (cases "n = 0") (auto simp: none_fits_def dest: le_antisym)
next
  case (Suc k)
  obtain left n where e: "cache_estimate order osize align fl = Some (left, n)"
    using cache_estimate_ok [OF _ sz mg, of order fl] Suc.prems by auto
  show ?case
  proof (cases "n = 0")
    case True
    have step: "none_fits i osize align fl" if "order \<le> i" "Suc order \<le> i \<Longrightarrow> none_fits i osize align fl" for i
      using e True that by (cases "i = order") (auto simp: none_fits_def)
    from Suc.IH [of "Suc order"] Suc.prems obtain left' n' ord where
      r: "slab_order_from k (Suc order) osize align fl = Some (left', n', ord)"
      "if n' = 0 then \<forall>i. Suc order \<le> i \<longrightarrow> i \<le> Suc order + k \<longrightarrow> none_fits i osize align fl
       else Suc order \<le> ord \<and> ord \<le> Suc order + k \<and> cache_estimate ord osize align fl = Some (left', n') \<and>
         (\<forall>i. Suc order \<le> i \<longrightarrow> i < ord \<longrightarrow> none_fits i osize align fl)" by auto
    then show ?thesis using e True step by (cases "n' = 0") auto
  qed (use e in auto)
qed

lemma size_class_Some:
  assumes "size_class req xs = Some c"
  shows "\<exists>i < length xs. snd (xs ! i) = c \<and> req \<le> fst (xs ! i) \<and> (\<forall>j < i. fst (xs ! j) < req)"
  using assms
proof (induction req xs rule: size_class.induct)
  case (2 req cs d xs)
  show ?case
  proof (cases "req > cs")
    case True
    then obtain i where "i < length xs" "snd (xs ! i) = c" "req \<le> fst (xs ! i)" "\<forall>j < i. fst (xs ! j) < req"
      using 2 by auto
    then show ?thesis using True by (intro exI [of _ "Suc i"]) (auto simp: less_Suc_eq_0_disj)
  qed (use 2 in auto)
qed simp

lemma size_class_None: "size_class req xs = None \<longleftrightarrow> (\<forall>x \<in> set xs. fst x < req)"
  by (induction req xs rule: size_class.induct) auto


lemma finish_cache_fields:
  fixes cachep name osize align fl ctorp left_over S
  defines "c \<equiv> caches (finish_cache cachep name osize align fl ctorp left_over S) cachep"
    and "coff \<equiv> (if cache_line_size < align then align else cache_line_size)"
  shows "num c = num (caches S cachep)" "gfporder c = gfporder (caches S cachep)" "colour_next c = colour_next (caches S cachep)"
    "colour_off c = coff" "colour c = left_over div coff" "objsize c = osize" "ctor c = ctorp" "cflags c = fl"
    "slab_size c = (if (fl AND CFLGS_OFF_SLAB) \<noteq> 0 then sizeof_slab else ALIGN sizeof_slab align)"
    "free_limit c = num (caches S cachep)"
  by (simp_all add: assms finish_cache_def Let_def)

lemma fill_cache_Some:
  assumes "fill_cache cachep name osize align fl ctorp S = Some (cachep, S')" "cachep \<noteq> 0"
  shows "\<exists>left n order S1. calculate_slab_order (ALIGN osize align) align fl = Some (left, n, order) \<and> n \<noteq> 0 \<and>
    num (caches S1 cachep) = n \<and> gfporder (caches S1 cachep) = of_nat order \<and>
    S' = finish_cache cachep name (ALIGN osize align) align fl ctorp left S1"
proof -
  obtain left n order where c: "calculate_slab_order (ALIGN osize align) align fl = Some (left, n, order)"
    using assms(1) by (auto simp: fill_cache_def Let_def bind_eq_Some_conv)
  let ?S = "upd_cache cachep (\<lambda>c. c\<lparr>num := n, gfporder := of_nat order\<rparr>)
    (upd_cache cachep (\<lambda>c. c\<lparr>objsize := osize\<rparr>) (kmem_list3_init cachep S))"
  have "n \<noteq> 0" using assms c by (auto simp: fill_cache_def Let_def bind_eq_Some_conv)
  then have "S' = finish_cache cachep name (ALIGN osize align) align fl ctorp left ?S"
    using assms c by (simp add: fill_cache_def Let_def)
  then show ?thesis using c \<open>n \<noteq> 0\<close>
    by (intro exI [of _ left] exI [of _ n] exI [of _ order] exI [of _ ?S]) simp
qed

lemma fill_cache_result:
  "fill_cache cachep name osize align fl ctorp S = Some (r, S') \<Longrightarrow> r = 0 \<or> r = cachep"
  by (auto simp: fill_cache_def Let_def bind_eq_Some_conv split: if_splits)

lemma kmem_cache_create_Some:
  assumes "kmem_cache_create name osize align fl ctorp S = Some (cachep, S')" "cachep \<noteq> 0"
  shows "\<exists>S0. fill_cache cachep name (round_word osize) align fl ctorp S0 = Some (cachep, S')"
proof -
  obtain c0 S0 where "kmem_cache_alloc 2 (cache_cache S) 0 S = Some (c0, S0)"
    "(if c0 = 0 then Some (0, S0) else fill_cache c0 name (round_word osize) align fl ctorp S0) = Some (cachep, S')"
    using assms(1) by (auto simp: kmem_cache_create_def Let_def bind_eq_Some_conv)
  moreover from this have "c0 = cachep" using assms(2) by (auto split: if_splits dest: fill_cache_result)
  ultimately show ?thesis using assms(2) by (auto split: if_splits)
qed


lemma mgmt_32: "align = 8 \<or> align = 32 \<Longrightarrow> slab_mgmt_size align = 32"
  by (auto simp: slab_mgmt_size_def ALIGN_def sizeof_slab_def)

lemma calculate_slab_order_ok:
  assumes "align = 8 \<or> align = 32" and "4 \<le> osize" and "calculate_slab_order osize align fl = Some (left, n, order)" and "n \<noteq> 0"
  shows "order \<le> 10 \<and> unat n * unat osize + mgmt_bytes align fl + unat left = 4096 * 2 ^ order \<and> left < osize \<and>
    (\<forall>i < order. none_fits i osize align fl)"
proof -
  have sz: "0 < osize" "unat (slab_mgmt_size align) \<le> 28 + unat osize" using assms(2) mgmt_32 [OF assms(1)]
    by (auto simp: word_le_nat_alt word_less_nat_alt)
  have mg: "28 \<le> slab_mgmt_size align" "slab_mgmt_size align \<le> 4096" using mgmt_32 [OF assms(1)] by simp_all
  have r: "order \<le> 10" "cache_estimate order osize align fl = Some (left, n)" "\<forall>i < order. none_fits i osize align fl"
    using slab_order_from_ok [OF sz(1) mg(1) sz(2) mg(2), of 0 10 fl] assms(3,4)
    by (auto simp: calculate_slab_order_def KMALLOC_MAX_ORDER_def)
  with cache_estimate_ok [OF r(1) sz(1) mg(1) sz(2) mg(2), of fl] show ?thesis by auto
qed

lemma created_fits:
  assumes "align = 8 \<or> align = 32" and "4 \<le> ALIGN (round_word osize) align" and "(fl AND CFLGS_OFF_SLAB) = 0"
    and "kmem_cache_create name osize align fl 0 S = Some (cachep, S')" "cachep \<noteq> 0" and "colour_next (caches S' cachep) = 0"
  shows "cache_fits (caches S' cachep)"
proof -
  let ?sz = "ALIGN (round_word osize) align" and ?c = "caches S' cachep"
  obtain left n order S1 where r: "calculate_slab_order ?sz align fl = Some (left, n, order)" "n \<noteq> 0"
    "num (caches S1 cachep) = n" "gfporder (caches S1 cachep) = of_nat order"
    "S' = finish_cache cachep name ?sz align fl 0 left S1"
    using kmem_cache_create_Some [OF assms(4,5)] fill_cache_Some [OF _ assms(5)] by metis
  note F = finish_cache_fields [of cachep name ?sz align fl 0 left S1, folded r(5)]
  note O = calculate_slab_order_ok [OF assms(1,2) r(1,2)]
  have coff: "(if cache_line_size < align then align else cache_line_size) = 32"
    using assms(1) by (auto simp: cache_line_size_def)
  have "unat (colour ?c) * unat (colour_off ?c) \<le> unat left"
    unfolding F(4,5) coff by (simp add: unat_div_distrib)
  moreover have "unat (slab_size ?c) = mgmt_bytes align fl"
    using F(9) assms(3) by (simp add: mgmt_bytes_def slab_mgmt_size_def)
  moreover have "unat (gfporder ?c) = order" using F(2) r(4) O by (simp add: unat_of_nat_u32)
  moreover have "0 < ?sz" "0 < n" using assms(2) r(2) by (auto simp: word_neq_0_conv word_le_nat_alt word_less_nat_alt)
  ultimately show ?thesis using O F r(3) assms(3,6)
    by (simp add: cache_fits_def OFF_SLAB_def BUDDY_GROUPS_def)
qed

lemma kmalloc_class:
  assumes "length (cs_cachep S) = length malloc_sizes" "req \<le> 131072"
  shows "\<exists>i < length malloc_sizes. kmalloc req fl S = kmem_cache_alloc 2 (cs_cachep S ! i) fl S \<and>
    req \<le> malloc_sizes ! i \<and> (\<forall>j < i. malloc_sizes ! j < req)"
proof -
  let ?xs = "zip malloc_sizes (cs_cachep S)"
  have "(131072, cs_cachep S ! 14) = ?xs ! 14" using assms(1) by (simp add: malloc_sizes_def)
  moreover have "14 < length ?xs" using assms(1) by (simp add: malloc_sizes_def)
  ultimately have "(131072, cs_cachep S ! 14) \<in> set ?xs" by (metis nth_mem)
  then obtain c where c: "size_class req ?xs = Some c"
    using size_class_None [of req ?xs] assms(2) by (cases "size_class req ?xs") (auto dest!: bspec)
  from size_class_Some [OF this] obtain i where "i < length ?xs" "snd (?xs ! i) = c" "req \<le> fst (?xs ! i)"
    "\<forall>j < i. fst (?xs ! j) < req" by blast
  then show ?thesis using assms(1) c by (intro exI [of _ i]) (auto simp: kmalloc_def)
qed

lemma kmalloc_too_big: "131072 < req \<Longrightarrow> kmalloc req fl S = Some (0, S)"
proof -
  assume "131072 < req"
  then have "\<forall>x \<in> set malloc_sizes. x < req" by (auto simp: malloc_sizes_def elim: less_trans [rotated])
  then have "size_class req (zip malloc_sizes (cs_cachep S)) = None"
    unfolding size_class_None by (auto dest: set_zip_leftD)
  then show ?thesis by (simp add: kmalloc_def)
qed


section \<open>A sample cache\<close>

definition sample_kc :: kmem_cache where
  "sample_kc = \<lparr>free_objects = 0, objsize = 128, cflags = 0, num = 31, free_limit = 31, gfporder = 0, gfpflags = 0,
     colour = 3, colour_off = 32, colour_next = 0, slabp_cache = 0, slab_size = 32, ctor = 0, dtor = 0, cname = ''kmem_cache''\<rparr>"

definition sample_slab :: slab_state where
  "sample_slab = \<lparr>szone = sample_free, caches = \<lambda>_. sample_kc,
     slabs = \<lambda>_. \<lparr>colouroff = 0, s_mem = 0, inuse = 0, sfree = 0, free_list = 0\<rparr>, obj_word = \<lambda>_. 0,
     slists = \<lparr>next_of = id, prev_of = id\<rparr>, cs_cachep = replicate 15 0x1000, cache_cache = 0x1000\<rparr>"

lemma sample_slab_ok: "cache_ok 0 0x1000 sample_slab (cache_heads 0x1000) (\<lambda>_. []) (\<lambda>_. []) {0..<4}"
  using sample_free_ok
  by (auto simp: cache_ok_def cache_inv_def cache_core_def slabs_sorted_def cache_pages_def zone_ready_def cache_fits_def
      sample_slab_def sample_kc_def dlists_def dlist_def cache_heads_def cache_slabs_def OFF_SLAB_def CFLGS_OFF_SLAB_def
      BUDDY_GROUPS_def sample_free_def sample_zone_def)

definition sample_busy :: slab_state where
  "sample_busy = sample_slab\<lparr>
     szone := (sample_owned 1)\<lparr>zone_mem_map := [blank_page\<lparr>page_zone := ZONE, first_page := Some 0\<rparr>],
       lists := \<lparr>next_of = id(LRU 0 := Ext 0x1000), prev_of = id(LRU 0 := Ext 0xC0000000)\<rparr>\<rparr>,
     caches := \<lambda>_. sample_kc\<lparr>num := 2, free_objects := 1, free_limit := 2\<rparr>,
     slabs := \<lambda>_. \<lparr>colouroff = 32, s_mem = 0xC0000020, inuse = 1, sfree = 0, free_list = 0xC00000A0\<rparr>,
     slists := list_add (Partial 0x1000) (SlabList 0xC0000000) \<lparr>next_of = id, prev_of = id\<rparr>\<rparr>"

definition sample_lists_of :: "snode \<Rightarrow> snode list" where
  "sample_lists_of a = (if a = Partial 0x1000 then [SlabList 0xC0000000] else [])"

lemma sample_busy_objs: "objs (caches sample_busy c) (slabs sample_busy s) = {0xC0000020, 0xC00000A0}"
  by (auto simp: objs_def sample_busy_def sample_kc_def lessThan_nat_numeral lessThan_Suc)

lemma sample_busy_slabs: "cache_slabs 0x1000 sample_lists_of = {0xC0000000}"
  by (auto simp: cache_slabs_def cache_heads_def sample_lists_of_def)

lemma sample_busy_zone: "zone_ready 0 (szone sample_busy) {}"
proof -
  have "buddy_ok 0 (szone sample_busy) {}"
    by (rule buddy_ok_frame [OF sample_owned_ok [of 1]])
      (auto simp: sample_busy_def sample_owned_def sample_zone_def PagePrivate_iff blank_page_def)
  then show ?thesis by (simp add: zone_ready_def sample_busy_def sample_owned_def sample_zone_def)
qed

lemma sample_busy_page: "virt_to_page 0 0xC0000020 = 0" "virt_to_page 0 0xC00000A0 = 0"
  by (simp_all add: virt_to_page_def pfn_to_page_def pa_of_def PAGE_OFFSET_def)

lemma sample_busy_ok: "cache_ok 0 0x1000 sample_busy (cache_heads 0x1000) sample_lists_of (\<lambda>_. [0xC00000A0]) {}"
proof -
  have "dlists (slists sample_busy) (cache_heads 0x1000) sample_lists_of"
    by (auto simp: sample_busy_def dlists_def dlist_def cache_heads_def sample_lists_of_def list_op_defs heap_simps)
  moreover have "slab_inv 0x1000 sample_busy 0xC0000000 [0xC00000A0]"
    unfolding slab_inv_def Let_def sample_busy_objs
    by (auto simp: virt_to_slab_def sample_busy_page get_page_def) 
      (simp_all add: sample_busy_def sample_slab_def sample_kc_def sample_owned_def sample_zone_def sample_busy_page)
  moreover have "cache_pages 0x1000 sample_busy (cache_heads 0x1000) sample_lists_of {}"
    by (auto simp: cache_pages_def sample_busy_slabs sample_busy_objs obj_page_ok_def sample_busy_page cache_heads_def)
      (simp_all add: sample_busy_def)
  moreover have "cache_fits (caches sample_busy 0x1000)"
    by (simp add: cache_fits_def sample_busy_def sample_kc_def OFF_SLAB_def CFLGS_OFF_SLAB_def BUDDY_GROUPS_def)
  ultimately show ?thesis using sample_busy_zone
    by (auto simp: cache_ok_def cache_inv_def cache_core_def slabs_sorted_def sample_busy_slabs)
      (auto simp: sample_busy_def sample_kc_def sample_lists_of_def cache_heads_def)
qed

lemma sample_busy_used: "used_objs 0x1000 sample_busy sample_lists_of (\<lambda>_. [0xC00000A0]) = {0xC0000020}"
  by (auto simp: used_objs_def all_objs_def free_objs_def sample_busy_slabs sample_busy_objs)

lemma sample_busy_alloc:
  "map_option (\<lambda>(p, S). (p, colour_next (caches S p))) (kmem_cache_alloc 2 0x1000 0 sample_busy) = Some (0xC00000A0, 0)"
  by code_simp

lemma sample_order: "calculate_slab_order 104 8 0 = Some (8, 39, 0)"
proof -
  have k: "KMALLOC_MAX_ORDER = Suc 9" by (simp add: KMALLOC_MAX_ORDER_def)
  have "cache_estimate 0 104 8 0 = Some (8, 39)"
    by (simp add: cache_estimate_def Let_def sizeof_slab_def slab_mgmt_size_def ALIGN_def CFLGS_OFF_SLAB_def)
  then show ?thesis unfolding calculate_slab_order_def k slab_order_from.simps by simp
qed

lemma sample_create:
  "\<exists>S'. kmem_cache_create ''inode'' 100 8 0 0 sample_busy = Some (0xC00000A0, S') \<and>
    colour_next (caches S' 0xC00000A0) = 0"
proof -
  obtain S0 where S0: "kmem_cache_alloc 2 0x1000 0 sample_busy = Some (0xC00000A0, S0)" "colour_next (caches S0 0xC00000A0) = 0"
    using sample_busy_alloc by auto
  have c: "cache_cache sample_busy = 0x1000" by (simp add: sample_busy_def sample_slab_def)
  have r: "round_word 100 = 100" "ALIGN 100 8 = 104" by (simp_all add: round_word_def ALIGN_def BYTES_PER_WORD_def)
  show ?thesis using S0
    by (simp add: kmem_cache_create_def fill_cache_def Let_def c r sample_order finish_cache_fields(3) kmem_list3_init_def)
qed

section \<open>Properties\<close>

text \<open>
  C14: allocation from a cache with on-slab descriptors always returns.  If the result is not null it
  is an object of the cache that was not in use, and exactly this object is added to the objects in
  use, whether it came from a partial slab, a free slab or a slab newly carved out of pages of the
  buddy allocator.  If it is null, no object was in use or free to give: every object of the cache was
  taken and no block of the required order was free.  The invariants of the cache, of its lists and
  of the zone are kept.
\<close>

theorem kmem_cache_alloc_correct:
  assumes "cache_ok k c S A H F Fp"
  shows "\<exists>p S' H' F' Fp'. kmem_cache_alloc (Suc d) c fl S = Some (p, S') \<and> cache_ok k c S' A H' F' Fp' \<and> Fp' \<subseteq> Fp \<and>
    (if p = 0 then used_objs c S' H' F' = used_objs c S H F \<and> free_objs c H F = {} \<and>
       (\<forall>b. aligned b (unat (gfporder (caches S c))) \<longrightarrow> \<not> block b (unat (gfporder (caches S c))) \<subseteq> Fp)
     else p \<in> all_objs c S' H' \<and> p \<notin> used_objs c S H F \<and> used_objs c S' H' F' = insert p (used_objs c S H F))"
  by (rule cache_alloc_ok [OF assms])

theorem kmem_cache_alloc_correct_witness:
  "\<exists>p S' H' F' Fp'. kmem_cache_alloc 1 0x1000 0 sample_slab = Some (p, S') \<and> p \<noteq> 0 \<and>
    cache_ok 0 0x1000 S' (cache_heads 0x1000) H' F' Fp' \<and> used_objs 0x1000 S' H' F' = {p}"
proof -
  have "aligned 0 0 \<and> block 0 0 \<subseteq> {0..<4}" by (simp add: aligned_def)
  moreover have "used_objs 0x1000 sample_slab (\<lambda>_. []) (\<lambda>_. []) = {}"
    by (simp add: used_objs_def all_objs_def cache_slabs_def)
  moreover have "unat (gfporder (caches sample_slab 0x1000)) = 0" by (simp add: sample_slab_def sample_kc_def)
  ultimately show ?thesis using kmem_cache_alloc_correct [OF sample_slab_ok, of 0 0]
    by (auto split: if_splits dest: spec [of _ 0])
qed





text \<open>
  The size computation: for every order and object size, with the alignments the kernel uses, the
  objects, the slab descriptor (when it is kept on the slab) and the reported rest fill the pages of
  the slab exactly, and the rest is smaller than an object, so no further object would fit.
\<close>

theorem cache_estimate_exact:
  assumes "order \<le> 10" and "4 \<le> osize" and "align = 8 \<or> align = 32"
  shows "\<exists>left n. cache_estimate order osize align fl = Some (left, n) \<and>
    unat n * unat osize + mgmt_bytes align fl + unat left = 4096 * 2 ^ order \<and> left < osize"
  using assms mgmt_32 [OF assms(3)]
  by (intro cache_estimate_ok) (auto simp: word_le_nat_alt word_less_nat_alt)

theorem cache_estimate_exact_witness:
  "\<exists>left n. cache_estimate 3 200 8 0 = Some (left, n) \<and>
    unat n * unat (200 :: u32) + mgmt_bytes 8 0 + unat left = 4096 * 2 ^ 3 \<and> left < 200"
  by (rule cache_estimate_exact) simp_all



text \<open>
  \<^verbatim>\<open>kmalloc\<close> allocates from the smallest general cache whose objects are large enough, and returns
  null, touching nothing, for requests beyond the largest class.
\<close>

theorem kmalloc_smallest_class:
  assumes "length (cs_cachep S) = length malloc_sizes"
  shows "(req \<le> 131072 \<longrightarrow> (\<exists>i < length malloc_sizes. kmalloc req fl S = kmem_cache_alloc 2 (cs_cachep S ! i) fl S \<and>
      req \<le> malloc_sizes ! i \<and> (\<forall>j < i. malloc_sizes ! j < req))) \<and>
    (131072 < req \<longrightarrow> kmalloc req fl S = Some (0, S))"
  using kmalloc_class [OF assms] kmalloc_too_big by blast

theorem kmalloc_smallest_class_witness:
  "length (cs_cachep sample_slab) = length malloc_sizes \<and> kmalloc 200000 0 sample_slab = Some (0, sample_slab)"
  using kmalloc_smallest_class [of sample_slab 200000 0]
  by (simp add: sample_slab_def malloc_sizes_def)

end
