(* ===== verification/Strings.thy ===== *)
theory Strings
  imports Prelude
begin

text \<open>
  The string and memory functions (\<^verbatim>\<open>kernel/string.c\<close>, \<^verbatim>\<open>memcpy\<close> of \<^verbatim>\<open>memory-management/mm.c\<close>).

  A pointer that is only read is the list of the bytes from it to the end of its object; an object that is
  written is the list of all its bytes with offsets into it.  Running off the end of an object is \<open>None\<close>.
  Objects do not reach the end of the address space, so addresses in one object compare like their offsets.
\<close>

section \<open>Reading\<close>

fun strlen :: "u8 list \<Rightarrow> nat option" where
  "strlen [] = None"
| "strlen (c # cs) = (if c = 0 then Some 0 else map_option Suc (strlen cs))"

fun strcmp :: "u8 list \<Rightarrow> u8 list \<Rightarrow> int option" where
  "strcmp (a # as) (b # bs) = (if a \<noteq> 0 \<and> a = b then strcmp as bs else Some (uint a - uint b))"
| "strcmp _ _ = None"

fun strncmp :: "u8 list \<Rightarrow> u8 list \<Rightarrow> nat \<Rightarrow> int option" where
  "strncmp s1 s2 0 = Some 0"
| "strncmp (a # as) (b # bs) (Suc n) =
     (if a \<noteq> 0 \<and> a = b then if n = 0 then Some 0 else strncmp as bs n else Some (uint a - uint b))"
| "strncmp _ _ (Suc n) = None"

text \<open>\<^verbatim>\<open>memchr\<close> has no return statement after its loop: the result is then an arbitrary value, a parameter.\<close>

fun memchr_from :: "nat \<Rightarrow> u8 list \<Rightarrow> u8 \<Rightarrow> nat \<Rightarrow> nat option \<Rightarrow> nat option option" where
  "memchr_from i s ch 0 garbage = Some garbage"
| "memchr_from i (c # s) ch (Suc n) garbage = (if c = ch then Some (Some i) else memchr_from (Suc i) s ch n garbage)"
| "memchr_from i [] ch (Suc n) garbage = None"

definition memchr :: "u8 list \<Rightarrow> int \<Rightarrow> nat \<Rightarrow> nat option \<Rightarrow> nat option option" where
  "memchr s c n garbage = memchr_from 0 s (word_of_int c) n garbage"

text \<open>\<^verbatim>\<open>memcmp\<close> initialises its second pointer from itself: what it points to is a parameter, and the second
  argument is not used.\<close>

fun memcmp_loop :: "u8 list \<Rightarrow> u8 list \<Rightarrow> nat \<Rightarrow> int option" where
  "memcmp_loop p1 p2 0 = Some 0"
| "memcmp_loop (a # p1) (b # p2) (Suc n) =
     (if a \<noteq> b then Some (if a < b then 1 else 0) else memcmp_loop p1 p2 n)"
| "memcmp_loop _ _ (Suc n) = None"

definition memcmp :: "u8 list \<Rightarrow> u8 list \<Rightarrow> u8 list \<Rightarrow> nat \<Rightarrow> int option" where
  "memcmp garbage s1 s2 n = memcmp_loop s1 garbage n"

fun char_in_set :: "u8 \<Rightarrow> u8 list \<Rightarrow> bool option" where
  "char_in_set c [] = None"
| "char_in_set c (d # ds) = (if d = 0 then Some False else if c = d then Some True else char_in_set c ds)"

section \<open>Writing\<close>

definition put_byte :: "u8 list \<Rightarrow> nat \<Rightarrow> u8 \<Rightarrow> u8 list option" where
  "put_byte bs i v = (if i < length bs then Some (bs[i := v]) else None)"

definition get_byte :: "u8 list \<Rightarrow> nat \<Rightarrow> u8 option" where
  "get_byte bs i = (if i < length bs then Some (bs ! i) else None)"

primrec copy_down :: "u8 list \<Rightarrow> nat \<Rightarrow> nat \<Rightarrow> nat \<Rightarrow> u8 list option" where
  "copy_down bs dest src 0 = Some bs"
| "copy_down bs dest src (Suc i) = do {
     c \<leftarrow> get_byte bs (src + i);
     bs \<leftarrow> put_byte bs (dest + i) c;
     copy_down bs dest src i
   }"

primrec copy_up :: "u8 list \<Rightarrow> nat \<Rightarrow> nat \<Rightarrow> nat \<Rightarrow> u8 list option" where
  "copy_up bs dest src 0 = Some bs"
| "copy_up bs dest src (Suc n) = do {
     c \<leftarrow> get_byte bs src;
     bs \<leftarrow> put_byte bs dest c;
     copy_up bs (Suc dest) (Suc src) n
   }"

definition memmove :: "u8 list \<Rightarrow> nat \<Rightarrow> nat \<Rightarrow> nat \<Rightarrow> u8 list option" where
  "memmove bs dest src n = (if dest < src + n then copy_down bs dest src n else copy_up bs dest src n)"

definition memset :: "u8 list \<Rightarrow> int \<Rightarrow> nat \<Rightarrow> u8 list option" where
  "memset dest c n = (if n \<le> length dest then Some (replicate n (word_of_int c) @ drop n dest) else None)"

definition memcpy :: "u8 list \<Rightarrow> u8 list \<Rightarrow> nat \<Rightarrow> u8 list option" where
  "memcpy dest src n = (if n \<le> length dest \<and> n \<le> length src then Some (take n src @ drop n dest) else None)"

fun strcpy :: "u8 list \<Rightarrow> u8 list \<Rightarrow> u8 list option" where
  "strcpy (d # ds) (c # cs) = (if c = 0 then Some (0 # ds) else map_option (Cons c) (strcpy ds cs))"
| "strcpy _ _ = None"

fun strncpy :: "u8 list \<Rightarrow> u8 list \<Rightarrow> nat \<Rightarrow> u8 list option" where
  "strncpy dest src 0 = Some dest"
| "strncpy (d # ds) (c # cs) (Suc n) =
     (if c = 0 then if n \<le> length ds then Some (replicate (Suc n) 0 @ drop n ds) else None
      else map_option (Cons c) (strncpy ds cs n))"
| "strncpy _ _ (Suc n) = None"

section \<open>Tokens\<close>

text \<open>The static variables of \<^verbatim>\<open>strtok\<close>: the object that is being split, the offset of \<^verbatim>\<open>buf\<close> in it and
  the characters left.\<close>

record tok_state =
  tok_obj :: "u8 list"
  tok_buf :: nat
  chars_left :: int

function tok_scan :: "u8 list \<Rightarrow> tok_state \<Rightarrow> (bool \<times> tok_state) option" where
  "tok_scan delim T = do {
     c \<leftarrow> get_byte (tok_obj T) (tok_buf T);
     m \<leftarrow> char_in_set c delim;
     if m then Some (True, T)
     else if c = 0 then Some (False, T)
     else tok_scan delim (T\<lparr>tok_buf := Suc (tok_buf T), chars_left := chars_left T - 1\<rparr>)
   }"
  by pat_completeness auto
termination
  by (relation "measure (\<lambda>(delim, T). length (tok_obj T) - tok_buf T)") (auto simp: get_byte_def split: if_splits)

declare tok_scan.simps [simp del]

definition strtok :: "(u8 list \<times> nat) option \<Rightarrow> u8 list \<Rightarrow> tok_state \<Rightarrow> (nat option \<times> tok_state) option" where
  "strtok str delim T = do {
     T \<leftarrow> (case str of
         None \<Rightarrow> Some T
       | Some (obj, p) \<Rightarrow> do {
           n \<leftarrow> strlen (drop p obj);
           Some \<lparr>tok_obj = obj, tok_buf = p, chars_left = int n\<rparr>
         });
     if chars_left T = 0 then Some (None, T)
     else do {
       let tok_start = tok_buf T;
       (found, T) \<leftarrow> tok_scan delim T;
       if \<not> found then Some (Some tok_start, T)
       else do {
         obj \<leftarrow> put_byte (tok_obj T) (tok_buf T) 0;
         Some (Some tok_start, T\<lparr>tok_obj := obj, tok_buf := Suc (tok_buf T), chars_left := chars_left T - 1\<rparr>)
       }
     }
   }"

section \<open>Moving bytes\<close>

lemma copy_down_nth:
  assumes "src + n \<le> length bs" "dest + n \<le> length bs" "src \<le> dest \<or> dest + n \<le> src"
  shows "\<exists>bs'. copy_down bs dest src n = Some bs' \<and> length bs' = length bs
    \<and> (\<forall>k<length bs. bs' ! k = (if dest \<le> k \<and> k < dest + n then bs ! (src + (k - dest)) else bs ! k))"
  using assms
proof (induction n arbitrary: bs)
  case (Suc i)
  let ?b = "bs[dest + i := bs ! (src + i)]"
  from Suc.IH [of ?b] Suc.prems obtain bs' where bs': "copy_down ?b dest src i = Some bs'" "length bs' = length bs"
    "\<forall>k<length bs. bs' ! k = (if dest \<le> k \<and> k < dest + i then ?b ! (src + (k - dest)) else ?b ! k)" by auto
  have "bs' ! k = (if dest \<le> k \<and> k < dest + Suc i then bs ! (src + (k - dest)) else bs ! k)" if "k < length bs" for k
    using bs'(3) that Suc.prems by (auto simp: nth_list_update)
  then show ?case using bs' Suc.prems by (auto simp: get_byte_def put_byte_def)
qed auto

lemma copy_up_nth:
  assumes "src + n \<le> length bs" "dest + n \<le> length bs" "src + n \<le> dest"
  shows "\<exists>bs'. copy_up bs dest src n = Some bs' \<and> length bs' = length bs
    \<and> (\<forall>k<length bs. bs' ! k = (if dest \<le> k \<and> k < dest + n then bs ! (src + (k - dest)) else bs ! k))"
  using assms
proof (induction n arbitrary: bs dest src)
  case (Suc n)
  let ?b = "bs[dest := bs ! src]"
  from Suc.IH [of "Suc src" ?b "Suc dest"] Suc.prems obtain bs' where
    bs': "copy_up ?b (Suc dest) (Suc src) n = Some bs'" "length bs' = length bs"
    "\<forall>k<length bs. bs' ! k = (if Suc dest \<le> k \<and> k < Suc dest + n then ?b ! (Suc src + (k - Suc dest)) else ?b ! k)" by auto
  have "bs' ! k = (if dest \<le> k \<and> k < dest + Suc n then bs ! (src + (k - dest)) else bs ! k)" if k: "k < length bs" for k
  proof (cases "k = dest")
    case False
    then have "Suc src + (k - Suc dest) = src + (k - dest)" if "dest \<le> k" using that by simp
    then show ?thesis using bs'(3) k False Suc.prems by (auto simp: nth_list_update)
  qed (use bs'(3) k Suc.prems in auto)
  then show ?case using bs' Suc.prems by (auto simp: get_byte_def put_byte_def)
qed auto

definition moved :: "u8 list \<Rightarrow> nat \<Rightarrow> nat \<Rightarrow> nat \<Rightarrow> u8 list" where
  "moved bs dest src n = take dest bs @ take n (drop src bs) @ drop (dest + n) bs"

lemma moved_eqI:
  assumes "src + n \<le> length bs" "dest + n \<le> length bs" "length bs' = length bs"
    "\<forall>k<length bs. bs' ! k = (if dest \<le> k \<and> k < dest + n then bs ! (src + (k - dest)) else bs ! k)"
  shows "bs' = moved bs dest src n"
proof (rule nth_equalityI)
  have l: "length (take dest bs) = dest" "length (take n (drop src bs)) = n" using assms(1,2) by auto
  then show len: "length bs' = length (moved bs dest src n)"
    using assms(2,3) by (simp only: moved_def length_append l length_drop)
  show "bs' ! i = moved bs dest src n ! i" if "i < length bs'" for i
    using assms that by (auto simp: moved_def nth_append l simp del: length_take)
qed

lemma copy_down_by_one:
  "n < length bs \<Longrightarrow> copy_down bs 0 1 n = Some (replicate n (bs ! n) @ drop n bs)"
proof (induction n arbitrary: bs)
  case (Suc i)
  have "copy_down (bs[i := bs ! Suc i]) 0 1 i = Some (replicate i (bs ! Suc i) @ bs ! Suc i # drop (Suc i) bs)"
    using Suc by (simp add: Cons_nth_drop_Suc [symmetric])
  then show ?case using Suc.prems by (simp add: get_byte_def put_byte_def replicate_append_same flip: replicate_Suc append_assoc)
qed simp

section \<open>Splitting a string\<close>

lemma char_in_set_str: "0 \<notin> set ds \<Longrightarrow> char_in_set c (ds @ 0 # r) = Some (c \<in> set ds)"
  by (induction ds) auto

lemma strlen_str: "0 \<notin> set xs \<Longrightarrow> strlen (xs @ 0 # r) = Some (length xs)"
  by (induction xs) auto

definition tok_at :: "tok_state \<Rightarrow> u8 list \<Rightarrow> bool" where
  "tok_at T xs \<longleftrightarrow> (\<exists>r. drop (tok_buf T) (tok_obj T) = xs @ 0 # r) \<and> 0 \<notin> set xs \<and> chars_left T = int (length xs)"

lemma tok_scan_at:
  assumes "0 \<notin> set ds" "tok_at T xs"
  defines "t \<equiv> takeWhile (\<lambda>c. c \<notin> set ds) xs"
  shows "tok_scan (ds @ 0 # r) T =
    Some (t \<noteq> xs, T\<lparr>tok_buf := tok_buf T + length t, chars_left := chars_left T - int (length t)\<rparr>)"
  using assms(2) unfolding t_def
proof (induction xs arbitrary: T)
  case Nil
  then have "get_byte (tok_obj T) (tok_buf T) = Some 0"
    by (auto simp: tok_at_def get_byte_def nth_via_drop) (metis drop_all linorder_not_less list.distinct(1))
  then show ?case using assms(1) by (subst tok_scan.simps) (simp add: char_in_set_str)
next
  case (Cons x xs)
  obtain r' where r': "drop (tok_buf T) (tok_obj T) = x # xs @ 0 # r'" using Cons.prems by (auto simp: tok_at_def)
  then have b: "get_byte (tok_obj T) (tok_buf T) = Some x"
    by (auto simp: get_byte_def nth_via_drop) (metis drop_all linorder_not_less list.distinct(1))
  have x: "x \<noteq> 0" using Cons.prems by (auto simp: tok_at_def)
  have "tok_at (T\<lparr>tok_buf := Suc (tok_buf T), chars_left := chars_left T - 1\<rparr>) xs"
    using Cons.prems r' by (auto simp: tok_at_def drop_Suc tl_drop [symmetric])
  from Cons.IH [OF this] show ?case
    using b x assms(1) by (subst tok_scan.simps) (simp add: char_in_set_str)
qed

text \<open>What repeated calls return: the string cut at every delimiter; a delimiter at the very end adds no empty
  token.\<close>

function tokens :: "u8 list \<Rightarrow> u8 list \<Rightarrow> u8 list list" where
  "tokens ds xs = (if xs = [] then [] else
     let t = takeWhile (\<lambda>c. c \<notin> set ds) xs in t # tokens ds (drop (Suc (length t)) xs))"
  by pat_completeness auto
termination by (relation "measure (\<lambda>(ds, xs). length xs)") auto

declare tokens.simps [simp del]

text \<open>A client that passes the string once and then the null pointer, and reads each token when it gets it.\<close>

fun all_tokens :: "nat \<Rightarrow> (u8 list \<times> nat) option \<Rightarrow> u8 list \<Rightarrow> tok_state \<Rightarrow> u8 list list option" where
  "all_tokens 0 str delim T = None"
| "all_tokens (Suc n) str delim T = do {
     (r, T) \<leftarrow> strtok str delim T;
     (case r of
        None \<Rightarrow> Some []
      | Some p \<Rightarrow> do {
          ts \<leftarrow> all_tokens n None delim T;
          Some (takeWhile (\<lambda>c. c \<noteq> 0) (drop p (tok_obj T)) # ts)
        })
   }"

lemma strtok_step:
  assumes ds: "0 \<notin> set ds" and at: "tok_at T xs" and xs: "xs \<noteq> []"
  defines "t \<equiv> takeWhile (\<lambda>c. c \<notin> set ds) xs"
  shows "\<exists>T'. strtok None (ds @ 0 # r) T = Some (Some (tok_buf T), T') \<and> tok_at T' (drop (Suc (length t)) xs)
    \<and> takeWhile (\<lambda>c. c \<noteq> 0) (drop (tok_buf T) (tok_obj T')) = t"
proof -
  note scan = tok_scan_at [OF ds at, folded t_def, of r]
  obtain r' where r': "drop (tok_buf T) (tok_obj T) = xs @ 0 # r'" and nz: "0 \<notin> set xs"
    and left: "chars_left T = int (length xs)" using at by (auto simp: tok_at_def)
  have t: "xs = t @ dropWhile (\<lambda>c. c \<notin> set ds) xs" "0 \<notin> set t"
    using nz set_takeWhileD [of 0 "\<lambda>c. c \<notin> set ds" xs] by (auto simp: t_def)
  show ?thesis
  proof (cases "t = xs")
    case True
    let ?T = "T\<lparr>tok_buf := tok_buf T + length t, chars_left := chars_left T - int (length t)\<rparr>"
    have "drop (tok_buf T + length xs) (tok_obj T) = 0 # r'"
      using r' by (simp add: add.commute flip: drop_drop)
    then have "tok_at ?T []" using True left by (simp add: tok_at_def)
    moreover have "takeWhile (\<lambda>c. c \<noteq> 0) (xs @ 0 # r') = xs" using nz by (auto simp: takeWhile_tail)
    ultimately show ?thesis using scan True xs left r' by (simp add: strtok_def)
  next
    case False
    then obtain d ys where xs': "xs = t @ d # ys" using t(1) by (cases "dropWhile (\<lambda>c. c \<notin> set ds) xs") auto
    let ?i = "tok_buf T + length t"
    have obj: "tok_obj T = take (tok_buf T) (tok_obj T) @ t @ d # ys @ 0 # r'"
      using r' xs' append_take_drop_id [of "tok_buf T" "tok_obj T"] by simp
    have b: "length (take (tok_buf T) (tok_obj T)) = tok_buf T" using r' by (cases "tok_buf T \<le> length (tok_obj T)") auto
    have upd: "(tok_obj T)[?i := 0] = take (tok_buf T) (tok_obj T) @ t @ 0 # ys @ 0 # r'"
      by (subst obj) (use b in \<open>simp add: list_update_append\<close>)
    have "?i < length (tok_obj T)" by (subst obj) (use b in simp)
    then have put: "put_byte (tok_obj T) ?i 0 = Some (take (tok_buf T) (tok_obj T) @ t @ 0 # ys @ 0 # r')"
      by (simp add: put_byte_def upd)
    show ?thesis using scan False xs left xs' b nz t(2)
      by (auto simp: strtok_def put tok_at_def takeWhile_tail)
  qed
qed

lemma all_tokens_at:
  assumes "0 \<notin> set ds" "tok_at T xs" "length xs < n"
  shows "all_tokens n None (ds @ 0 # r) T = Some (tokens ds xs)"
  using assms(2,3)
proof (induction n arbitrary: T xs)
  case (Suc n)
  show ?case
  proof (cases "xs = []")
    case True
    then show ?thesis using Suc.prems by (simp add: strtok_def tok_at_def tokens.simps)
  next
    case False
    from strtok_step [OF assms(1) Suc.prems(1) False, of r] obtain T' where
      T': "strtok None (ds @ 0 # r) T = Some (Some (tok_buf T), T')"
        "tok_at T' (drop (Suc (length (takeWhile (\<lambda>c. c \<notin> set ds) xs))) xs)"
        "takeWhile (\<lambda>c. c \<noteq> 0) (drop (tok_buf T) (tok_obj T')) = takeWhile (\<lambda>c. c \<notin> set ds) xs" by blast
    have "length (drop (Suc (length (takeWhile (\<lambda>c. c \<notin> set ds) xs))) xs) < n" using Suc.prems(2) False by (cases xs) auto
    from Suc.IH [OF T'(2) this] T'(1,3) False show ?thesis
      by (subst tokens.simps) (simp add: Let_def)
  qed
qed simp

section \<open>Properties\<close>

text \<open>\<open>memmove\<close> moves the bytes correctly when the destination does not lie below the source or the two areas are
  disjoint; moving an overlapping area down is wrong, although the header allows it: moved down by one byte, the area
  is filled with its last byte.\<close>

theorem memmove_overlap:
  assumes "src + n \<le> length bs" and "dest + n \<le> length bs"
  shows "(src \<le> dest \<or> dest + n \<le> src \<longrightarrow> memmove bs dest src n = Some (moved bs dest src n))
    \<and> (n < length bs \<longrightarrow> memmove bs 0 1 n = Some (replicate n (bs ! n) @ drop n bs))"
proof (intro conjI impI)
  assume dir: "src \<le> dest \<or> dest + n \<le> src"
  show "memmove bs dest src n = Some (moved bs dest src n)"
  proof (cases "dest < src + n")
    case True
    obtain bs' where "copy_down bs dest src n = Some bs'" "bs' = moved bs dest src n"
      using copy_down_nth [OF assms dir] moved_eqI [OF assms] by metis
    with True show ?thesis by (simp add: memmove_def)
  next
    case False
    obtain bs' where "copy_up bs dest src n = Some bs'" "bs' = moved bs dest src n"
      using copy_up_nth [OF assms] moved_eqI [OF assms] False by (metis not_less)
    with False show ?thesis by (simp add: memmove_def)
  qed
next
  assume "n < length bs"
  then show "memmove bs 0 1 n = Some (replicate n (bs ! n) @ drop n bs)"
    using copy_down_by_one [of n bs] by (simp add: memmove_def)
qed

theorem memmove_overlap_witness:
  "memmove [1, 2, 3, 4] 1 0 2 = Some [1, 1, 2, 4] \<and> memmove [1, 2, 3, 4] 0 1 2 = Some [3, 3, 3, 4]"
  using memmove_overlap [of 0 2 "[1, 2, 3, 4]" 1] by (simp add: moved_def numeral_2_eq_2)

text \<open>C22: repeated calls of \<open>strtok\<close>, the first with a string and the others with the null pointer, return the string cut
  at the delimiters, token by token, and then null.\<close>

theorem strtok_tokens:
  assumes "drop p obj = xs @ 0 # rest" and "0 \<notin> set xs" and "0 \<notin> set ds" and "length xs < n"
  shows "all_tokens n (Some (obj, p)) (ds @ 0 # r) T = Some (tokens ds xs)"
proof -
  let ?T = "\<lparr>tok_obj = obj, tok_buf = p, chars_left = int (length xs)\<rparr>"
  have "strtok (Some (obj, p)) delim T = strtok None delim ?T" for delim
    using strlen_str [OF assms(2), of rest] assms(1) by (simp add: strtok_def)
  then have "all_tokens n (Some (obj, p)) (ds @ 0 # r) T = all_tokens n None (ds @ 0 # r) ?T" using assms(4) by (cases n) simp_all
  also have "\<dots> = Some (tokens ds xs)"
    using assms by (intro all_tokens_at) (auto simp: tok_at_def)
  finally show ?thesis .
qed

theorem strtok_tokens_witness:
  "all_tokens 9 (Some ([47, 98, 105, 110, 47, 115, 104, 0], 0)) [47, 0] \<lparr>tok_obj = [], tok_buf = 0, chars_left = 0\<rparr> =
     Some [[], [98, 105, 110], [115, 104]]"
  using strtok_tokens [of 0 "[47, 98, 105, 110, 47, 115, 104, 0]" "[47, 98, 105, 110, 47, 115, 104]" "[]" "[47]" 9 "[]"
      "\<lparr>tok_obj = [], tok_buf = 0, chars_left = 0\<rparr>"]
  by (simp add: tokens.simps)

end
