(* ===== verification/Keyed_Store.thy ===== *)
theory Keyed_Store
  imports Prelude
begin

text \<open>
  The contract of a store of objects that carry their own key, such as a hash table of directory entries or a list of named
  file systems: \<open>find\<close> returns the object with a key and may change fields that are not part of the store, \<open>ins\<close> stores an
  object that is not stored yet and \<open>del\<close> takes one out.
\<close>

locale keyed_store =
  fixes inv :: "'s \<Rightarrow> bool"
    and abs :: "'s \<Rightarrow> 'k \<Rightarrow> 'v option"
    and key :: "'s \<Rightarrow> 'v \<Rightarrow> 'k"
    and valid :: "'k \<Rightarrow> bool"
    and loose :: "'s \<Rightarrow> 'v \<Rightarrow> bool"
    and find :: "'k \<Rightarrow> 's \<Rightarrow> ('v option \<times> 's) option"
    and ins :: "'v \<Rightarrow> 's \<Rightarrow> 's option"
    and del :: "'v \<Rightarrow> 's \<Rightarrow> 's option"
  assumes find_abs: "inv s \<Longrightarrow> valid k \<Longrightarrow> \<exists>s'. find k s = Some (abs s k, s') \<and> inv s' \<and> abs s' = abs s"
    and ins_abs: "inv s \<Longrightarrow> loose s v \<Longrightarrow> abs s (key s v) = None \<Longrightarrow>
      \<exists>s'. ins v s = Some s' \<and> inv s' \<and> abs s' = (abs s)(key s v \<mapsto> v) \<and> key s' v = key s v"
    and del_abs: "inv s \<Longrightarrow> abs s (key s v) = Some v \<Longrightarrow> \<exists>s'. del v s = Some s' \<and> inv s' \<and> abs s' = (abs s)(key s v := None)"
begin

lemma ins_find:
  assumes "inv s" "loose s v" "abs s (key s v) = None"
  shows "\<exists>s'. ins v s = Some s' \<and> inv s' \<and> (\<forall>k. valid k \<longrightarrow> (\<exists>s''. find k s' = Some (if k = key s v then Some v else abs s k, s'')))"
proof -
  obtain s' where s': "ins v s = Some s'" "inv s'" "abs s' = (abs s)(key s v \<mapsto> v)" using ins_abs [OF assms] by blast
  have "\<exists>s''. find k s' = Some (if k = key s v then Some v else abs s k, s'')" if "valid k" for k
    using find_abs [OF s'(2) that] s'(3) by auto
  with s' show ?thesis by blast
qed

lemma del_find:
  assumes "inv s" "abs s (key s v) = Some v"
  shows "\<exists>s'. del v s = Some s' \<and> inv s' \<and> (\<forall>k. valid k \<longrightarrow> (\<exists>s''. find k s' = Some (if k = key s v then None else abs s k, s'')))"
proof -
  obtain s' where s': "del v s = Some s'" "inv s'" "abs s' = (abs s)(key s v := None)" using del_abs [OF assms] by blast
  have "\<exists>s''. find k s' = Some (if k = key s v then None else abs s k, s'')" if "valid k" for k
    using find_abs [OF s'(2) that] s'(3) by auto
  with s' show ?thesis by blast
qed

lemma ins_del:
  assumes "inv s" "loose s v" "abs s (key s v) = None"
  shows "\<exists>s' s''. ins v s = Some s' \<and> del v s' = Some s'' \<and> inv s'' \<and> abs s'' = abs s"
proof -
  obtain s' where s': "ins v s = Some s'" "inv s'" "abs s' = (abs s)(key s v \<mapsto> v)" "key s' v = key s v"
    using ins_abs [OF assms] by blast
  then have "abs s' (key s' v) = Some v" by simp
  from del_abs [OF s'(2) this] obtain s'' where "del v s' = Some s''" "inv s''" "abs s'' = (abs s')(key s' v := None)" by blast
  with s' assms(3) show ?thesis by (auto simp: fun_upd_idem)
qed

end

end
