(* ===== verification/Dcache.thy ===== *)
theory Dcache
  imports Slab_Alloc Strings Keyed_Store
begin

text \<open>
  The cache of directory entries (\<^verbatim>\<open>fs/ext2/dcache.c\<close>, \<^verbatim>\<open>include/dcache.h\<close>, \<^verbatim>\<open>struct dentry\<close> of \<^verbatim>\<open>include/vfs.h\<close>).

  A dentry is addressed by the word that the slab allocator returned for it.  Its four list nodes, the heads of the hash
  table and the list heads \<^verbatim>\<open>i_dentry\<close> of the inodes are the nodes of one list heap.  A null name is \<open>None\<close>, other names are the
  bytes from the pointer to the end of the object.

  The hash table is a map from parents and names to dentries; the locale \<open>keyed_store\<close> is what it promises to path lookup.
\<close>

section \<open>State\<close>

definition DENTRY_HASH_SIZE :: nat where "DENTRY_HASH_SIZE = 256"
definition DCACHE_UNHASHED :: u32 where "DCACHE_UNHASHED = 2"
definition sizeof_dentry :: u32 where "sizeof_dentry = 88"

datatype dnode = DNULL | DHead nat | DHash u32 | DChild u32 | DSubdirs u32 | DLru u32 | IDentry u32

instantiation dnode :: zero
begin
definition zero_dnode :: dnode where "zero_dnode = DNULL"
instance ..
end

record dentry =
  d_count :: u32
  d_flags :: u32
  d_inode :: u32
  d_parent :: u32
  d_name :: "u8 list"
  d_op :: u32
  d_sb :: u32

record dstate =
  dentries :: "u32 \<Rightarrow> dentry"
  dlinks :: "dnode list_heap"
  inode_sb :: "u32 \<Rightarrow> u32"
  dentry_cache :: u32
  dslab :: slab_state

definition upd_dentry :: "u32 \<Rightarrow> (dentry \<Rightarrow> dentry) \<Rightarrow> dstate \<Rightarrow> dstate" where
  "upd_dentry d f S = S\<lparr>dentries := (dentries S)(d := f (dentries S d))\<rparr>"

definition upd_dlinks :: "(dnode list_heap \<Rightarrow> dnode list_heap) \<Rightarrow> dstate \<Rightarrow> dstate" where
  "upd_dlinks f S = S\<lparr>dlinks := f (dlinks S)\<rparr>"

section \<open>Operations\<close>

text \<open>\<^verbatim>\<open>char\<close> is signed.\<close>

fun hash_chars :: "u8 list \<Rightarrow> u32 \<Rightarrow> u32 option" where
  "hash_chars [] h = None"
| "hash_chars (c # cs) h = (if c = 0 then Some h else hash_chars cs (h * 31 + scast c))"

definition d_hash :: "u32 \<Rightarrow> u8 list \<Rightarrow> nat option" where
  "d_hash parent name = do {
     h \<leftarrow> hash_chars name 0;
     let h = (if parent \<noteq> 0 then h XOR parent else h);
     Some (unat (h mod of_nat DENTRY_HASH_SIZE))
   }"

primrec init_heads :: "nat \<Rightarrow> dnode list_heap \<Rightarrow> dnode list_heap" where
  "init_heads 0 h = h"
| "init_heads (Suc i) h = INIT_LIST_HEAD (DHead i) (init_heads i h)"

definition dcache_init :: "dstate \<Rightarrow> dstate option" where
  "dcache_init S = do {
     (c, slab) \<leftarrow> kmem_cache_create ''dentry'' sizeof_dentry KMALLOC_MINALIGN SLAB_HWCACHE_ALIGN 0 (dslab S);
     let S = S\<lparr>dentry_cache := c, dslab := slab\<rparr>;
     Some (if c = 0 then S else upd_dlinks (init_heads DENTRY_HASH_SIZE) S)
   }"

definition copy_name :: "u8 list option \<Rightarrow> u8 list \<Rightarrow> u8 list option" where
  "copy_name name old = (case name of
       None \<Rightarrow> Some (old[0 := 0])
     | Some n \<Rightarrow> do { new \<leftarrow> strncpy old n 29; Some (new[29 := 0]) })"

definition d_alloc :: "u32 \<Rightarrow> u8 list option \<Rightarrow> dstate \<Rightarrow> (u32 \<times> dstate) option" where
  "d_alloc parent name S = do {
     (d, slab) \<leftarrow> kmem_cache_alloc 2 (dentry_cache S) 0 (dslab S);
     let S = S\<lparr>dslab := slab\<rparr>;
     if d = 0 then Some (0, S)
     else do {
       n \<leftarrow> copy_name name (d_name (dentries S d));
       let S = upd_dentry d (\<lambda>x. x\<lparr>d_count := 1, d_flags := 0, d_inode := 0,
         d_parent := (if parent \<noteq> 0 then parent else d), d_op := 0, d_sb := 0, d_name := n\<rparr>) S;
       let S = upd_dlinks (INIT_LIST_HEAD (DLru d)) S;
       let S = upd_dlinks (INIT_LIST_HEAD (DChild d)) S;
       let S = upd_dlinks (INIT_LIST_HEAD (DSubdirs d)) S;
       let S = upd_dlinks (INIT_LIST_HEAD (DHash d)) S;
       Some (d, if parent \<noteq> 0 \<and> parent \<noteq> d then upd_dlinks (list_add (DSubdirs parent) (DChild d)) S else S)
     }
   }"

definition d_alloc_root :: "u32 \<Rightarrow> dstate \<Rightarrow> (u32 \<times> dstate) option" where
  "d_alloc_root root_inode S =
     (if root_inode = 0 then Some (0, S)
      else do {
        (d, S) \<leftarrow> d_alloc 0 (Some [47, 0]) S;
        if d = 0 then Some (d, S)
        else do {
          let S = upd_dentry d (\<lambda>x. x\<lparr>d_inode := root_inode, d_sb := inode_sb S root_inode\<rparr>) S;
          Some (d, upd_dlinks (list_add (IDentry root_inode) (DChild d)) S)
        }
      })"

definition d_instantiate :: "u32 \<Rightarrow> u32 \<Rightarrow> dstate \<Rightarrow> dstate" where
  "d_instantiate d inode S =
     (if d = 0 \<or> inode = 0 then S
      else let S = upd_dentry d (\<lambda>x. x\<lparr>d_inode := inode\<rparr>) S
           in upd_dlinks (list_add (IDentry inode) (DChild d)) S)"

fun hash_dentry :: "dnode \<Rightarrow> u32 option" where
  "hash_dentry (DHash d) = Some d"
| "hash_dentry _ = None"

text \<open>The loop stops at a node that is not a dentry's and at a name without an end; both are outside the model.\<close>

definition d_matches :: "dstate \<Rightarrow> u32 \<Rightarrow> u8 list \<Rightarrow> u32 \<Rightarrow> bool option" where
  "d_matches S parent name d =
     (if d_parent (dentries S d) \<noteq> parent then Some False
      else map_option (\<lambda>r. r = 0) (strcmp (d_name (dentries S d)) name))"

definition d_lookup :: "u32 \<Rightarrow> u8 list option \<Rightarrow> dstate \<Rightarrow> (u32 \<times> dstate) option" where
  "d_lookup parent name S = (case name of
       None \<Rightarrow> Some (0, S)
     | Some n \<Rightarrow>
         if parent = 0 then Some (0, S)
         else do {
           hash \<leftarrow> d_hash parent n;
           found \<leftarrow> list_find (dlinks S) (DHead hash)
             (\<lambda>x. case hash_dentry x of None \<Rightarrow> True | Some d \<Rightarrow> d_matches S parent n d \<noteq> Some False);
           (case found of
              None \<Rightarrow> Some (0, S)
            | Some x \<Rightarrow> do {
                d \<leftarrow> hash_dentry x;
                m \<leftarrow> d_matches S parent n d;
                Some (d, upd_dentry d (\<lambda>x. x\<lparr>d_count := d_count x + 1\<rparr>) S)
              })
         })"

definition insert_hash :: "u32 \<Rightarrow> dstate \<Rightarrow> dstate option" where
  "insert_hash d S = do {
     hash \<leftarrow> d_hash (d_parent (dentries S d)) (d_name (dentries S d));
     let S = upd_dlinks (list_add (DHead hash) (DHash d)) S;
     Some (upd_dentry d (\<lambda>x. x\<lparr>d_flags := d_flags x AND NOT DCACHE_UNHASHED\<rparr>) S)
   }"

definition d_add :: "u32 \<Rightarrow> u32 \<Rightarrow> dstate \<Rightarrow> dstate option" where
  "d_add d inode S =
     (if d = 0 then Some S
      else let S = (if inode \<noteq> 0 then d_instantiate d inode S else S) in insert_hash d S)"

definition d_delete :: "u32 \<Rightarrow> dstate \<Rightarrow> dstate" where
  "d_delete d S =
     (if d = 0 then S
      else if d_flags (dentries S d) AND DCACHE_UNHASHED = 0
      then let S = upd_dlinks (list_del (DHash d)) S
           in upd_dentry d (\<lambda>x. x\<lparr>d_flags := d_flags x OR DCACHE_UNHASHED\<rparr>) S
      else S)"

definition dput :: "u32 \<Rightarrow> dstate \<Rightarrow> dstate option" where
  "dput d S =
     (if d = 0 then Some S
      else let S = upd_dentry d (\<lambda>x. x\<lparr>d_count := d_count x - 1\<rparr>) S
           in if d_count (dentries S d) = 0
              then do {
                let S = (if d_parent (dentries S d) \<noteq> d then upd_dlinks (list_del (DChild d)) S else S);
                let S = d_delete d S;
                slab \<leftarrow> kmem_cache_free 2 (dentry_cache S) d (dslab S);
                Some (S\<lparr>dslab := slab\<rparr>)
              }
              else Some S)"

definition dget :: "u32 \<Rightarrow> dstate \<Rightarrow> u32 \<times> dstate" where
  "dget d S = (d, if d \<noteq> 0 then upd_dentry d (\<lambda>x. x\<lparr>d_count := d_count x + 1\<rparr>) S else S)"

definition d_unhashed :: "u32 \<Rightarrow> dstate \<Rightarrow> bool" where
  "d_unhashed d S \<longleftrightarrow> d \<noteq> 0 \<and> d_flags (dentries S d) AND DCACHE_UNHASHED \<noteq> 0"

definition d_rehash :: "u32 \<Rightarrow> dstate \<Rightarrow> dstate option" where
  "d_rehash d S = (if d = 0 \<or> \<not> d_unhashed d S then Some S else insert_hash d S)"

definition d_move :: "u32 \<Rightarrow> u32 \<Rightarrow> dstate \<Rightarrow> dstate option" where
  "d_move d target S =
     (if d = 0 \<or> target = 0 then Some S
      else let S = d_delete d S;
               S = upd_dentry d (\<lambda>x. x\<lparr>d_parent := d_parent (dentries S target)\<rparr>) S
           in d_add d (d_inode (dentries S d)) S)"

section \<open>Names and buckets\<close>

definition cstr :: "u8 list \<Rightarrow> u8 list" where
  "cstr s = takeWhile (\<lambda>c. c \<noteq> 0) s"

lemma cstr_append [simp]: "0 \<notin> set n \<Longrightarrow> cstr (n @ 0 # rest) = n"
  unfolding cstr_def by (subst takeWhile_append2) auto

lemma strcmp_cstr: "0 \<in> set s \<Longrightarrow> 0 \<in> set t \<Longrightarrow> \<exists>r. strcmp s t = Some r \<and> (r = 0 \<longleftrightarrow> cstr s = cstr t)"
proof (induction s t rule: strcmp.induct)
  case (1 a as b bs)
  show ?case
  proof (cases "a \<noteq> 0 \<and> a = b")
    case True
    with 1 show ?thesis by (auto simp: cstr_def)
  next
    case False
    then have "uint a - uint b = 0 \<longleftrightarrow> cstr (a # as) = cstr (b # bs)"
      by (auto simp: cstr_def word_uint_eq_iff)
    with False show ?thesis by (simp only: strcmp.simps if_False) blast
  qed
qed auto

definition name_hash :: "u32 \<times> u8 list \<Rightarrow> nat" where
  "name_hash k = unat ((foldl (\<lambda>h c. h * 31 + scast c) 0 (snd k) XOR fst k) mod 256)"

lemma name_hash_less: "name_hash k < 256"
  unfolding name_hash_def by (simp add: unat_mod)

lemma hash_chars_cstr: "0 \<in> set s \<Longrightarrow> hash_chars s h = Some (foldl (\<lambda>h c. h * 31 + scast c) h (cstr s))"
  by (induction s arbitrary: h) (auto simp: cstr_def)

lemma d_hash_name: "0 \<in> set s \<Longrightarrow> d_hash p s = Some (name_hash (p, cstr s))"
  by (simp add: d_hash_def hash_chars_cstr name_hash_def DENTRY_HASH_SIZE_def)

section \<open>The hash table as a map\<close>

abbreviation hash_heads :: "dnode set" where
  "hash_heads \<equiv> DHead ` {..<256}"

definition d_key :: "dstate \<Rightarrow> u32 \<Rightarrow> u32 \<times> u8 list" where
  "d_key S d = (d_parent (dentries S d), cstr (d_name (dentries S d)))"

definition chain :: "dstate \<Rightarrow> nat \<Rightarrow> dnode list" where
  "chain S i = (case list_for_each (dlinks S) (DHead i) of Some xs \<Rightarrow> xs | None \<Rightarrow> [])"

definition dmap :: "dstate \<Rightarrow> u32 \<times> u8 list \<Rightarrow> u32 option" where
  "dmap S k = Option.bind (List.find (\<lambda>x. map_option (d_key S) (hash_dentry x) = Some k) (chain S (name_hash k))) hash_dentry"

fun hash_kind :: "dnode \<Rightarrow> bool" where
  "hash_kind (DHead i) = True"
| "hash_kind (DHash d) = True"
| "hash_kind _ = False"

definition dentry_ok :: "dstate \<Rightarrow> u32 \<Rightarrow> bool" where
  "dentry_ok S d \<longleftrightarrow> d \<noteq> 0 \<and> d_parent (dentries S d) \<noteq> 0 \<and> 0 \<in> set (d_name (dentries S d))"

text \<open>Every chain holds dentries with its hash code that are not marked as unhashed, no two with the same key, and no other list
  runs into the table.\<close>

definition chains_ok :: "dstate \<Rightarrow> (dnode \<Rightarrow> dnode list) \<Rightarrow> bool" where
  "chains_ok S F \<longleftrightarrow> dlists (dlinks S) hash_heads F
     \<and> (\<forall>i < 256. \<forall>x \<in> set (F (DHead i)). \<exists>d. x = DHash d \<and> dentry_ok S d \<and> name_hash (d_key S d) = i
          \<and> d_flags (dentries S d) AND DCACHE_UNHASHED = 0)
     \<and> (\<forall>i < 256. \<forall>d e. DHash d \<in> set (F (DHead i)) \<longrightarrow> DHash e \<in> set (F (DHead i)) \<longrightarrow> d_key S d = d_key S e \<longrightarrow> d = e)
     \<and> (\<forall>x. \<not> hash_kind x \<longrightarrow> \<not> hash_kind (next_of (dlinks S) x) \<and> \<not> hash_kind (prev_of (dlinks S) x))"

definition dcache_inv :: "dstate \<Rightarrow> bool" where
  "dcache_inv S \<longleftrightarrow> (\<exists>F. chains_ok S F)"

definition loose :: "dstate \<Rightarrow> u32 \<Rightarrow> bool" where
  "loose S d \<longleftrightarrow> dentry_ok S d \<and> (\<forall>i < 256. DHash d \<notin> set (chain S i))"

lemma chains_okD:
  assumes "chains_ok S F"
  shows "dlists (dlinks S) hash_heads F"
    "i < 256 \<Longrightarrow> x \<in> set (F (DHead i)) \<Longrightarrow> \<exists>d. x = DHash d \<and> dentry_ok S d \<and> name_hash (d_key S d) = i \<and> d_flags (dentries S d) AND DCACHE_UNHASHED = 0"
    "i < 256 \<Longrightarrow> DHash d \<in> set (F (DHead i)) \<Longrightarrow> DHash e \<in> set (F (DHead i)) \<Longrightarrow> d_key S d = d_key S e \<Longrightarrow> d = e"
    "i < 256 \<Longrightarrow> chain S i = F (DHead i)"
    "\<not> hash_kind x \<Longrightarrow> \<not> hash_kind (next_of (dlinks S) x) \<and> \<not> hash_kind (prev_of (dlinks S) x)"
proof -
  show "\<not> hash_kind x \<Longrightarrow> \<not> hash_kind (next_of (dlinks S) x) \<and> \<not> hash_kind (prev_of (dlinks S) x)"
    using assms unfolding chains_ok_def by blast
  show D: "dlists (dlinks S) hash_heads F" using assms unfolding chains_ok_def by blast
  show "i < 256 \<Longrightarrow> x \<in> set (F (DHead i)) \<Longrightarrow> \<exists>d. x = DHash d \<and> dentry_ok S d \<and> name_hash (d_key S d) = i \<and> d_flags (dentries S d) AND DCACHE_UNHASHED = 0"
    using assms unfolding chains_ok_def by blast
  show "i < 256 \<Longrightarrow> DHash d \<in> set (F (DHead i)) \<Longrightarrow> DHash e \<in> set (F (DHead i)) \<Longrightarrow> d_key S d = d_key S e \<Longrightarrow> d = e"
    using assms unfolding chains_ok_def by blast
  show "chain S i = F (DHead i)" if "i < 256"
    using list_for_each_dlist [OF dlistsD [OF D, of "DHead i"]] that by (simp add: chain_def)
qed

lemma dmap_iff:
  assumes "chains_ok S F"
  shows "dmap S k = Some d \<longleftrightarrow> DHash d \<in> set (F (DHead (name_hash k))) \<and> d_key S d = k"
proof -
  let ?P = "\<lambda>x. map_option (d_key S) (hash_dentry x) = Some k" and ?xs = "F (DHead (name_hash k))"
  note c = chains_okD [OF assms]
  have chain: "chain S (name_hash k) = ?xs" by (rule c(4)) (rule name_hash_less)
  show ?thesis
  proof (cases "List.find ?P ?xs")
    case None
    then have "dmap S k = None" by (simp add: dmap_def chain)
    moreover have "\<forall>x \<in> set ?xs. \<not> ?P x" using None unfolding find_None_iff by blast
    ultimately show ?thesis by (auto dest!: bspec [of _ _ "DHash d"])
  next
    case (Some x)
    then have x: "x \<in> set ?xs" "?P x" by (auto simp: find_Some_iff in_set_conv_nth simp del: map_option_eq_Some)
    then obtain e where e: "x = DHash e" "DHash e \<in> set ?xs" "d_key S e = k" using c(2) [OF name_hash_less x(1)] by auto
    moreover have "dmap S k = Some e" using Some e(1) by (simp add: dmap_def chain)
    ultimately show ?thesis using c(3) [OF name_hash_less, of d k e] by auto
  qed
qed

lemma dmap_eqI:
  assumes "chains_ok S F" "chains_ok S' F'"
    and "\<And>k d. DHash d \<in> set (F' (DHead (name_hash k))) \<and> d_key S' d = k \<longleftrightarrow> m k = Some d"
  shows "dmap S' = m"
proof
  fix k
  have "dmap S' k = Some d \<longleftrightarrow> m k = Some d" for d unfolding dmap_iff [OF assms(2)] by (rule assms(3))
  then show "dmap S' k = m k" by (metis option.exhaust)
qed

lemma dentries_upd [simp]: "dentries (upd_dlinks f S) = dentries S" "dlinks (upd_dlinks f S) = f (dlinks S)" "dlinks (upd_dentry d g S) = dlinks S"
  "dentries (upd_dentry d g S) = (dentries S)(d := g (dentries S d))"
  by (simp_all add: upd_dlinks_def upd_dentry_def)

lemma chains_ok_fields:
  assumes "dlinks S' = dlinks S" "\<And>d. d_parent (dentries S' d) = d_parent (dentries S d)" "\<And>d. d_name (dentries S' d) = d_name (dentries S d)"
    "\<And>d. d_flags (dentries S' d) = d_flags (dentries S d)"
  shows "chains_ok S' F = chains_ok S F" "dmap S' = dmap S" "d_key S' = d_key S"
proof -
  show k: "d_key S' = d_key S" by (simp add: fun_eq_iff d_key_def assms)
  then show "dmap S' = dmap S" by (simp add: fun_eq_iff dmap_def chain_def assms)
  show "chains_ok S' F = chains_ok S F" by (simp add: chains_ok_def dentry_ok_def k assms)
qed

lemma lookup_ok:
  assumes "chains_ok S F" "0 \<in> set name" "n = cstr name"
  shows "d_lookup p (Some name) S = Some (case dmap S (p, n) of None \<Rightarrow> (0, S)
    | Some d \<Rightarrow> (d, upd_dentry d (\<lambda>x. x\<lparr>d_count := d_count x + 1\<rparr>) S))"
proof -
  let ?i = "name_hash (p, n)" and ?P = "\<lambda>x. map_option (d_key S) (hash_dentry x) = Some (p, n)"
  let ?Q = "\<lambda>x. case hash_dentry x of None \<Rightarrow> True | Some d \<Rightarrow> d_matches S p name d \<noteq> Some False"
  note c = chains_okD [OF assms(1)]
  have m: "d_matches S p name d = Some (d_key S d = (p, n))" if "DHash d \<in> set (F (DHead ?i))" for d
  proof -
    have "0 \<in> set (d_name (dentries S d))" using c(2) [OF name_hash_less that] by (auto simp: dentry_ok_def)
    from strcmp_cstr [OF this assms(2)] assms(3) show ?thesis by (auto simp: d_matches_def d_key_def)
  qed
  have "?Q x = ?P x" if x: "x \<in> set (F (DHead ?i))" for x
  proof -
    obtain d where "x = DHash d" using c(2) [OF name_hash_less x] by blast
    with x m [of d] show ?thesis by auto
  qed
  then have find: "List.find ?Q (F (DHead ?i)) = List.find ?P (F (DHead ?i))" by (intro find_cong) auto
  have run: "list_find (dlinks S) (DHead ?i) ?Q = Some (List.find ?P (F (DHead ?i)))"
    using list_find_dlist [OF dlistsD [OF c(1)], of "DHead ?i" ?Q] name_hash_less [of "(p, n)"] find by simp
  have hash: "d_hash p name = Some ?i" using assms(2,3) by (simp add: d_hash_name)
  have chain: "chain S ?i = F (DHead ?i)" by (rule c(4)) (rule name_hash_less)
  show ?thesis
  proof (cases "p = 0")
    case True
    have "dmap S (p, n) \<noteq> Some d" for d
      using dmap_iff [OF assms(1), of "(p, n)" d] c(2) [OF name_hash_less, of "DHash d"] True by (auto simp: dentry_ok_def d_key_def)
    then have "dmap S (p, n) = None" by (cases "dmap S (p, n)") auto
    with True show ?thesis by (simp add: d_lookup_def)
  next
    case False
    show ?thesis
    proof (cases "List.find ?P (F (DHead ?i))")
      case None
      then show ?thesis using False run by (simp add: d_lookup_def hash dmap_def chain del: map_option_eq_Some)
    next
      case (Some x)
      then have x: "x \<in> set (F (DHead ?i))" by (auto simp: find_Some_iff in_set_conv_nth simp del: map_option_eq_Some)
      then obtain d where "x = DHash d" using c(2) [OF name_hash_less] by blast
      then show ?thesis using False run Some m x by (simp add: d_lookup_def hash dmap_def chain del: map_option_eq_Some)
    qed
  qed
qed

lemma insert_ok:
  assumes "chains_ok S F" "loose S d" "dmap S (d_key S d) = None" "i = name_hash (d_key S d)"
  shows "\<exists>S'. insert_hash d S = Some S' \<and> chains_ok S' (F(DHead i := DHash d # F (DHead i))) \<and> dmap S' = (dmap S)(d_key S d \<mapsto> d)
    \<and> d_key S' = d_key S"
proof -
  let ?F = "F(DHead i := DHash d # F (DHead i))"
  define S' where "S' = upd_dentry d (\<lambda>x. x\<lparr>d_flags := d_flags x AND NOT DCACHE_UNHASHED\<rparr>) (upd_dlinks (list_add (DHead i) (DHash d)) S)"
  note c = chains_okD [OF assms(1)]
  have i: "i < 256" using assms(4) name_hash_less by simp
  have ok: "dentry_ok S d" "\<And>j. j < 256 \<Longrightarrow> DHash d \<notin> set (F (DHead j))" using assms(2) c(4) by (auto simp: loose_def)
  have key: "d_key S' = d_key S" "dentry_ok S' = dentry_ok S" by (auto simp: S'_def d_key_def dentry_ok_def fun_eq_iff)
  have ins: "insert_hash d S = Some S'"
    using ok(1) assms(4) by (simp add: insert_hash_def dentry_ok_def d_hash_name S'_def d_key_def)
  have D: "dlists (dlinks S') hash_heads ?F"
    using dlists_add [OF c(1), of "DHead i" "DHash d"] i ok(2) by (auto simp: S'_def)
  have m: "DHash e \<in> set (?F (DHead (name_hash k))) \<and> d_key S e = k \<longleftrightarrow> ((dmap S)(d_key S d \<mapsto> d)) k = Some e" for k e
    using dmap_iff [OF assms(1), of k e] dmap_iff [OF assms(1), of "d_key S d" e] assms(3,4) by (cases "k = d_key S d") auto
  have S': "chains_ok S' ?F"
    unfolding chains_ok_def
  proof (intro conjI D allI impI ballI)
    fix j x assume j: "j < (256 :: nat)" and x: "x \<in> set (?F (DHead j))"
    show "\<exists>e. x = DHash e \<and> dentry_ok S' e \<and> name_hash (d_key S' e) = j \<and> d_flags (dentries S' e) AND DCACHE_UNHASHED = 0"
    proof (cases "x = DHash d")
      case True
      then have "j = i" using x ok(2) [OF j] by (cases "j = i") auto
      moreover have "d_flags (dentries S' d) AND DCACHE_UNHASHED = 0" by (simp add: S'_def bit_eq_iff bit_simps)
      ultimately show ?thesis using True key ok(1) assms(4) by simp
    next
      case False
      then have "x \<in> set (F (DHead j))" using x by (auto split: if_splits)
      from c(2) [OF j this] obtain e where e: "x = DHash e" "dentry_ok S e" "name_hash (d_key S e) = j" "d_flags (dentries S e) AND DCACHE_UNHASHED = 0" by blast
      with False have "d_flags (dentries S' e) = d_flags (dentries S e)" by (simp add: S'_def)
      with e show ?thesis unfolding key by auto
    qed
  next
    fix j e e' assume "j < (256 :: nat)" "DHash e \<in> set (?F (DHead j))" "DHash e' \<in> set (?F (DHead j))" "d_key S' e = d_key S' e'"
    then show "e = e'"
      using c(3) [of j e e'] dmap_iff [OF assms(1), of "d_key S d" e] dmap_iff [OF assms(1), of "d_key S d" e'] assms(3,4)
      unfolding key by (auto split: if_splits)
  next
    fix x assume x: "\<not> hash_kind x"
    have dl: "dlist (dlinks S) (DHead i) (F (DHead i))" by (rule dlistsD [OF c(1)]) (use i in simp)
    have "x \<notin> set (DHead i # F (DHead i))" "x \<noteq> DHash d" using x c(2) [OF i, of x] by auto
    from list_add_frame [OF dl this] c(5) [OF x]
    show "\<not> hash_kind (next_of (dlinks S') x)" "\<not> hash_kind (prev_of (dlinks S') x)" by (simp_all add: S'_def)
  qed
  have "dmap S' = (dmap S)(d_key S d \<mapsto> d)" by (rule dmap_eqI [OF assms(1) S']) (simp only: key m)
  with ins S' key show ?thesis by blast
qed

lemma instantiate_ok:
  assumes "chains_ok S F"
  shows "chains_ok (d_instantiate d inode S) F" "dmap (d_instantiate d inode S) = dmap S" "d_key (d_instantiate d inode S) = d_key S"
proof -
  define S1 where "S1 = upd_dentry d (\<lambda>x. x\<lparr>d_inode := inode\<rparr>) S"
  define S2 where "S2 = upd_dlinks (list_add (IDentry inode) (DChild d)) S1"
  have S1: "chains_ok S1 F" "dmap S1 = dmap S" "d_key S1 = d_key S" using chains_ok_fields(1) [of S1 S F] chains_ok_fields(2,3) [of S1 S] assms by (simp_all add: S1_def)
  note c = chains_okD [OF S1(1)]
  note sep = c(5)
  have frame: "next_of (dlinks S2) x = next_of (dlinks S1) x \<and> prev_of (dlinks S2) x = prev_of (dlinks S1) x" if "hash_kind x" for x
  proof -
    have "x \<noteq> IDentry inode" "x \<noteq> DChild d" "x \<noteq> next_of (dlinks S1) (IDentry inode)" using that sep [of "IDentry inode"] by auto
    then show ?thesis by (simp add: S2_def next_list_add prev_list_add)
  qed
  have D: "dlists (dlinks S2) hash_heads F"
  proof (rule dlists_frame [OF c(1)])
    fix a x assume "a \<in> hash_heads" and x: "x \<in> set (a # F a)"
    then obtain j where "a = DHead j" "j < 256" by auto
    with x have "hash_kind x" using c(2) [of j x] by auto
    then show "next_of (dlinks S2) x = next_of (dlinks S1) x \<and> prev_of (dlinks S2) x = prev_of (dlinks S1) x" by (rule frame)
  qed
  have d: "dentries S2 = dentries S1" "d_key S2 = d_key S1" "dentry_ok S2 = dentry_ok S1" by (auto simp: S2_def d_key_def dentry_ok_def fun_eq_iff)
  have "\<not> hash_kind (next_of (dlinks S2) x) \<and> \<not> hash_kind (prev_of (dlinks S2) x)" if "\<not> hash_kind x" for x
    using sep [OF that] sep [of "IDentry inode"] by (auto simp: S2_def next_list_add prev_list_add)
  then have S2: "chains_ok S2 F" using S1(1) D unfolding chains_ok_def d by blast
  have "chain S2 i = chain S1 i" if "i < 256" for i using chains_okD(4) [OF S1(1) that] chains_okD(4) [OF S2 that] by simp
  then have "dmap S2 = dmap S1" using name_hash_less by (simp add: fun_eq_iff dmap_def d)
  with S1 S2 d assms show "chains_ok (d_instantiate d inode S) F" "dmap (d_instantiate d inode S) = dmap S" "d_key (d_instantiate d inode S) = d_key S"
    by (auto simp: d_instantiate_def S2_def S1_def Let_def)
qed

lemma flag_set: "(w OR m) AND m = (m :: u32)"
  by (rule bit_word_eqI) (auto simp: bit_simps)

lemma delete_ok:
  assumes "chains_ok S F" "dmap S (d_key S d) = Some d" "i = name_hash (d_key S d)"
  shows "chains_ok (d_delete d S) (F(DHead i := remove1 (DHash d) (F (DHead i))))" "dmap (d_delete d S) = (dmap S)(d_key S d := None)"
    "d_key (d_delete d S) = d_key S" "d_unhashed d (d_delete d S)"
proof -
  let ?F = "F(DHead i := remove1 (DHash d) (F (DHead i)))"
  define S' where "S' = upd_dentry d (\<lambda>x. x\<lparr>d_flags := d_flags x OR DCACHE_UNHASHED\<rparr>) (upd_dlinks (list_del (DHash d)) S)"
  note c = chains_okD [OF assms(1)]
  have i: "i < 256" using assms(3) name_hash_less by simp
  have d: "DHash d \<in> set (F (DHead i))" using dmap_iff [OF assms(1)] assms(2,3) by auto
  then have ok: "dentry_ok S d" "d_flags (dentries S d) AND DCACHE_UNHASHED = 0" using c(2) [OF i] by auto
  have dl: "dlist (dlinks S) (DHead i) (F (DHead i))" by (rule dlistsD [OF c(1)]) (use i in simp)
  have sub: "e \<noteq> d \<and> DHash e \<in> set (F (DHead j)) \<longleftrightarrow> DHash e \<in> set (?F (DHead j))" if "j < 256" for e j
  proof (cases "j = i")
    case True
    have "distinct (F (DHead i))" using dl by (simp add: dlist_def)
    with True show ?thesis by auto
  next
    case False
    with dlists_disjoint [OF c(1), of "DHead i" "DHead j"] d i that have "DHash d \<notin> set (F (DHead j))" by auto
    with False show ?thesis by auto
  qed
  have key: "d_key S' = d_key S" "dentry_ok S' = dentry_ok S" by (auto simp: S'_def d_key_def dentry_ok_def fun_eq_iff)
  have D: "dlists (dlinks S') hash_heads ?F" using dlists_del [OF c(1), of "DHead i" "DHash d"] i d by (auto simp: S'_def)
  have S': "chains_ok S' ?F"
    unfolding chains_ok_def
  proof (intro conjI D allI impI ballI)
    fix j x assume j: "j < (256 :: nat)" and x: "x \<in> set (?F (DHead j))"
    then have "x \<in> set (F (DHead j))" using set_remove1_subset [of "DHash d" "F (DHead i)"] by (auto split: if_splits)
    from c(2) [OF j this] obtain e where e: "x = DHash e" "dentry_ok S e" "name_hash (d_key S e) = j" "d_flags (dentries S e) AND DCACHE_UNHASHED = 0" by blast
    moreover have "e \<noteq> d" using sub [OF j, of e] x e(1) by blast
    then have "d_flags (dentries S' e) = d_flags (dentries S e)" by (simp add: S'_def)
    ultimately show "\<exists>e. x = DHash e \<and> dentry_ok S' e \<and> name_hash (d_key S' e) = j \<and> d_flags (dentries S' e) AND DCACHE_UNHASHED = 0"
      unfolding key by auto
  next
    fix j e e' assume j: "j < (256 :: nat)" "DHash e \<in> set (?F (DHead j))" "DHash e' \<in> set (?F (DHead j))" "d_key S' e = d_key S' e'"
    then show "e = e'" using c(3) [OF j(1)] sub [OF j(1)] unfolding key by blast
  next
    fix x assume x: "\<not> hash_kind x"
    then have "x \<notin> set (DHead i # F (DHead i))" using c(2) [OF i, of x] by auto
    from list_del_frame [OF dl d this] c(5) [OF x]
    show "\<not> hash_kind (next_of (dlinks S') x)" "\<not> hash_kind (prev_of (dlinks S') x)" by (simp_all add: S'_def)
  qed
  have eq: "d_delete d S = S'" using ok by (simp add: d_delete_def dentry_ok_def S'_def)
  show "chains_ok (d_delete d S) ?F" "d_key (d_delete d S) = d_key S" using S' key eq by simp_all
  have "DHash e \<in> set (?F (DHead (name_hash k))) \<and> d_key S e = k \<longleftrightarrow> ((dmap S)(d_key S d := None)) k = Some e" for k e
    unfolding sub [OF name_hash_less, symmetric] using dmap_iff [OF assms(1), of k e] assms(2) by (cases "k = d_key S d") auto
  then show "dmap (d_delete d S) = (dmap S)(d_key S d := None)"
    unfolding eq by (intro dmap_eqI [OF assms(1) S']) (simp only: key)
  show "d_unhashed d (d_delete d S)"
    using ok(1) flag_set by (simp add: eq d_unhashed_def S'_def dentry_ok_def DCACHE_UNHASHED_def)
qed

lemma add_ok:
  assumes "dcache_inv S" "loose S d" "dmap S (d_key S d) = None"
  shows "\<exists>S'. d_add d inode S = Some S' \<and> dcache_inv S' \<and> dmap S' = (dmap S)(d_key S d \<mapsto> d) \<and> d_key S' = d_key S"
proof -
  obtain F where F: "chains_ok S F" using assms(1) by (auto simp: dcache_inv_def)
  define S1 where "S1 = (if inode \<noteq> 0 then d_instantiate d inode S else S)"
  have S1: "chains_ok S1 F" "dmap S1 = dmap S" "d_key S1 = d_key S" using instantiate_ok [OF F] F by (simp_all add: S1_def)
  have "chain S1 i = chain S i" if "i < 256" for i using chains_okD(4) [OF F that] chains_okD(4) [OF S1(1) that] by simp
  moreover have "dentry_ok S1 d = dentry_ok S d" by (simp add: S1_def d_instantiate_def dentry_ok_def Let_def)
  ultimately have "loose S1 d" using assms(2) by (simp add: loose_def)
  then obtain S' where "insert_hash d S1 = Some S'" "dmap S' = (dmap S1)(d_key S1 d \<mapsto> d)" "d_key S' = d_key S1" "dcache_inv S'"
    using insert_ok [OF S1(1) _ _ refl, of d] assms(3) S1(2,3) by (auto simp: dcache_inv_def)
  moreover have "d \<noteq> 0" using assms(2) by (simp add: loose_def dentry_ok_def)
  ultimately show ?thesis using S1 by (simp add: d_add_def S1_def Let_def)
qed

definition find_dentry :: "u32 \<times> u8 list \<Rightarrow> dstate \<Rightarrow> (u32 option \<times> dstate) option" where
  "find_dentry k S = do { (d, S) \<leftarrow> d_lookup (fst k) (Some (snd k @ [0])) S; Some (if d = 0 then None else Some d, S) }"

interpretation dc: keyed_store dcache_inv dmap d_key "\<lambda>k. 0 \<notin> set (snd k)" loose find_dentry "\<lambda>d. d_add d inode" "\<lambda>d S. Some (d_delete d S)"
  for inode
proof
  fix S and k :: "u32 \<times> u8 list" assume "dcache_inv S" and k: "0 \<notin> set (snd k)"
  then obtain F where F: "chains_ok S F" by (auto simp: dcache_inv_def)
  have "d \<noteq> 0" if "dmap S k = Some d" for d
    using dmap_iff [OF F, of k d] that chains_okD(2) [OF F name_hash_less, of "DHash d" k] by (auto simp: dentry_ok_def)
  moreover have "chains_ok (upd_dentry d (\<lambda>x. x\<lparr>d_count := d_count x + 1\<rparr>) S) F" "dmap (upd_dentry d (\<lambda>x. x\<lparr>d_count := d_count x + 1\<rparr>) S) = dmap S" for d
    using F by (simp_all add: chains_ok_fields [of "upd_dentry d (\<lambda>x. x\<lparr>d_count := d_count x + 1\<rparr>) S" S])
  ultimately show "\<exists>S'. find_dentry k S = Some (dmap S k, S') \<and> dcache_inv S' \<and> dmap S' = dmap S"
    using lookup_ok [OF F, of "snd k @ [0]" "snd k" "fst k"] k F by (cases "dmap S k") (auto simp: find_dentry_def dcache_inv_def)
next
  fix S d assume "dcache_inv S" "loose S d" "dmap S (d_key S d) = None"
  from add_ok [OF this, of inode]
  show "\<exists>S'. d_add d inode S = Some S' \<and> dcache_inv S' \<and> dmap S' = (dmap S)(d_key S d \<mapsto> d) \<and> d_key S' d = d_key S d" by auto
next
  fix S d assume "dcache_inv S" and d: "dmap S (d_key S d) = Some d"
  then obtain F where F: "chains_ok S F" by (auto simp: dcache_inv_def)
  from delete_ok [OF F d refl] show "\<exists>S'. Some (d_delete d S) = Some S' \<and> dcache_inv S' \<and> dmap S' = (dmap S)(d_key S d := None)"
    by (auto simp: dcache_inv_def)
qed

section \<open>Theorems\<close>

definition null_links :: "dnode list_heap" where
  "null_links = \<lparr>next_of = \<lambda>_. DNULL, prev_of = \<lambda>_. DNULL\<rparr>"

lemma init_heads_ok: "dlists (init_heads n h) (DHead ` {..<n}) (\<lambda>_. [])"
proof (induction n)
  case 0
  show ?case by (simp add: dlists_def)
next
  case (Suc n)
  then have "dlists (INIT_LIST_HEAD (DHead n) (init_heads n h)) (insert (DHead n) (DHead ` {..<n})) ((\<lambda>_. [])(DHead n := []))"
    by (rule dlists_insert_init) auto
  then show ?case by (simp add: lessThan_Suc fun_upd_idem)
qed

lemma init_heads_other: "\<not> hash_kind x \<Longrightarrow> next_of (init_heads n h) x = next_of h x \<and> prev_of (init_heads n h) x = prev_of h x"
  by (induction n) (auto simp: list_op_defs heap_simps)

text \<open>Before \<open>dcache_init\<close> the static table is zero; afterwards it is an empty map.\<close>

lemma dcache_init_ok:
  assumes "dlinks S = null_links" "dcache_init S = Some S'" "dentry_cache S' \<noteq> 0"
  shows "dcache_inv S'" "dmap S' = Map.empty"
proof -
  have l: "dlinks S' = init_heads 256 null_links"
    using assms by (auto simp: dcache_init_def DENTRY_HASH_SIZE_def Let_def upd_dlinks_def split: bind_splits if_splits)
  have ok: "chains_ok S' (\<lambda>_. [])"
    using init_heads_ok [of 256 null_links] init_heads_other [of _ 256 null_links] by (simp add: chains_ok_def l null_links_def)
  then show "dcache_inv S'" unfolding dcache_inv_def by blast
  show "dmap S' = Map.empty" using dmap_iff [OF ok] by (auto simp: fun_eq_iff) (metis empty_iff list.set(1) option.exhaust)
qed

text \<open>C36: the dentry cache is a map from parents and names to dentries.  Adding a dentry whose parent and name are not cached
  returns; afterwards \<open>d_lookup\<close> returns it for its parent and name, and for every other parent and name what was cached before
  or null; deleting it again leaves the cache as it was.\<close>

theorem dcache_add_lookup_delete:
  assumes "dcache_inv S" and "loose S d" and "dmap S (d_key S d) = None"
  shows "\<exists>S'. d_add d inode S = Some S' \<and> dcache_inv S'
    \<and> (\<forall>p n. 0 \<notin> set n \<longrightarrow> (\<exists>S''. d_lookup p (Some (n @ [0])) S' =
          Some (if (p, n) = d_key S d then d else case dmap S (p, n) of Some e \<Rightarrow> e | None \<Rightarrow> 0, S'')))
    \<and> dcache_inv (d_delete d S') \<and> dmap (d_delete d S') = dmap S"
proof -
  obtain S' where S': "d_add d inode S = Some S'" "dcache_inv S'" "dmap S' = (dmap S)(d_key S d \<mapsto> d)"
    using add_ok [OF assms] by blast
  then obtain F where F: "chains_ok S' F" by (auto simp: dcache_inv_def)
  have "\<exists>S''. d_lookup p (Some (n @ [0])) S' = Some (if (p, n) = d_key S d then d else case dmap S (p, n) of Some e \<Rightarrow> e | None \<Rightarrow> 0, S'')"
    if "0 \<notin> set n" for p n
    using lookup_ok [OF F, of "n @ [0]" n p] that S'(3) by (auto split: option.splits)
  moreover obtain S'' where "d_add d inode S = Some S''" "dcache_inv (d_delete d S'')" "dmap (d_delete d S'') = dmap S"
    using dc.ins_del [OF assms] by auto
  ultimately show ?thesis using S'(1,2) by auto
qed

definition sample_dcache :: dstate where
  "sample_dcache = \<lparr>dentries = \<lambda>_. \<lparr>d_count = 1, d_flags = 0, d_inode = 0, d_parent = 0x100, d_name = [101, 116, 99] @ replicate 27 0, d_op = 0, d_sb = 0\<rparr>,
     dlinks = init_heads 256 null_links, inode_sb = \<lambda>_. 0, dentry_cache = 1, dslab = sample_busy\<rparr>"

lemma sample_dcache_ok: "chains_ok sample_dcache (\<lambda>_. [])"
  using init_heads_ok [of 256 null_links] init_heads_other [of _ 256 null_links] by (simp add: chains_ok_def sample_dcache_def null_links_def)

lemma sample_dcache_key: "d_key sample_dcache d = (0x100, [101, 116, 99])"
  by (simp add: d_key_def sample_dcache_def cstr_def)

theorem dcache_add_lookup_delete_witness:
  "\<exists>S' S''. d_add 0x200 0x300 sample_dcache = Some S' \<and> d_lookup 0x100 (Some [101, 116, 99, 0]) S' = Some (0x200, S'')"
proof -
  have "dcache_inv sample_dcache" using sample_dcache_ok by (auto simp: dcache_inv_def)
  moreover have "loose sample_dcache 0x200"
    using chains_okD(4) [OF sample_dcache_ok] by (simp add: loose_def dentry_ok_def) (simp add: sample_dcache_def)
  moreover have "dmap sample_dcache (d_key sample_dcache 0x200) = None"
    using dmap_iff [OF sample_dcache_ok] by (cases "dmap sample_dcache (d_key sample_dcache 0x200)") auto
  ultimately obtain S' where S': "d_add 0x200 0x300 sample_dcache = Some S'"
    "\<forall>p n. 0 \<notin> set n \<longrightarrow> (\<exists>S''. d_lookup p (Some (n @ [0])) S' =
      Some (if (p, n) = d_key sample_dcache 0x200 then 0x200 else case dmap sample_dcache (p, n) of Some e \<Rightarrow> e | None \<Rightarrow> 0, S''))"
    using dcache_add_lookup_delete by blast
  from spec [OF spec [OF S'(2), of "0x100"], of "[101, 116, 99]"] S'(1) show ?thesis by (auto simp: sample_dcache_key)
qed

text \<open>A walk inside a set of nodes that is closed under the successor and does not hold the head never ends.\<close>

lemma list_walk_closed:
  assumes "\<And>x. x \<in> C \<Longrightarrow> next_of h x \<in> C" "a \<notin> C" "p \<in> C"
  shows "list_walk h a p = None"
proof -
  have "h' = h \<longrightarrow> a' = a \<longrightarrow> p \<notin> C" if "list_walk h' a' p = Some xs" for h' a' p xs
    using that
  proof (rule list_walk.raw_induct [rotated])
    fix walk :: "'a list_heap \<Rightarrow> 'a \<Rightarrow> 'a \<Rightarrow> 'a list option" and h' a' p xs
    assume IH: "\<And>h' a' p xs. walk h' a' p = Some xs \<Longrightarrow> h' = h \<longrightarrow> a' = a \<longrightarrow> p \<notin> C"
      and "(if list_is_head p a' then Some [] else walk h' a' (next_of h' p) \<bind> (\<lambda>ps. Some (p # ps))) = Some xs"
    then show "h' = h \<longrightarrow> a' = a \<longrightarrow> p \<notin> C"
      using assms(1) [of p] assms(2) IH [of h a "next_of h p"] by (auto simp: list_is_head_def split: if_splits bind_splits)
  qed
  with assms(3) show ?thesis by (cases "list_walk h a p") auto
qed

text \<open>A child that gets an inode tears its parent's list of children apart: \<open>d_instantiate\<close> links the node that \<open>d_alloc\<close> put into
  that list into the inode's list of dentries as well.  A loop over the children of the parent then never ends.\<close>

theorem d_instantiate_breaks_children:
  assumes "d_alloc parent name S = Some (d, S1)" and "d \<noteq> 0" and "parent \<noteq> 0" and "parent \<noteq> d" and "inode \<noteq> 0"
    and "IDentry inode \<in> C" and "DSubdirs parent \<notin> C" and "\<And>x. x \<in> C \<Longrightarrow> next_of (dlinks S1) x \<in> C"
  shows "list_for_each (dlinks (d_instantiate d inode S1)) (DSubdirs parent) = None"
proof -
  have first: "next_of (dlinks S1) (DSubdirs parent) = DChild d"
    using assms(1-4) by (auto simp: d_alloc_def next_list_add Let_def split: bind_splits if_splits)
  let ?h = "dlinks (d_instantiate d inode S1)"
  have h: "?h = list_add (IDentry inode) (DChild d) (dlinks S1)" using assms(2,5) by (simp add: d_instantiate_def Let_def)
  have "next_of ?h x \<in> insert (DChild d) C" if "x \<in> insert (DChild d) C" for x
    using that assms(6,8) unfolding h by (auto simp: next_list_add)
  moreover have "DSubdirs parent \<notin> insert (DChild d) C" using assms(7) by simp
  moreover have "next_of ?h (DSubdirs parent) = DChild d" using first by (simp add: h next_list_add)
  ultimately show ?thesis unfolding list_for_each_def by (intro list_walk_closed [where C = "insert (DChild d) C"]) auto
qed

lemma sample_d_alloc:
  "\<exists>S1. d_alloc 0x100 (Some [97, 0]) (sample_dcache\<lparr>dentry_cache := 0x1000\<rparr>) = Some (0xC00000A0, S1)
    \<and> next_of (dlinks S1) DNULL = DNULL \<and> next_of (dlinks S1) (IDentry 0x300) = DNULL"
proof -
  have "case kmem_cache_alloc 2 0x1000 0 sample_busy of Some (d, _) \<Rightarrow> d = 0xC00000A0 | None \<Rightarrow> False" by code_simp
  then obtain slab where "kmem_cache_alloc 2 0x1000 0 sample_busy = Some (0xC00000A0, slab)" by (auto split: option.splits prod.splits)
  moreover have "copy_name (Some [97, 0]) ([101, 116, 99] @ replicate 27 0) = Some (97 # replicate 29 0)" by code_simp
  ultimately show ?thesis
    using init_heads_other [of DNULL 256 null_links] init_heads_other [of "IDentry 0x300" 256 null_links]
    by (auto simp: d_alloc_def sample_dcache_def Let_def next_list_add list_op_defs heap_simps null_links_def)
qed

theorem d_instantiate_breaks_children_witness:
  "\<exists>S1. d_alloc 0x100 (Some [97, 0]) (sample_dcache\<lparr>dentry_cache := 0x1000\<rparr>) = Some (0xC00000A0, S1)
    \<and> list_for_each (dlinks (d_instantiate 0xC00000A0 0x300 S1)) (DSubdirs 0x100) = None"
proof -
  obtain S1 where S1: "d_alloc 0x100 (Some [97, 0]) (sample_dcache\<lparr>dentry_cache := 0x1000\<rparr>) = Some (0xC00000A0, S1)"
    "next_of (dlinks S1) DNULL = DNULL" "next_of (dlinks S1) (IDentry 0x300) = DNULL" using sample_d_alloc by blast
  have "list_for_each (dlinks (d_instantiate 0xC00000A0 0x300 S1)) (DSubdirs 0x100) = None"
    by (rule d_instantiate_breaks_children [OF S1(1), where C = "{DNULL, IDentry 0x300}"]) (use S1 in auto)
  with S1(1) show ?thesis by blast
qed

end
