(* ===== verification/Namei.thy ===== *)
theory Namei
  imports Dcache
begin

text \<open>
  Path lookup over the dentry cache (\<^verbatim>\<open>fs/ext2/namei.c\<close>, \<^verbatim>\<open>include/namei.h\<close>).

  The \<^verbatim>\<open>lookup\<close> operation that an inode points to is the parameter \<open>iop\<close>: \<open>iop i\<close> is \<open>None\<close> when the inode \<open>i\<close> has no operations
  or no lookup.  Arrays on the stack start with arbitrary bytes, the argument \<open>component\<close>.  Messages are dropped.  The
  lookup context \<^verbatim>\<open>nd\<close> is passed by value, so the tests for a null pointer to it have no counterpart.
\<close>

type_synonym dir_lookup = "u32 \<Rightarrow> u32 \<Rightarrow> dstate \<Rightarrow> (u32 \<times> dstate) option"

record nameidata =
  nd_dentry :: u32
  nd_mnt :: u32
  nd_flags :: u32
  nd_last_type :: int
  nd_last_name :: u32

section \<open>Components\<close>

fun skip_slashes :: "u8 list \<Rightarrow> u8 list option" where
  "skip_slashes [] = None"
| "skip_slashes (c # cs) = (if c = 47 then skip_slashes cs else Some (c # cs))"

fun copy_component :: "u8 list \<Rightarrow> u8 list \<Rightarrow> nat \<Rightarrow> nat \<Rightarrow> (u8 list \<times> u8 list) option" where
  "copy_component [] component len max_len = None"
| "copy_component (c # cs) component len max_len =
     (if c \<noteq> 0 \<and> c \<noteq> 47 \<and> len < max_len - 1
      then do { component \<leftarrow> put_byte component len c; copy_component cs component (len + 1) max_len }
      else do { component \<leftarrow> put_byte component len 0; Some (c # cs, component) })"

definition get_component :: "u8 list \<Rightarrow> u8 list \<Rightarrow> nat \<Rightarrow> (u8 list \<times> u8 list) option" where
  "get_component path component max_len = do {
     path \<leftarrow> skip_slashes path;
     copy_component path component 0 max_len
   }"

section \<open>Lookup of one component\<close>

definition do_lookup :: "(u32 \<Rightarrow> dir_lookup option) \<Rightarrow> u32 \<Rightarrow> u8 list \<Rightarrow> dstate \<Rightarrow> (u32 \<times> dstate) option" where
  "do_lookup iop parent name S = do {
     c \<leftarrow> get_byte name 0;
     if parent = 0 \<or> c = 0 then Some (0, S)
     else let dir = d_inode (dentries S parent) in
       if dir = 0 then Some (0, S)
       else do {
         (d, S) \<leftarrow> d_lookup parent (Some name) S;
         if d \<noteq> 0 then Some (d, S)
         else do {
           (d, S) \<leftarrow> d_alloc parent (Some name) S;
           if d = 0 then Some (0, S)
           else (case iop dir of
               Some lookup \<Rightarrow> do {
                 (result, S) \<leftarrow> lookup dir d S;
                 if result = 0 then do { S \<leftarrow> dput d S; Some (0, S) } else Some (result, S)
               }
             | None \<Rightarrow> do { S \<leftarrow> dput d S; Some (0, S) })
         }
       }
   }"

definition lookup_one_len :: "(u32 \<Rightarrow> dir_lookup option) \<Rightarrow> u8 list \<Rightarrow> u8 list option \<Rightarrow> u32 \<Rightarrow> int \<Rightarrow> dstate \<Rightarrow> (u32 \<times> dstate) option" where
  "lookup_one_len iop component name base len S = (case name of
       None \<Rightarrow> Some (0, S)
     | Some n \<Rightarrow>
         if base = 0 \<or> len \<le> 0 \<or> len \<ge> 64 then Some (0, S)
         else do {
           component \<leftarrow> strncpy component n (nat len);
           component \<leftarrow> put_byte component (nat len) 0;
           do_lookup iop base component S
         })"

section \<open>Walking a path\<close>

text \<open>Every round of the loop takes a component off the path.\<close>

lemma skip_slashes_length: "skip_slashes p = Some q \<Longrightarrow> length q \<le> length p"
  by (induction p) (auto split: if_splits)

lemma copy_component_kept: "copy_component p b len m = Some (q, b') \<Longrightarrow> length q \<le> length p \<and> length b' = length b \<and> (\<forall>i < len. b' ! i = b ! i)"
proof (induction p b len m rule: copy_component.induct)
  case (2 c cs b len m)
  then show ?case by (fastforce simp: put_byte_def split: if_splits bind_splits)
qed simp

lemma get_component_shorter:
  assumes "get_component p b m = Some (q, b')" "get_byte b' 0 = Some c" "c \<noteq> 0"
  shows "length q < length p"
proof -
  obtain x xs where s: "skip_slashes p = Some (x # xs)" "copy_component (x # xs) b 0 m = Some (q, b')"
    using assms(1) by (cases "skip_slashes p"; cases "the (skip_slashes p)") (auto simp: get_component_def)
  have "length q < length (x # xs)"
  proof (cases "x \<noteq> 0 \<and> x \<noteq> 47 \<and> 0 < m - 1")
    case True
    then show ?thesis using s(2) by (auto split: bind_splits dest!: copy_component_kept)
  next
    case False
    then have "b' ! 0 = 0" using s(2) by (auto simp: put_byte_def split: if_splits)
    with assms(2,3) show ?thesis by (auto simp: get_byte_def split: if_splits)
  qed
  with skip_slashes_length [OF s(1)] show ?thesis by simp
qed

function walk_path :: "(u32 \<Rightarrow> dir_lookup option) \<Rightarrow> u8 list \<Rightarrow> u8 list \<Rightarrow> u32 \<Rightarrow> dstate \<Rightarrow> (u32 option \<times> dstate) option" where
  "walk_path iop path component dentry S = do {
     c \<leftarrow> get_byte path 0;
     if c = 0 then Some (Some dentry, S)
     else do {
       (rest, component) \<leftarrow> get_component path component 64;
       first \<leftarrow> get_byte component 0;
       if first = 0 then Some (Some dentry, S)
       else do {
         dot \<leftarrow> strcmp component [46, 0];
         if dot = 0 then walk_path iop rest component dentry S
         else do {
           dotdot \<leftarrow> strcmp component [46, 46, 0];
           if dotdot = 0
           then walk_path iop rest component
             (if d_parent (dentries S dentry) \<noteq> dentry then d_parent (dentries S dentry) else dentry) S
           else do {
             (d, S) \<leftarrow> do_lookup iop dentry component S;
             if d = 0 then Some (None, S) else walk_path iop rest component d S
           }
         }
       }
     }
   }"
  by auto
termination by (relation "measure (\<lambda>(_, path, _). length path)") (auto dest: get_component_shorter)

definition link_path_walk :: "(u32 \<Rightarrow> dir_lookup option) \<Rightarrow> u8 list \<Rightarrow> u8 list option \<Rightarrow> nameidata \<Rightarrow> dstate \<Rightarrow> (int \<times> nameidata \<times> dstate) option" where
  "link_path_walk iop component path nd S = (case path of
       None \<Rightarrow> Some (- 1, nd, S)
     | Some p \<Rightarrow>
         if nd_dentry nd = 0 then Some (- 1, nd, S)
         else do {
           p \<leftarrow> skip_slashes p;
           (d, S) \<leftarrow> walk_path iop p component (nd_dentry nd) S;
           Some (case d of None \<Rightarrow> (- 1, nd, S) | Some e \<Rightarrow> (0, nd\<lparr>nd_dentry := e\<rparr>, S))
         })"

partial_function (option) climb :: "dstate \<Rightarrow> u32 \<Rightarrow> u32 option" where
  "climb S d = (if d_parent (dentries S d) = d then Some d else climb S (d_parent (dentries S d)))"

definition path_lookup :: "(u32 \<Rightarrow> dir_lookup option) \<Rightarrow> u8 list \<Rightarrow> u8 list option \<Rightarrow> u32 \<Rightarrow> nameidata \<Rightarrow> dstate \<Rightarrow> (int \<times> nameidata \<times> dstate) option" where
  "path_lookup iop component path fl nd S = (case path of
       None \<Rightarrow> Some (- 1, nd, S)
     | Some p \<Rightarrow>
         let nd = nd\<lparr>nd_flags := fl, nd_last_type := 0, nd_last_name := 0\<rparr> in
         if nd_dentry nd = 0 then Some (- 1, nd, S)
         else do {
           c \<leftarrow> get_byte p 0;
           start \<leftarrow> (if c = 47 then climb S (nd_dentry nd) else Some (nd_dentry nd));
           link_path_walk iop component path (nd\<lparr>nd_dentry := start\<rparr>) S
         })"

definition path_release :: "nameidata \<Rightarrow> dstate \<Rightarrow> (nameidata \<times> dstate) option" where
  "path_release nd S =
     (if nd_dentry nd \<noteq> 0 then do { S \<leftarrow> dput (nd_dentry nd) S; Some (nd\<lparr>nd_dentry := 0\<rparr>, S) } else Some (nd, S))"

definition follow_down :: "u32 \<Rightarrow> u32 \<Rightarrow> int" where "follow_down mnt dentry = 0"
definition follow_up :: "u32 \<Rightarrow> u32 \<Rightarrow> int" where "follow_up mnt dentry = 0"

definition path_walk :: "(u32 \<Rightarrow> dir_lookup option) \<Rightarrow> u8 list \<Rightarrow> u8 list option \<Rightarrow> nameidata \<Rightarrow> dstate \<Rightarrow> (int \<times> nameidata \<times> dstate) option" where
  "path_walk iop component path nd S = link_path_walk iop component path nd S"

section \<open>The components of a path\<close>

function components :: "u8 list \<Rightarrow> u8 list list" where
  "components p = (let q = dropWhile (\<lambda>c. c = 47) p in
     if q = [] then [] else takeWhile (\<lambda>c. c \<noteq> 47) q # components (dropWhile (\<lambda>c. c \<noteq> 47) q))"
  by auto
termination
proof (relation "measure length")
  fix p q :: "u8 list" assume q: "q = dropWhile (\<lambda>c. c = 47) p" "q \<noteq> []"
  have "List.hd q \<noteq> 47" using hd_dropWhile [of "\<lambda>c. c = 47" p] q by simp
  then obtain c cs where c: "q = c # cs" "c \<noteq> 47" using q(2) by (cases q) auto
  then have "length (dropWhile (\<lambda>c. c \<noteq> 47) q) < length q" by (simp add: less_Suc_eq_le length_dropWhile_le)
  also have "length q \<le> length p" using q(1) by (simp add: length_dropWhile_le)
  finally show "(dropWhile (\<lambda>c. c \<noteq> 47) q, p) \<in> measure length" by simp
qed simp

declare components.simps [simp del] walk_path.simps [simp del]

lemma skip_slashes_string: "skip_slashes (p @ [0]) = Some (dropWhile (\<lambda>c. c = 47) p @ [0])"
  by (induction p) auto

lemma copy_component_string:
  assumes "\<forall>c \<in> set n. c \<noteq> 0 \<and> c \<noteq> 47" "r \<noteq> []" "List.hd r = 0 \<or> List.hd r = 47" "len + length n \<le> 63" "length b = 64"
  shows "copy_component (n @ r) b len 64 = Some (r, take len b @ n @ 0 # drop (len + length n + 1) b)"
  using assms(1,4,5)
proof (induction n arbitrary: len b)
  case Nil
  then show ?case using assms(2,3) by (cases r) (auto simp: put_byte_def upd_conv_take_nth_drop)
next
  case (Cons c n)
  then have "copy_component (n @ r) (b[len := c]) (len + 1) 64 =
      Some (r, take (len + 1) (b[len := c]) @ n @ 0 # drop (len + 1 + length n + 1) (b[len := c]))" by simp
  with Cons.prems show ?case by (simp add: put_byte_def take_Suc_conv_app_nth)
qed

lemma get_component_string:
  assumes "0 \<notin> set p" "length b = 64" "components p = c # cs" "length c \<le> 63"
  shows "\<exists>q b'. get_component (p @ [0]) b 64 = Some (q @ [0], b') \<and> 0 \<notin> set q \<and> components q = cs \<and> cstr b' = c \<and> 0 \<in> set b'
    \<and> length b' = 64 \<and> 0 \<notin> set c \<and> c \<noteq> []"
proof -
  define q where "q = dropWhile (\<lambda>c. c = 47) p"
  define r where "r = dropWhile (\<lambda>c. c \<noteq> 47) q @ [0]"
  have q: "q \<noteq> []" "c = takeWhile (\<lambda>c. c \<noteq> 47) q" "cs = components (dropWhile (\<lambda>c. c \<noteq> 47) q)"
    using assms(3) by (auto simp: components.simps [of p] q_def Let_def split: if_splits)
  have q0: "0 \<notin> set q" using assms(1) set_dropWhileD unfolding q_def by fast
  have c: "\<forall>x \<in> set c. x \<noteq> 0 \<and> x \<noteq> 47" using q(2) q0 by (auto dest: set_takeWhileD)
  have "List.hd r = 0 \<or> List.hd r = 47"
  proof (cases "dropWhile (\<lambda>c. c \<noteq> 47) q = []")
    case True
    then show ?thesis unfolding r_def True by simp
  next
    case False
    from hd_dropWhile [OF False] show ?thesis unfolding r_def hd_append2 [OF False] by blast
  qed
  moreover have "r \<noteq> []" by (simp add: r_def)
  ultimately have "copy_component (c @ r) b 0 64 = Some (r, c @ 0 # drop (length c + 1) b)"
    using copy_component_string [OF c, of r 0 b] assms(2,4) by simp
  moreover have "c @ r = q @ [0]" using q(2) by (simp add: r_def)
  ultimately have "get_component (p @ [0]) b 64 = Some (r, c @ 0 # drop (length c + 1) b)"
    by (simp add: get_component_def skip_slashes_string q_def)
  moreover have "cstr (c @ 0 # drop (length c + 1) b) = c" using c by (intro cstr_append) auto
  moreover have "0 \<notin> set (dropWhile (\<lambda>c. c \<noteq> 47) q)" using q0 by (auto dest: set_dropWhileD)
  moreover have "List.hd q \<noteq> 47" using hd_dropWhile [of "\<lambda>c. c = 47" p] q(1) by (simp add: q_def)
  then have "c \<noteq> []" using q(1,2) by (cases q) auto
  ultimately show ?thesis using q(3) c assms(2,4)
    by (intro exI [of _ "dropWhile (\<lambda>c. c \<noteq> 47) q"] exI [of _ "c @ 0 # drop (length c + 1) b"]) (auto simp: r_def)
qed

lemma get_component_end:
  assumes "components p = []" "length b = 64"
  shows "\<exists>b'. get_component (p @ [0]) b 64 = Some ([0], b') \<and> get_byte b' 0 = Some 0"
proof -
  have "dropWhile (\<lambda>c. c = 47) p = []" using assms(1) by (auto simp: components.simps [of p] Let_def split: if_splits)
  then have "get_component (p @ [0]) b 64 = Some ([0], b[0 := 0])"
    using assms(2) by (simp add: get_component_def skip_slashes_string put_byte_def del: dropWhile_eq_Nil_conv)
  then show ?thesis using assms(2) by (auto simp: get_byte_def)
qed

section \<open>Walks through cached directories\<close>

primrec resolve :: "dstate \<Rightarrow> u32 \<Rightarrow> u8 list list \<Rightarrow> u32 option" where
  "resolve S d [] = Some d"
| "resolve S d (c # cs) =
     (if c = [46] then resolve S d cs
      else if c = [46, 46] then resolve S (d_parent (dentries S d)) cs
      else if d_inode (dentries S d) = 0 then None
      else Option.bind (dmap S (d, c)) (\<lambda>e. resolve S e cs))"

definition same_tree :: "dstate \<Rightarrow> dstate \<Rightarrow> bool" where
  "same_tree S S' \<longleftrightarrow> dcache_inv S' \<and> dmap S' = dmap S \<and> dslab S' = dslab S
     \<and> (\<forall>d. d_parent (dentries S' d) = d_parent (dentries S d) \<and> d_inode (dentries S' d) = d_inode (dentries S d))"

lemma resolve_same: "same_tree S S' \<Longrightarrow> resolve S' d cs = resolve S d cs"
  by (induction cs arbitrary: d) (auto simp: same_tree_def intro!: Option.bind_cong)

lemma same_tree_refl: "dcache_inv S \<Longrightarrow> same_tree S S"
  by (simp add: same_tree_def)

lemma do_lookup_cached:
  assumes "dcache_inv S" "0 \<in> set name" "cstr name = c" "c \<noteq> []" "d_inode (dentries S d) \<noteq> 0" "dmap S (d, c) = Some e"
  shows "\<exists>S'. do_lookup iop d name S = Some (e, S') \<and> e \<noteq> 0 \<and> same_tree S S'"
proof -
  obtain F where F: "chains_ok S F" using assms(1) by (auto simp: dcache_inv_def)
  define S' where "S' = upd_dentry e (\<lambda>x. x\<lparr>d_count := d_count x + 1\<rparr>) S"
  have "dentry_ok S e" "d_key S e = (d, c)"
    using dmap_iff [OF F, of "(d, c)" e] assms(6) chains_okD(2) [OF F name_hash_less, of "DHash e" "(d, c)"] by auto
  then have "e \<noteq> 0" "d \<noteq> 0" by (auto simp: dentry_ok_def d_key_def)
  moreover have "get_byte name 0 = Some (List.hd name)" "List.hd name \<noteq> 0"
    using assms(2-4) by (cases name; auto simp: get_byte_def cstr_def)+
  moreover have "d_lookup d (Some name) S = Some (e, S')"
    using lookup_ok [OF F assms(2) assms(3) [symmetric], of d] assms(6) by (simp add: S'_def)
  moreover have "chains_ok S' F = chains_ok S F" "dmap S' = dmap S" by (rule chains_ok_fields; simp add: S'_def)+
  then have "same_tree S S'" using F unfolding same_tree_def dcache_inv_def by (auto simp: S'_def upd_dentry_def)
  ultimately show ?thesis using assms(5) by (auto simp: do_lookup_def)
qed

lemma walk_cached:
  assumes "dcache_inv S" "0 \<notin> set p" "length b = 64" "\<forall>c \<in> set (components p). length c \<le> 63" "resolve S d (components p) = Some e"
  shows "\<exists>S'. walk_path iop (p @ [0]) b d S = Some (Some e, S') \<and> same_tree S S'"
  using assms
proof (induction "components p" arbitrary: p b d S)
  case Nil
  have "walk_path iop (p @ [0]) b d S = Some (Some d, S)"
  proof (cases p)
    case Nil
    then show ?thesis by (simp add: walk_path.simps [of _ "[0]"] get_byte_def)
  next
    case (Cons x xs)
    then show ?thesis using Nil.prems(2) get_component_end [OF Nil.hyps [symmetric] Nil.prems(3)]
      by (subst walk_path.simps) (auto simp: get_byte_def)
  qed
  with Nil show ?case using same_tree_refl by auto
next
  case (Cons c cs)
  obtain q b' where q: "get_component (p @ [0]) b 64 = Some (q @ [0], b')" "0 \<notin> set q" "components q = cs" "cstr b' = c" "0 \<in> set b'"
    "length b' = 64" "c \<noteq> []"
    using get_component_string [OF Cons.prems(2,3) Cons.hyps(2) [symmetric]] Cons.prems(4) Cons.hyps(2) by (metis list.set_intros(1))
  have IH: "\<exists>S''. walk_path iop (q @ [0]) b' d' S' = Some (Some e, S'') \<and> same_tree S' S''" if "dcache_inv S'" "resolve S' d' cs = Some e" for d' S'
    using Cons.hyps(1) [OF q(3) [symmetric] that(1) q(2,6), of d'] that(2) q(3) Cons.prems(4) Cons.hyps(2) [symmetric] by simp
  have trans: "same_tree S S''" if "same_tree S S'" "same_tree S' S''" for S' S'' using that by (simp add: same_tree_def)
  have p: "get_byte (p @ [0]) 0 = Some (List.hd p)" "List.hd p \<noteq> 0"
    using Cons.prems(2) Cons.hyps(2) by (cases p; auto simp: get_byte_def components.simps [of "[]"])+
  have first: "get_byte b' 0 = Some (List.hd b')" "List.hd b' \<noteq> 0" using q(4-7) by (cases b'; auto simp: get_byte_def cstr_def)+
  obtain r1 where r1: "strcmp b' [46, 0] = Some r1" "r1 = 0 \<longleftrightarrow> c = [46]" using strcmp_cstr [OF q(5), of "[46, 0]"] q(4) by (auto simp: cstr_def)
  obtain r2 where r2: "strcmp b' [46, 46, 0] = Some r2" "r2 = 0 \<longleftrightarrow> c = [46, 46]"
    using strcmp_cstr [OF q(5), of "[46, 46, 0]"] q(4) by (auto simp: cstr_def)
  have step: "walk_path iop (p @ [0]) b d S =
      (if c = [46] then walk_path iop (q @ [0]) b' d S
       else if c = [46, 46] then walk_path iop (q @ [0]) b' (d_parent (dentries S d)) S
       else do_lookup iop d b' S \<bind> (\<lambda>(e, S). if e = 0 then Some (None, S) else walk_path iop (q @ [0]) b' e S))"
    by (subst walk_path.simps) (use p q(1) first r1 r2 in simp)
  have res: "resolve S d (c # cs) = Some e" using Cons.prems(5) Cons.hyps(2) by simp
  consider "c = [46]" | "c = [46, 46]" | "c \<noteq> [46]" "c \<noteq> [46, 46]" by blast
  then show ?case
  proof cases
    case 1
    then show ?thesis using IH [OF Cons.prems(1), of d] res p(2) first(2) r1(2) by (simp add: step)
  next
    case 2
    then show ?thesis using IH [OF Cons.prems(1), of "d_parent (dentries S d)"] res p(2) first(2) r1(2) r2(2) by (auto simp: step)
  next
    case 3
    then obtain e1 where e1: "d_inode (dentries S d) \<noteq> 0" "dmap S (d, c) = Some e1" "resolve S e1 cs = Some e"
      using res by (auto split: if_splits bind_splits)
    obtain S' where S': "do_lookup iop d b' S = Some (e1, S')" "e1 \<noteq> 0" "same_tree S S'"
      using do_lookup_cached [OF Cons.prems(1) q(5,4,7) e1(1,2)] by blast
    then have "dcache_inv S'" "resolve S' e1 cs = Some e" using e1(3) resolve_same [OF S'(3)] by (simp_all add: same_tree_def)
    from IH [OF this] S' 3 p(2) first(2) r1(2) r2(2) show ?thesis by (auto simp: step intro: trans)
  qed
qed

section \<open>Lookup does not fill the cache\<close>

text \<open>What may happen to a dentry that is not in the table, and to everything else that is no part of the table.\<close>

definition sep :: "dnode list_heap \<Rightarrow> bool" where
  "sep h \<longleftrightarrow> (\<forall>x. \<not> hash_kind x \<longrightarrow> \<not> hash_kind (next_of h x) \<and> \<not> hash_kind (prev_of h x))"

definition links_but :: "u32 \<Rightarrow> dnode list_heap \<Rightarrow> dnode list_heap \<Rightarrow> bool" where
  "links_but d h h' \<longleftrightarrow> sep h' \<and> (\<forall>x. hash_kind x \<and> x \<noteq> DHash d \<longrightarrow> next_of h' x = next_of h x \<and> prev_of h' x = prev_of h x)"

definition table_but :: "u32 \<Rightarrow> dstate \<Rightarrow> dstate \<Rightarrow> bool" where
  "table_but d S S' \<longleftrightarrow> links_but d (dlinks S) (dlinks S')
     \<and> (\<forall>e. e \<noteq> d \<longrightarrow> d_parent (dentries S' e) = d_parent (dentries S e) \<and> d_name (dentries S' e) = d_name (dentries S e)
          \<and> d_flags (dentries S' e) = d_flags (dentries S e))"

lemma table_but_ok:
  assumes "chains_ok S F" "\<And>i. i < 256 \<Longrightarrow> DHash d \<notin> set (F (DHead i))" "table_but d S S'"
  shows "chains_ok S' F" "dmap S' = dmap S"
proof -
  note c = chains_okD [OF assms(1)]
  have fields: "d_key S' e = d_key S e" "dentry_ok S' e = dentry_ok S e" "d_flags (dentries S' e) = d_flags (dentries S e)" if "e \<noteq> d" for e
    using assms(3) that by (simp_all add: table_but_def d_key_def dentry_ok_def)
  have in_table: "e \<noteq> d" if "i < 256" "DHash e \<in> set (F (DHead i))" for e i using assms(2) that by blast
  have D: "dlists (dlinks S') hash_heads F"
  proof (rule dlists_frame [OF c(1)])
    fix a x assume "a \<in> hash_heads" and x: "x \<in> set (a # F a)"
    then obtain j where j: "a = DHead j" "j < 256" by auto
    with x have "hash_kind x \<and> x \<noteq> DHash d" using c(2) [of j x] assms(2) [of j] by auto
    then show "next_of (dlinks S') x = next_of (dlinks S) x \<and> prev_of (dlinks S') x = prev_of (dlinks S) x"
      using assms(3) by (simp add: table_but_def links_but_def)
  qed
  show S': "chains_ok S' F"
    unfolding chains_ok_def
  proof (intro conjI D allI impI ballI)
    fix i x assume x: "i < (256 :: nat)" "x \<in> set (F (DHead i))"
    from c(2) [OF this] obtain e where e: "x = DHash e" "dentry_ok S e" "name_hash (d_key S e) = i" "d_flags (dentries S e) AND DCACHE_UNHASHED = 0" by blast
    with fields [of e] in_table [of i e] x
    show "\<exists>e. x = DHash e \<and> dentry_ok S' e \<and> name_hash (d_key S' e) = i \<and> d_flags (dentries S' e) AND DCACHE_UNHASHED = 0" by auto
  next
    fix i e e' assume e: "i < (256 :: nat)" "DHash e \<in> set (F (DHead i))" "DHash e' \<in> set (F (DHead i))" "d_key S' e = d_key S' e'"
    then show "e = e'" using c(3) [OF e(1-3)] fields(1) in_table by metis
  next
    fix x assume "\<not> hash_kind x"
    then show "\<not> hash_kind (next_of (dlinks S') x)" "\<not> hash_kind (prev_of (dlinks S') x)" using assms(3) by (simp_all add: table_but_def links_but_def sep_def)
  qed
  have "DHash e \<in> set (F (DHead (name_hash k))) \<and> d_key S' e = k \<longleftrightarrow> dmap S k = Some e" for k e
    using dmap_iff [OF assms(1), of k e] fields(1) [of e] in_table [OF name_hash_less, of e k] by auto
  then show "dmap S' = dmap S" by (rule dmap_eqI [OF assms(1) S'])
qed

lemma table_but_trans: "table_but d S S' \<Longrightarrow> table_but d S' S'' \<Longrightarrow> table_but d S S''"
  by (simp add: table_but_def links_but_def)

lemma links_but_trans: "links_but d h h' \<Longrightarrow> links_but d h' h'' \<Longrightarrow> links_but d h h''"
  by (simp add: links_but_def)

lemma links_refl: "sep h \<Longrightarrow> links_but d h h"
  by (simp add: links_but_def)

lemma links_init: "links_but d h0 h \<Longrightarrow> \<not> hash_kind x \<or> x = DHash d \<Longrightarrow> links_but d h0 (INIT_LIST_HEAD x h)"
  by (auto simp: links_but_def sep_def list_op_defs heap_simps)

lemma links_add: "sep h \<Longrightarrow> \<not> hash_kind a \<Longrightarrow> \<not> hash_kind x \<Longrightarrow> links_but d h (list_add a x h)"
  by (auto simp: links_but_def sep_def next_list_add prev_list_add)

lemma links_del: "sep h \<Longrightarrow> \<not> hash_kind x \<Longrightarrow> links_but d h (list_del x h)"
  by (auto simp: links_but_def sep_def list_op_defs heap_simps zero_dnode_def)

lemma links_del_own: "sep h \<Longrightarrow> next_of h (DHash d) = DHash d \<Longrightarrow> prev_of h (DHash d) = DHash d \<Longrightarrow> links_but d h (list_del (DHash d) h)"
  by (auto simp: links_but_def sep_def list_op_defs heap_simps zero_dnode_def)

lemma alloc_table:
  assumes "sep (dlinks S)" "d_alloc parent name S = Some (d, S')" "d \<noteq> 0"
  shows "table_but d S S'" "next_of (dlinks S') (DHash d) = DHash d" "prev_of (dlinks S') (DHash d) = DHash d"
    "\<exists>slab. kmem_cache_alloc 2 (dentry_cache S) 0 (dslab S) = Some (d, slab)"
proof -
  obtain slab where a: "kmem_cache_alloc 2 (dentry_cache S) 0 (dslab S) = Some (d, slab)"
    using assms(2,3) by (auto simp: d_alloc_def Let_def split: bind_splits if_splits)
  then show "\<exists>slab. kmem_cache_alloc 2 (dentry_cache S) 0 (dslab S) = Some (d, slab)" by blast
  define h where "h = INIT_LIST_HEAD (DHash d) (INIT_LIST_HEAD (DSubdirs d) (INIT_LIST_HEAD (DChild d) (INIT_LIST_HEAD (DLru d) (dlinks S))))"
  obtain g where S': "dentries S' = (dentries S)(d := g)"
      "dlinks S' = (if parent \<noteq> 0 \<and> parent \<noteq> d then list_add (DSubdirs parent) (DChild d) h else h)"
    using assms(2,3) a by (auto simp: d_alloc_def Let_def h_def split: bind_splits if_splits)
  have "links_but d (dlinks S) h"
    unfolding h_def by (intro links_init links_refl assms(1)) auto
  moreover have "links_but d h (dlinks S')" if "sep h" using that links_add [OF that] by (auto simp: S'(2) links_but_def)
  ultimately have "links_but d (dlinks S) (dlinks S')" using links_but_trans by (auto simp: links_but_def)
  then show "table_but d S S'" by (simp add: table_but_def S'(1))
  have "next_of h (DHash d) = DHash d" "prev_of h (DHash d) = DHash d" by (simp_all add: h_def list_op_defs heap_simps)
  moreover have "next_of h (DSubdirs parent) \<noteq> DHash d"
    using \<open>links_but d (dlinks S) h\<close> by (auto simp: links_but_def sep_def dest!: spec [of _ "DSubdirs parent"])
  ultimately show "next_of (dlinks S') (DHash d) = DHash d" "prev_of (dlinks S') (DHash d) = DHash d"
    by (auto simp: S'(2) next_list_add prev_list_add)
qed

lemma dput_table:
  assumes "sep (dlinks S)" "next_of (dlinks S) (DHash d) = DHash d" "prev_of (dlinks S) (DHash d) = DHash d" "dput d S = Some S'"
  shows "table_but d S S'"
proof -
  define h where "h = (if d_parent (dentries S d) \<noteq> d then list_del (DChild d) (dlinks S) else dlinks S)"
  have h: "links_but e (dlinks S) h" for e using links_del [OF assms(1), of "DChild d" e] assms(1) by (simp add: h_def links_but_def)
  then have own: "sep h" "next_of h (DHash d) = DHash d" "prev_of h (DHash d) = DHash d"
    using assms(2,3) h [of "d + 1"] by (simp_all add: links_but_def)
  have refl: "links_but d (dlinks S) (dlinks S)" using assms(1) by (simp add: links_but_def)
  show ?thesis
  proof (cases "d = 0 \<or> d_count (dentries S d) - 1 \<noteq> 0")
    case True
    then have "dlinks S' = dlinks S" "dentries S' e = dentries S e" if "e \<noteq> d" for e
      using assms(4) that by (auto simp: dput_def Let_def split: if_splits)
    then have "dlinks S' = dlinks S" "\<And>e. e \<noteq> d \<Longrightarrow> dentries S' e = dentries S e" by (metis zero_neq_one, metis)
    with refl show ?thesis by (simp add: table_but_def)
  next
    case False
    define T where "T = upd_dlinks (\<lambda>_. h) (upd_dentry d (\<lambda>x. x\<lparr>d_count := d_count x - 1\<rparr>) S)"
    have T: "(if d_parent (dentries S d) \<noteq> d then upd_dlinks (list_del (DChild d)) (upd_dentry d (\<lambda>x. x\<lparr>d_count := d_count x - 1\<rparr>) S)
        else upd_dentry d (\<lambda>x. x\<lparr>d_count := d_count x - 1\<rparr>) S) = T" by (simp add: T_def h_def upd_dlinks_def upd_dentry_def)
    obtain slab where "S' = (d_delete d T)\<lparr>dslab := slab\<rparr>"
      using assms(4) False by (simp add: dput_def Let_def T) (auto split: bind_splits)
    then have "dlinks S' = h \<or> dlinks S' = list_del (DHash d) h" "\<And>e. e \<noteq> d \<Longrightarrow> dentries S' e = dentries S e"
      by (simp_all add: d_delete_def Let_def T_def)
    with h [of d] links_but_trans [OF h links_del_own [OF own]] show ?thesis by (auto simp: table_but_def)
  qed
qed

text \<open>Every cached dentry is an object that the slab allocator has handed out.\<close>

definition cached_live :: "dstate \<Rightarrow> bool" where
  "cached_live S \<longleftrightarrow> (\<exists>k A H F Fp. cache_ok k (dentry_cache S) (dslab S) A H F Fp
     \<and> (\<forall>i < 256. \<forall>d. DHash d \<in> set (chain S i) \<longrightarrow> d \<in> used_objs (dentry_cache S) (dslab S) H F))"

definition keeps_table :: "dir_lookup \<Rightarrow> bool" where
  "keeps_table lookup \<longleftrightarrow> (\<forall>dir d S r S' e. lookup dir d S = Some (r, S') \<longrightarrow> sep (dlinks S) \<longrightarrow> table_but e S S')"

lemma fresh_dentry:
  assumes "chains_ok S F" "cached_live S" "kmem_cache_alloc 2 (dentry_cache S) 0 (dslab S) = Some (d, slab)" "d \<noteq> 0" "i < 256"
  shows "DHash d \<notin> set (F (DHead i))"
proof -
  obtain k A H G Fp where ok: "cache_ok k (dentry_cache S) (dslab S) A H G Fp"
    and live: "\<forall>i < 256. \<forall>d. DHash d \<in> set (chain S i) \<longrightarrow> d \<in> used_objs (dentry_cache S) (dslab S) H G"
    using assms(2) unfolding cached_live_def by blast
  have "d \<notin> used_objs (dentry_cache S) (dslab S) H G"
    using cache_alloc_ok [OF ok, of 1 0] assms(3,4) by (auto simp: numeral_2_eq_2)
  with live assms(5) chains_okD(4) [OF assms(1,5)] show ?thesis by auto
qed

lemma miss_table:
  assumes "sep (dlinks S)" "d_alloc parent (Some name) S = Some (d, S1)" "d \<noteq> 0" "\<And>i lookup. iop i = Some lookup \<Longrightarrow> keeps_table lookup"
    and "(case iop dir of
        Some lookup \<Rightarrow> lookup dir d S1 \<bind> (\<lambda>(result, S). if result = 0 then dput d S \<bind> (\<lambda>S. Some (0, S)) else Some (result, S))
      | None \<Rightarrow> dput d S1 \<bind> (\<lambda>S. Some (0, S))) = Some (r, S')"
  shows "table_but d S S'"
proof -
  note a = alloc_table [OF assms(1-3)]
  have sep1: "sep (dlinks S1)" using a(1) by (simp add: table_but_def links_but_def)
  show ?thesis
  proof (cases "iop dir")
    case None
    then obtain "dput d S1 = Some S'" using assms(5) by (auto split: bind_splits)
    from dput_table [OF sep1 a(2,3) this] show ?thesis by (rule table_but_trans [OF a(1)])
  next
    case (Some lookup)
    then obtain r2 S2 where l: "lookup dir d S1 = Some (r2, S2)" and "S' = S2 \<or> dput d S2 = Some S'"
      using assms(5) by (auto split: bind_splits if_splits)
    have t: "table_but e S1 S2" for e using assms(4) [OF Some] l sep1 unfolding keeps_table_def by blast
    then have "sep (dlinks S2)" "next_of (dlinks S2) (DHash d) = DHash d" "prev_of (dlinks S2) (DHash d) = DHash d"
      using t [of "d + 1"] a(2,3) by (simp_all add: table_but_def links_but_def)
    from dput_table [OF this, of S'] \<open>S' = S2 \<or> dput d S2 = Some S'\<close> have "table_but d S1 S'" using t [of d] table_but_trans by blast
    then show ?thesis by (rule table_but_trans [OF a(1)])
  qed
qed

section \<open>Theorems\<close>

lemma components_skip: "components (dropWhile (\<lambda>c. c = 47) p) = components p"
  by (simp add: components.simps [of p] components.simps [of "dropWhile (\<lambda>c. c = 47) p"])

text \<open>C37: where every component of a path is cached, \<open>path_lookup\<close> finds the dentry that the components lead to.  It starts at the root
  for an absolute path and at the given dentry otherwise, ignores repeated slashes and \<^verbatim>\<open>.\<close>, goes to the parent for \<^verbatim>\<open>..\<close> and to the
  cached child for any other component; it allocates nothing and leaves the cache as it was.\<close>

theorem path_lookup_cached:
  assumes "dcache_inv S" and "nd_dentry nd \<noteq> 0" and "0 \<notin> set p" and "length component = 64" and "\<forall>c \<in> set (components p). length c \<le> 63"
    and "(if List.hd (p @ [0]) = 47 then climb S (nd_dentry nd) else Some (nd_dentry nd)) = Some r" and "r \<noteq> 0"
    and "resolve S r (components p) = Some e"
  shows "\<exists>nd' S'. path_lookup iop component (Some (p @ [0])) fl nd S = Some (0, nd', S') \<and> nd_dentry nd' = e \<and> same_tree S S'"
proof -
  let ?q = "dropWhile (\<lambda>c. c = 47) p"
  have "0 \<notin> set ?q" using assms(3) by (auto dest: set_dropWhileD)
  from walk_cached [OF assms(1) this assms(4), of r e iop] assms(5,8) obtain S' where
    S': "walk_path iop (?q @ [0]) component r S = Some (Some e, S')" "same_tree S S'" by (auto simp: components_skip)
  have "get_byte (p @ [0]) 0 = Some (List.hd (p @ [0]))" by (cases p) (simp_all add: get_byte_def)
  with S' assms(2,6,7) show ?thesis by (cases "List.hd (p @ [0]) = 47") (simp_all add: path_lookup_def link_path_walk_def skip_slashes_string Let_def)
qed

definition sample_tree :: dstate where
  "sample_tree = sample_dcache\<lparr>dentries := (dentries sample_dcache)
     (0x100 := \<lparr>d_count = 1, d_flags = 0, d_inode = 1, d_parent = 0x100, d_name = 47 # replicate 29 0, d_op = 0, d_sb = 0\<rparr>)\<rparr>"

lemma sample_tree_added:
  "\<exists>S1. d_add 0x200 0 sample_tree = Some S1 \<and> dcache_inv S1 \<and> dmap S1 (0x100, [101, 116, 99]) = Some 0x200
    \<and> d_parent (dentries S1 0x100) = 0x100 \<and> d_inode (dentries S1 0x100) = 1"
proof -
  have ok: "chains_ok sample_tree (\<lambda>_. [])" using sample_dcache_ok by (simp add: chains_ok_def sample_tree_def)
  have key: "d_key sample_tree 0x200 = (0x100, [101, 116, 99])" using sample_dcache_key by (simp add: d_key_def sample_tree_def)
  have "loose sample_tree 0x200"
    using chains_okD(4) [OF ok] by (simp add: loose_def dentry_ok_def) (simp add: sample_tree_def sample_dcache_def)
  moreover have "dmap sample_tree (d_key sample_tree 0x200) = None"
    using dmap_iff [OF ok] by (cases "dmap sample_tree (d_key sample_tree 0x200)") auto
  ultimately obtain S1 where S1: "insert_hash 0x200 sample_tree = Some S1" "dcache_inv S1" "dmap S1 = (dmap sample_tree)(d_key sample_tree 0x200 \<mapsto> 0x200)"
    using insert_ok [OF ok _ _ refl, of "0x200"] by (auto simp: dcache_inv_def)
  moreover have "d_parent (dentries S1 0x100) = 0x100 \<and> d_inode (dentries S1 0x100) = 1"
    using S1(1) by (auto simp: insert_hash_def sample_tree_def split: bind_splits)
  ultimately show ?thesis by (simp add: d_add_def key)
qed

lemma sample_path: "components [47, 101, 116, 99] = [[101, 116, 99]]"
  by (simp add: components.simps Let_def)

theorem path_lookup_cached_witness:
  "\<exists>S1 nd' S'. d_add 0x200 0 sample_tree = Some S1
    \<and> path_lookup (\<lambda>_. None) (replicate 64 0) (Some [47, 101, 116, 99, 0]) 0 \<lparr>nd_dentry = 0x100, nd_mnt = 0, nd_flags = 0, nd_last_type = 0, nd_last_name = 0\<rparr> S1
        = Some (0, nd', S') \<and> nd_dentry nd' = 0x200"
proof -
  obtain S1 where S1: "d_add 0x200 0 sample_tree = Some S1" "dcache_inv S1" "dmap S1 (0x100, [101, 116, 99]) = Some 0x200"
    "d_parent (dentries S1 0x100) = 0x100" "d_inode (dentries S1 0x100) = 1" using sample_tree_added by blast
  let ?nd = "\<lparr>nd_dentry = 0x100, nd_mnt = 0, nd_flags = 0, nd_last_type = 0, nd_last_name = 0\<rparr> :: nameidata"
  have "climb S1 0x100 = Some 0x100" using S1(4) by (simp add: climb.simps)
  then have "(if List.hd ([47, 101, 116, 99] @ [0 :: u8]) = 47 then climb S1 (nd_dentry ?nd) else Some (nd_dentry ?nd)) = Some 0x100" by simp
  moreover have "resolve S1 0x100 (components [47, 101, 116, 99]) = Some 0x200" using S1(3,5) by (simp add: sample_path)
  ultimately show ?thesis
    using path_lookup_cached [OF S1(2), of ?nd "[47, 101, 116, 99]" "replicate 64 0" "0x100" "0x200" "\<lambda>_. None" 0] S1(1) by (auto simp: sample_path)
qed

text \<open>C38: path lookup never fills the dentry cache.  Whatever \<open>do_lookup\<close> returns for a name, and as long as the lookup operation of the
  file system does not touch the hash table, the cache maps the same names to the same dentries afterwards: a name that was not
  cached is allocated and read from the directory again at the next lookup.\<close>

theorem do_lookup_never_caches:
  assumes "dcache_inv S" and "cached_live S" and "\<And>i lookup. iop i = Some lookup \<Longrightarrow> keeps_table lookup"
    and "0 \<in> set name" and "do_lookup iop parent name S = Some (r, S')"
  shows "dcache_inv S' \<and> dmap S' = dmap S"
proof -
  obtain F where F: "chains_ok S F" using assms(1) by (auto simp: dcache_inv_def)
  have "sep (dlinks S)" using F by (simp add: chains_ok_def sep_def)
  let ?dir = "d_inode (dentries S parent)"
  have same: "?thesis" if "dlinks S' = dlinks S" "\<And>e. d_parent (dentries S' e) = d_parent (dentries S e)" "\<And>e. d_name (dentries S' e) = d_name (dentries S e)"
      "\<And>e. d_flags (dentries S' e) = d_flags (dentries S e)"
    using chains_ok_fields(1) [OF that, of F] chains_ok_fields(2) [OF that] F by (auto simp: dcache_inv_def)
  obtain c where c: "get_byte name 0 = Some c" using assms(4) by (cases name) (auto simp: get_byte_def)
  show ?thesis
  proof (cases "parent = 0 \<or> c = 0 \<or> ?dir = 0")
    case True
    then have "S' = S" using assms(5) c by (auto simp: do_lookup_def Let_def split: if_splits)
    then show ?thesis by (intro same) simp_all
  next
    case False
    note l = lookup_ok [OF F assms(4) refl, of parent]
    show ?thesis
    proof (cases "dmap S (parent, cstr name)")
      case (Some e)
      have "e \<noteq> 0" using dmap_iff [OF F, of "(parent, cstr name)" e] Some chains_okD(2) [OF F name_hash_less, of "DHash e"] by (auto simp: dentry_ok_def)
      then have "S' = upd_dentry e (\<lambda>x. x\<lparr>d_count := d_count x + 1\<rparr>) S" using assms(5) c False l Some by (auto simp: do_lookup_def Let_def)
      then show ?thesis by (intro same) (auto split: if_splits)
    next
      case None
      then obtain d S1 where a: "d_alloc parent (Some name) S = Some (d, S1)" using assms(5) c False l by (auto simp: do_lookup_def Let_def split: bind_splits)
      show ?thesis
      proof (cases "d = 0")
        case True
        then have "S' = S1" using a assms(5) c False l None by (auto simp: do_lookup_def Let_def)
        with a True show ?thesis by (intro same) (auto simp: d_alloc_def Let_def split: bind_splits if_splits)
      next
        case nz: False
        obtain slab where "kmem_cache_alloc 2 (dentry_cache S) 0 (dslab S) = Some (d, slab)" using alloc_table(4) [OF \<open>sep (dlinks S)\<close> a nz] by blast
        note fresh = fresh_dentry [OF F assms(2) this nz]
        have "table_but d S S'"
          by (rule miss_table [OF \<open>sep (dlinks S)\<close> a nz assms(3)]) (use a nz assms(5) c False l None in \<open>auto simp: do_lookup_def Let_def\<close>)
        from table_but_ok [OF F fresh this] show ?thesis by (auto simp: dcache_inv_def)
      qed
    qed
  qed
qed

lemma instantiate_keeps_table: "keeps_table (\<lambda>dir d S. Some (d, d_instantiate d dir S))"
proof -
  have "table_but e S (d_instantiate d dir S)" if "sep (dlinks S)" for e d dir S
    using that links_add [OF that, of "IDentry dir" "DChild d" e] links_refl [OF that, of e] by (auto simp: table_but_def d_instantiate_def Let_def)
  then show ?thesis by (simp add: keeps_table_def)
qed

theorem do_lookup_never_caches_witness:
  "\<exists>d S'. do_lookup (\<lambda>_. Some (\<lambda>dir d S. Some (d, d_instantiate d dir S))) 0x100 [97, 0] (sample_tree\<lparr>dentry_cache := 0x1000\<rparr>) = Some (d, S')
    \<and> d \<noteq> 0 \<and> dmap S' (0x100, [97]) = None"
proof -
  let ?S = "sample_tree\<lparr>dentry_cache := 0x1000\<rparr>" and ?iop = "\<lambda>_ :: u32. Some (\<lambda>dir d S. Some (d, d_instantiate d dir S)) :: dir_lookup option"
  have ok: "chains_ok ?S (\<lambda>_. [])" using sample_dcache_ok by (simp add: chains_ok_def sample_tree_def)
  have none: "dmap ?S k = None" for k using dmap_iff [OF ok, of k] by (cases "dmap ?S k") auto
  have "cached_live ?S"
    unfolding cached_live_def using sample_busy_ok chains_okD(4) [OF ok]
    by (intro exI [of _ 0] exI [of _ "cache_heads 0x1000"] exI [of _ sample_lists_of] exI [of _ "\<lambda>_. [0xC00000A0]"] exI [of _ "{}"])
      (simp add: sample_tree_def sample_dcache_def)
  moreover have "\<exists>S1. d_alloc 0x100 (Some [97, 0]) ?S = Some (0xC00000A0, S1)"
  proof -
    have "case kmem_cache_alloc 2 0x1000 0 sample_busy of Some (d, _) \<Rightarrow> d = 0xC00000A0 | None \<Rightarrow> False" by code_simp
    then obtain slab where "kmem_cache_alloc 2 0x1000 0 sample_busy = Some (0xC00000A0, slab)" by (auto split: option.splits prod.splits)
    moreover have "copy_name (Some [97, 0]) ([101, 116, 99] @ replicate 27 0) = Some (97 # replicate 29 0)" by code_simp
    ultimately show ?thesis by (simp add: d_alloc_def sample_tree_def sample_dcache_def Let_def)
  qed
  then obtain S' where S': "do_lookup ?iop 0x100 [97, 0] ?S = Some (0xC00000A0, S')"
    using lookup_ok [OF ok, of "[97, 0]" "[97]" "0x100"] none by (auto simp: do_lookup_def get_byte_def Let_def cstr_def sample_tree_def)
  moreover have "dcache_inv ?S" using ok by (auto simp: dcache_inv_def)
  ultimately have "dmap S' = dmap ?S"
    using do_lookup_never_caches [of ?S ?iop "[97, 0]", OF _ _ _ _ S'] instantiate_keeps_table by auto
  with S' none show ?thesis by auto
qed

end
