(* ===== verification/Fs_Registry.thy ===== *)
theory Fs_Registry
  imports Dcache
begin

text \<open>
  The registry of file system types and the allocation of super blocks (\<^verbatim>\<open>fs/ext2/super.c\<close>).  The registered types form a list that is
  searched by name; it keeps the contract \<open>keyed_store\<close>.  Messages are dropped.
\<close>

section \<open>State\<close>

definition sizeof_super_block :: u32 where "sizeof_super_block = 68"

datatype rnode = RNULL | FsHead | FsNode u32 | FsSupers u32 | SbList u32 | SbInodes u32 | SbDirty u32 | SbFiles u32

instantiation rnode :: zero
begin
definition zero_rnode :: rnode where "zero_rnode = RNULL"
instance ..
end

record super_block =
  s_dev :: u8
  s_blocksize :: u32
  s_dirt :: u8
  s_op :: u32
  sb_flags :: u32
  sb_magic :: u32
  s_root :: u32
  s_count :: u32
  s_fs_info :: u32

record registry =
  fs_name :: "u32 \<Rightarrow> u8 list option"
  rlinks :: "rnode list_heap"
  fs_list_initialized :: bool
  super_cache :: u32
  supers :: "u32 \<Rightarrow> super_block"
  rslab :: slab_state

definition upd_rlinks :: "(rnode list_heap \<Rightarrow> rnode list_heap) \<Rightarrow> registry \<Rightarrow> registry" where
  "upd_rlinks f R = R\<lparr>rlinks := f (rlinks R)\<rparr>"

definition upd_super :: "u32 \<Rightarrow> (super_block \<Rightarrow> super_block) \<Rightarrow> registry \<Rightarrow> registry" where
  "upd_super sb f R = R\<lparr>supers := (supers R)(sb := f (supers R sb))\<rparr>"

section \<open>File system types\<close>

definition init_fs_registry :: "registry \<Rightarrow> registry option" where
  "init_fs_registry R =
     (if fs_list_initialized R then Some R
      else do {
        let R = upd_rlinks (INIT_LIST_HEAD FsHead) R;
        let R = R\<lparr>fs_list_initialized := True\<rparr>;
        (c, slab) \<leftarrow> kmem_cache_create ''super_block'' sizeof_super_block KMALLOC_MINALIGN SLAB_HWCACHE_ALIGN 0 (rslab R);
        Some (R\<lparr>super_cache := c, rslab := slab\<rparr>)
      })"

fun fs_of_node :: "rnode \<Rightarrow> u32 option" where
  "fs_of_node (FsNode fs) = Some fs"
| "fs_of_node _ = None"

text \<open>The result of comparing a registered name; the search stops where the comparison leaves the model.\<close>

definition fs_matches :: "registry \<Rightarrow> u8 list \<Rightarrow> rnode \<Rightarrow> bool option" where
  "fs_matches R name x = do {
     fs \<leftarrow> fs_of_node x;
     n \<leftarrow> fs_name R fs;
     r \<leftarrow> strcmp n name;
     Some (r = 0)
   }"

definition find_fs :: "registry \<Rightarrow> u8 list \<Rightarrow> u32 option" where
  "find_fs R name = do {
     found \<leftarrow> list_find (rlinks R) FsHead (\<lambda>x. fs_matches R name x \<noteq> Some False);
     (case found of
        None \<Rightarrow> Some 0
      | Some x \<Rightarrow> do { m \<leftarrow> fs_matches R name x; fs_of_node x })
   }"

definition register_filesystem :: "u32 \<Rightarrow> registry \<Rightarrow> (int \<times> registry) option" where
  "register_filesystem fs R =
     (if fs = 0 then Some (- 1, R)
      else (case fs_name R fs of
          None \<Rightarrow> Some (- 1, R)
        | Some name \<Rightarrow> do {
            R \<leftarrow> init_fs_registry R;
            existing \<leftarrow> find_fs R name;
            if existing \<noteq> 0 then Some (- 1, R)
            else do {
              let R = upd_rlinks (INIT_LIST_HEAD (FsSupers fs)) R;
              Some (0, upd_rlinks (list_add FsHead (FsNode fs)) R)
            }
          }))"

definition unregister_filesystem :: "u32 \<Rightarrow> registry \<Rightarrow> int \<times> registry" where
  "unregister_filesystem fs R = (if fs = 0 then (- 1, R) else (0, upd_rlinks (list_del (FsNode fs)) R))"

definition get_fs_type :: "u8 list option \<Rightarrow> registry \<Rightarrow> (u32 \<times> registry) option" where
  "get_fs_type name R = (case name of
       None \<Rightarrow> Some (0, R)
     | Some n \<Rightarrow> do {
         R \<leftarrow> init_fs_registry R;
         fs \<leftarrow> find_fs R n;
         Some (fs, R)
       })"

section \<open>Super blocks\<close>

definition alloc_super :: "registry \<Rightarrow> (u32 \<times> registry) option" where
  "alloc_super R = do {
     R \<leftarrow> (if super_cache R = 0 then init_fs_registry R else Some R);
     (sb, slab) \<leftarrow> kmem_cache_alloc 2 (super_cache R) 0 (rslab R);
     let R = R\<lparr>rslab := slab\<rparr>;
     if sb = 0 then Some (0, R)
     else do {
       let R = upd_rlinks (INIT_LIST_HEAD (SbList sb)) R;
       let R = upd_super sb (\<lambda>_. \<lparr>s_dev = 0, s_blocksize = 0, s_dirt = 0, s_op = 0, sb_flags = 0, sb_magic = 0, s_root = 0, s_count = 1, s_fs_info = 0\<rparr>) R;
       let R = upd_rlinks (INIT_LIST_HEAD (SbInodes sb)) R;
       let R = upd_rlinks (INIT_LIST_HEAD (SbDirty sb)) R;
       Some (sb, upd_rlinks (INIT_LIST_HEAD (SbFiles sb)) R)
     }
   }"

definition destroy_super :: "u32 \<Rightarrow> registry \<Rightarrow> registry option" where
  "destroy_super sb R =
     (if sb = 0 then Some R
      else let R = upd_super sb (\<lambda>s. s\<lparr>s_count := s_count s - 1\<rparr>) R
           in if s_count (supers R sb) = 0
              then do {
                slab \<leftarrow> (if s_fs_info (supers R sb) \<noteq> 0 then kfree (s_fs_info (supers R sb)) (rslab R) else Some (rslab R));
                slab \<leftarrow> kmem_cache_free 2 (super_cache R) sb slab;
                Some (R\<lparr>rslab := slab\<rparr>)
              }
              else Some R)"

definition get_super :: "u8 \<Rightarrow> u32" where "get_super dev = 0"

section \<open>The registry as a map\<close>

definition registered :: "registry \<Rightarrow> u32 list" where
  "registered R = (case list_for_each (rlinks R) FsHead of Some xs \<Rightarrow> List.map_filter fs_of_node xs | None \<Rightarrow> [])"

definition fs_key :: "registry \<Rightarrow> u32 \<Rightarrow> u8 list" where
  "fs_key R fs = (case fs_name R fs of Some n \<Rightarrow> cstr n | None \<Rightarrow> [])"

definition fsmap :: "registry \<Rightarrow> u8 list \<Rightarrow> u32 option" where
  "fsmap R n = List.find (\<lambda>fs. fs_key R fs = n) (registered R)"

definition fs_ok :: "registry \<Rightarrow> u32 \<Rightarrow> bool" where
  "fs_ok R fs \<longleftrightarrow> fs \<noteq> 0 \<and> (\<exists>n. fs_name R fs = Some n \<and> 0 \<in> set n)"

definition registry_inv :: "registry \<Rightarrow> bool" where
  "registry_inv R \<longleftrightarrow> fs_list_initialized R \<and> dlist (rlinks R) FsHead (map FsNode (registered R))
     \<and> (\<forall>fs \<in> set (registered R). fs_ok R fs) \<and> distinct (map (fs_key R) (registered R))"

definition unregistered :: "registry \<Rightarrow> u32 \<Rightarrow> bool" where
  "unregistered R fs \<longleftrightarrow> fs_ok R fs \<and> fs \<notin> set (registered R)"

lemma map_filter_FsNode: "List.map_filter fs_of_node (map FsNode fss) = fss"
  by (induction fss) (simp_all add: List.map_filter_simps)

lemma registered_dlist: "dlist (rlinks R) FsHead (map FsNode fss) \<Longrightarrow> registered R = fss"
  using list_for_each_dlist [of "rlinks R" FsHead "map FsNode fss"] by (simp add: registered_def map_filter_FsNode)

lemma find_map_FsNode:
  "(\<And>fs. fs \<in> set fss \<Longrightarrow> Q (FsNode fs) = P fs) \<Longrightarrow> List.find Q (map FsNode fss) = map_option FsNode (List.find P fss)"
  by (induction fss) auto

lemma find_fs_ok:
  assumes "registry_inv R" "0 \<in> set name"
  shows "find_fs R name = Some (case fsmap R (cstr name) of None \<Rightarrow> 0 | Some fs \<Rightarrow> fs)"
proof -
  let ?P = "\<lambda>fs. fs_key R fs = cstr name"
  have m: "fs_matches R name (FsNode fs) = Some (?P fs)" if fs: "fs \<in> set (registered R)" for fs
  proof -
    obtain n where n: "fs_name R fs = Some n" "0 \<in> set n" using assms(1) fs by (auto simp: registry_inv_def fs_ok_def)
    from strcmp_cstr [OF n(2) assms(2)] n(1) show ?thesis by (auto simp: fs_matches_def fs_key_def)
  qed
  then have "List.find (\<lambda>x. fs_matches R name x \<noteq> Some False) (map FsNode (registered R)) = map_option FsNode (List.find ?P (registered R))"
    by (intro find_map_FsNode) simp
  moreover have "dlist (rlinks R) FsHead (map FsNode (registered R))" using assms(1) by (simp add: registry_inv_def)
  ultimately have run: "list_find (rlinks R) FsHead (\<lambda>x. fs_matches R name x \<noteq> Some False) = Some (map_option FsNode (List.find ?P (registered R)))"
    using list_find_dlist by metis
  show ?thesis
  proof (cases "List.find ?P (registered R)")
    case (Some fs)
    then have "fs \<in> set (registered R)" by (auto simp: find_Some_iff)
    with Some run m show ?thesis by (simp add: find_fs_def fsmap_def)
  qed (use run in \<open>simp add: find_fs_def fsmap_def\<close>)
qed

lemma fsmap_iff:
  assumes "distinct (map (fs_key R) (registered R))"
  shows "fsmap R n = Some fs \<longleftrightarrow> fs \<in> set (registered R) \<and> fs_key R fs = n"
proof -
  have "List.find (\<lambda>fs. fs_key R fs = n) fss = Some fs \<longleftrightarrow> fs \<in> set fss \<and> fs_key R fs = n" if "distinct (map (fs_key R) fss)" for fss
    using that by (induction fss) (auto simp: image_iff)
  with assms show ?thesis by (simp add: fsmap_def)
qed

lemma registry_step:
  assumes "registry_inv R" "fs_name R' = fs_name R" "fs_list_initialized R'" "dlist (rlinks R') FsHead (map FsNode fss)"
    "\<forall>fs \<in> set fss. fs_ok R fs" "distinct (map (fs_key R) fss)"
  shows "registry_inv R'" "registered R' = fss" "fs_key R' = fs_key R"
proof -
  show r: "registered R' = fss" by (rule registered_dlist [OF assms(4)])
  show k: "fs_key R' = fs_key R" by (simp add: fun_eq_iff fs_key_def assms(2))
  show "registry_inv R'" using assms(2-) unfolding registry_inv_def r k by (simp add: fs_ok_def)
qed

lemma register_ok:
  assumes "registry_inv R" "unregistered R fs" "fsmap R (fs_key R fs) = None"
  shows "\<exists>R'. register_filesystem fs R = Some (0, R') \<and> registry_inv R' \<and> fsmap R' = (fsmap R)(fs_key R fs \<mapsto> fs) \<and> fs_key R' = fs_key R"
proof -
  obtain n where n: "fs \<noteq> 0" "fs_name R fs = Some n" "0 \<in> set n" "fs_key R fs = cstr n" "fs \<notin> set (registered R)"
    using assms(2) by (auto simp: unregistered_def fs_ok_def fs_key_def)
  have inv: "fs_list_initialized R" "dlist (rlinks R) FsHead (map FsNode (registered R))" "distinct (map (fs_key R) (registered R))"
    using assms(1) by (simp_all add: registry_inv_def)
  define R' where "R' = upd_rlinks (list_add FsHead (FsNode fs)) (upd_rlinks (INIT_LIST_HEAD (FsSupers fs)) R)"
  have "dlist (INIT_LIST_HEAD (FsSupers fs) (rlinks R)) FsHead (map FsNode (registered R)) = dlist (rlinks R) FsHead (map FsNode (registered R))"
    by (rule dlist_cong) (auto simp: list_op_defs heap_simps)
  with inv(2) have "dlist (rlinks R') FsHead (map FsNode (fs # registered R))"
    using dlist_list_add [of _ FsHead "map FsNode (registered R)" "FsNode fs"] n(5) by (auto simp: R'_def upd_rlinks_def)
  moreover have none: "fs_key R fs \<notin> fs_key R ` set (registered R)" 
  proof
    assume "fs_key R fs \<in> fs_key R ` set (registered R)"
    then obtain x where "x \<in> set (registered R)" "fs_key R x = fs_key R fs" by auto
    with fsmap_iff [OF inv(3), of "fs_key R fs" x] assms(3) show False by simp
  qed
  moreover have "\<forall>x \<in> set (fs # registered R). fs_ok R x" using assms(1,2) by (auto simp: registry_inv_def unregistered_def)
  ultimately have R': "registry_inv R'" "registered R' = fs # registered R" "fs_key R' = fs_key R"
    using registry_step [OF assms(1), of R' "fs # registered R"] inv by (simp_all add: R'_def upd_rlinks_def)
  have "fsmap R' k = ((fsmap R)(fs_key R fs \<mapsto> fs)) k" for k by (simp add: fsmap_def R')
  moreover have "register_filesystem fs R = Some (0, R')"
    using n inv(1) find_fs_ok [OF assms(1) n(3)] assms(3) by (simp add: register_filesystem_def init_fs_registry_def R'_def)
  ultimately show ?thesis using R' by blast
qed

lemma unregister_ok:
  assumes "registry_inv R" "fsmap R (fs_key R fs) = Some fs"
  shows "\<exists>R'. unregister_filesystem fs R = (0, R') \<and> registry_inv R' \<and> fsmap R' = (fsmap R)(fs_key R fs := None)"
proof -
  have inv: "fs_list_initialized R" "dlist (rlinks R) FsHead (map FsNode (registered R))" "distinct (map (fs_key R) (registered R))"
    using assms(1) by (simp_all add: registry_inv_def)
  have fs: "fs \<in> set (registered R)" "fs \<noteq> 0" using fsmap_iff [OF inv(3)] assms by (auto simp: registry_inv_def fs_ok_def)
  then obtain ys zs where yz: "registered R = ys @ fs # zs" using split_list by fast
  define R' where "R' = upd_rlinks (list_del (FsNode fs)) R"
  have "dlist (rlinks R') FsHead (map FsNode (ys @ zs))"
    using dlist_list_del [of "rlinks R" FsHead "map FsNode ys" "FsNode fs" "map FsNode zs"] inv(2) yz by (simp add: R'_def upd_rlinks_def)
  moreover have "\<forall>x \<in> set (ys @ zs). fs_ok R x" "distinct (map (fs_key R) (ys @ zs))" using assms(1) inv(3) yz by (auto simp: registry_inv_def)
  ultimately have R': "registry_inv R'" "registered R' = ys @ zs" "fs_key R' = fs_key R"
    using registry_step [OF assms(1), of R' "ys @ zs"] inv by (simp_all add: R'_def upd_rlinks_def)
  have other: "fs_key R x \<noteq> fs_key R fs" if "x \<in> set (ys @ zs)" for x
    using inv(3) imageI [OF that, of "fs_key R"] unfolding yz by auto
  have "fsmap R' k = Some x \<longleftrightarrow> ((fsmap R)(fs_key R fs := None)) k = Some x" for k x
    using other [of x] fsmap_iff [of R' k x] fsmap_iff [OF inv(3), of k x] R' inv(3) yz by (auto simp: registry_inv_def)
  then have "fsmap R' = (fsmap R)(fs_key R fs := None)" by (intro ext) (metis option.exhaust)
  with R' fs(2) show ?thesis by (simp add: unregister_filesystem_def R'_def)
qed

section \<open>Theorems\<close>

definition find_type :: "u8 list \<Rightarrow> registry \<Rightarrow> (u32 option \<times> registry) option" where
  "find_type n R = do { (fs, R) \<leftarrow> get_fs_type (Some (n @ [0])) R; Some (if fs = 0 then None else Some fs, R) }"

definition register :: "u32 \<Rightarrow> registry \<Rightarrow> registry option" where
  "register fs R = do { (r, R) \<leftarrow> register_filesystem fs R; if r = 0 then Some R else None }"

lemma get_fs_type_ok:
  assumes "registry_inv R" "0 \<notin> set n"
  shows "get_fs_type (Some (n @ [0])) R = Some (case fsmap R n of None \<Rightarrow> 0 | Some fs \<Rightarrow> fs, R)"
  using find_fs_ok [OF assms(1), of "n @ [0]"] assms by (simp add: get_fs_type_def init_fs_registry_def registry_inv_def)

interpretation reg: keyed_store registry_inv fsmap fs_key "\<lambda>n. 0 \<notin> set n" unregistered find_type register "\<lambda>fs R. Some (snd (unregister_filesystem fs R))"
proof
  fix R and n :: "u8 list" assume R: "registry_inv R" and n: "0 \<notin> set n"
  have "fs \<noteq> 0" if "fsmap R n = Some fs" for fs
    using fsmap_iff [of R n fs] that R by (auto simp: registry_inv_def fs_ok_def)
  then show "\<exists>R'. find_type n R = Some (fsmap R n, R') \<and> registry_inv R' \<and> fsmap R' = fsmap R"
    using get_fs_type_ok [OF R n] R by (cases "fsmap R n") (simp_all add: find_type_def)
next
  fix R fs assume "registry_inv R" "unregistered R fs" "fsmap R (fs_key R fs) = None"
  from register_ok [OF this]
  show "\<exists>R'. register fs R = Some R' \<and> registry_inv R' \<and> fsmap R' = (fsmap R)(fs_key R fs \<mapsto> fs) \<and> fs_key R' fs = fs_key R fs"
    by (auto simp: register_def)
next
  fix R fs assume "registry_inv R" "fsmap R (fs_key R fs) = Some fs"
  from unregister_ok [OF this]
  show "\<exists>R'. Some (snd (unregister_filesystem fs R)) = Some R' \<and> registry_inv R' \<and> fsmap R' = (fsmap R)(fs_key R fs := None)" by auto
qed

text \<open>C39: the registry of file system types is a map from names to types.  A type is registered exactly if no type of the same name is:
  then \<open>get_fs_type\<close> returns it for its name and the other types as before, and unregistering it undoes the registration;
  otherwise the call returns \<open>-1\<close> and nothing changes.\<close>

theorem registry_correct:
  assumes "registry_inv R" and "unregistered R fs"
  shows "if fsmap R (fs_key R fs) = None
    then \<exists>R'. register_filesystem fs R = Some (0, R') \<and> registry_inv R'
      \<and> (\<forall>n. 0 \<notin> set n \<longrightarrow> get_fs_type (Some (n @ [0])) R' =
          Some (if n = fs_key R fs then fs else case fsmap R n of None \<Rightarrow> 0 | Some x \<Rightarrow> x, R'))
      \<and> registry_inv (snd (unregister_filesystem fs R')) \<and> fsmap (snd (unregister_filesystem fs R')) = fsmap R
    else register_filesystem fs R = Some (- 1, R)"
proof (cases "fsmap R (fs_key R fs)")
  case None
  obtain R' where R': "register_filesystem fs R = Some (0, R')" "registry_inv R'" "fsmap R' = (fsmap R)(fs_key R fs \<mapsto> fs)"
    using register_ok [OF assms None] by blast
  moreover have "registry_inv (snd (unregister_filesystem fs R')) \<and> fsmap (snd (unregister_filesystem fs R')) = fsmap R"
    using reg.ins_del [OF assms None] R'(1) by (auto simp: register_def)
  ultimately show ?thesis using None get_fs_type_ok [OF R'(2)] by auto
next
  case (Some x)
  obtain n where n: "fs \<noteq> 0" "fs_name R fs = Some n" "0 \<in> set n" "fs_key R fs = cstr n"
    using assms(2) by (auto simp: unregistered_def fs_ok_def fs_key_def)
  have "x \<noteq> 0" using fsmap_iff [of R "fs_key R fs" x] Some assms(1) by (auto simp: registry_inv_def fs_ok_def)
  then show ?thesis using n Some assms(1) find_fs_ok [OF assms(1) n(3)]
    by (simp add: register_filesystem_def init_fs_registry_def registry_inv_def)
qed

definition sample_registry :: registry where
  "sample_registry = \<lparr>fs_name = \<lambda>_. Some [101, 120, 116, 50, 0], rlinks = INIT_LIST_HEAD FsHead \<lparr>next_of = \<lambda>_. RNULL, prev_of = \<lambda>_. RNULL\<rparr>,
     fs_list_initialized = True, super_cache = 0,
     supers = \<lambda>_. \<lparr>s_dev = 0, s_blocksize = 0, s_dirt = 0, s_op = 0, sb_flags = 0, sb_magic = 0, s_root = 0, s_count = 1, s_fs_info = 0\<rparr>, rslab = sample_busy\<rparr>"

theorem registry_correct_witness:
  "\<exists>R'. register_filesystem 0x100 sample_registry = Some (0, R') \<and> get_fs_type (Some [101, 120, 116, 50, 0]) R' = Some (0x100, R')"
proof -
  have d: "dlist (rlinks sample_registry) FsHead (map FsNode [])" by (simp add: sample_registry_def dlist_init)
  note r = registered_dlist [OF d]
  have k: "fs_key sample_registry fs = [101, 120, 116, 50]" for fs by (simp add: fs_key_def sample_registry_def cstr_def)
  have "registry_inv sample_registry" "unregistered sample_registry 0x100"
    using d by (simp_all add: registry_inv_def unregistered_def fs_ok_def r) (simp_all add: sample_registry_def)
  from registry_correct [OF this] obtain R' where R': "register_filesystem 0x100 sample_registry = Some (0, R')"
    "\<forall>n. 0 \<notin> set n \<longrightarrow> get_fs_type (Some (n @ [0])) R' = Some (if n = [101, 120, 116, 50] then 0x100 else case fsmap sample_registry n of None \<Rightarrow> 0 | Some x \<Rightarrow> x, R')"
    by (auto simp: fsmap_def r k)
  from spec [OF R'(2), of "[101, 120, 116, 50]"] R'(1) show ?thesis by simp
qed

end
