(* ===== verification/Files.thy ===== *)
theory Files
  imports Dcache
begin

text \<open>
  Open files and the descriptor tables of processes (\<^verbatim>\<open>fs/ext2/file.c\<close>, \<^verbatim>\<open>include/file.h\<close>), and the open, release and seek
  operations of ext2 files (\<^verbatim>\<open>fs/ext2/ext2_file.c\<close>).

  A file and a table are addressed by the words that the slab allocator returned for them.  The \<^verbatim>\<open>release\<close> operation that a table
  of file operations holds is the parameter \<open>rel\<close>.  Messages are dropped.
\<close>

section \<open>State\<close>

definition MAX_FILES :: nat where "MAX_FILES = 256"
definition sizeof_file :: u32 where "sizeof_file = 44"
definition sizeof_files_struct :: u32 where "sizeof_files_struct = 1032"

record filp =
  f_dentry :: u32
  f_op :: u32
  f_count :: u32
  f_flags :: u32
  f_mode :: u16
  f_pos :: "64 word"
  f_uid :: u32
  f_gid :: u32

record files_struct =
  fd_array :: "u32 list"
  next_fd :: int
  fs_count :: u32

record fstate =
  dst :: dstate
  filps :: "u32 \<Rightarrow> filp"
  flinks :: "u32 list_heap"
  tables :: "u32 \<Rightarrow> files_struct"
  file_cache :: u32
  inode_fop :: "u32 \<Rightarrow> u32"
  inode_size :: "u32 \<Rightarrow> u32"

definition upd_filp :: "u32 \<Rightarrow> (filp \<Rightarrow> filp) \<Rightarrow> fstate \<Rightarrow> fstate" where
  "upd_filp p f F = F\<lparr>filps := (filps F)(p := f (filps F p))\<rparr>"

definition upd_table :: "u32 \<Rightarrow> (files_struct \<Rightarrow> files_struct) \<Rightarrow> fstate \<Rightarrow> fstate" where
  "upd_table p f F = F\<lparr>tables := (tables F)(p := f (tables F p))\<rparr>"

abbreviation fslab :: "fstate \<Rightarrow> slab_state" where
  "fslab F \<equiv> dslab (dst F)"

definition upd_fslab :: "slab_state \<Rightarrow> fstate \<Rightarrow> fstate" where
  "upd_fslab s F = F\<lparr>dst := (dst F)\<lparr>dslab := s\<rparr>\<rparr>"

section \<open>Files\<close>

definition file_cache_init :: "fstate \<Rightarrow> fstate option" where
  "file_cache_init F = do {
     (c, slab) \<leftarrow> kmem_cache_create ''file'' sizeof_file KMALLOC_MINALIGN SLAB_HWCACHE_ALIGN 0 (fslab F);
     Some ((upd_fslab slab F)\<lparr>file_cache := c\<rparr>)
   }"

definition fput :: "(u32 \<Rightarrow> (u32 \<Rightarrow> u32 \<Rightarrow> fstate \<Rightarrow> fstate option) option) \<Rightarrow> u32 \<Rightarrow> fstate \<Rightarrow> fstate option" where
  "fput rel p F =
     (if p = 0 then Some F
      else let F = upd_filp p (\<lambda>f. f\<lparr>f_count := f_count f - 1\<rparr>) F
           in if f_count (filps F p) = 0
              then do {
                let f = filps F p;
                F \<leftarrow> (if f_op f \<noteq> 0 \<and> f_dentry f \<noteq> 0
                     then case rel (f_op f) of
                         Some release \<Rightarrow> release (d_inode (dentries (dst F) (f_dentry f))) p F
                       | None \<Rightarrow> Some F
                     else Some F);
                F \<leftarrow> (if f_dentry (filps F p) \<noteq> 0
                     then do { D \<leftarrow> dput (f_dentry (filps F p)) (dst F); Some (F\<lparr>dst := D\<rparr>) }
                     else Some F);
                slab \<leftarrow> kmem_cache_free 2 (file_cache F) p (fslab F);
                Some (upd_fslab slab F)
              }
              else Some F)"

definition get_empty_filp :: "fstate \<Rightarrow> (u32 \<times> fstate) option" where
  "get_empty_filp F = do {
     F \<leftarrow> (if file_cache F = 0 then file_cache_init F else Some F);
     (p, slab) \<leftarrow> kmem_cache_alloc 2 (file_cache F) 0 (fslab F);
     let F = upd_fslab slab F;
     if p = 0 then Some (0, F)
     else do {
       let F = F\<lparr>flinks := INIT_LIST_HEAD p (flinks F)\<rparr>;
       Some (p, upd_filp p (\<lambda>_. \<lparr>f_dentry = 0, f_op = 0, f_count = 1, f_flags = 0, f_mode = 0, f_pos = 0, f_uid = 0, f_gid = 0\<rparr>) F)
     }
   }"

definition generic_file_open :: "u32 \<Rightarrow> u32 \<Rightarrow> fstate \<Rightarrow> int \<times> fstate" where
  "generic_file_open inode p F =
     (if inode = 0 \<or> p = 0 then (- 1, F) else (0, upd_filp p (\<lambda>f. f\<lparr>f_op := inode_fop F inode\<rparr>) F))"

definition generic_file_release :: "u32 \<Rightarrow> u32 \<Rightarrow> int" where
  "generic_file_release inode p = 0"

section \<open>Descriptor tables\<close>

definition init_files :: "fstate \<Rightarrow> (u32 \<times> fstate) option" where
  "init_files F = do {
     F \<leftarrow> (if file_cache F = 0 then file_cache_init F else Some F);
     (t, slab) \<leftarrow> kmalloc sizeof_files_struct 0 (fslab F);
     let F = upd_fslab slab F;
     if t = 0 then Some (0, F)
     else Some (t, upd_table t (\<lambda>_. \<lparr>fd_array = replicate MAX_FILES 0, next_fd = 0, fs_count = 1\<rparr>) F)
   }"

primrec close_fds :: "(u32 \<Rightarrow> (u32 \<Rightarrow> u32 \<Rightarrow> fstate \<Rightarrow> fstate option) option) \<Rightarrow> u32 \<Rightarrow> nat \<Rightarrow> fstate \<Rightarrow> fstate option" where
  "close_fds rel files 0 F = Some F"
| "close_fds rel files (Suc i) F = do {
     F \<leftarrow> close_fds rel files i F;
     if fd_array (tables F files) ! i \<noteq> 0 then fput rel (fd_array (tables F files) ! i) F else Some F
   }"

definition destroy_files :: "(u32 \<Rightarrow> (u32 \<Rightarrow> u32 \<Rightarrow> fstate \<Rightarrow> fstate option) option) \<Rightarrow> u32 \<Rightarrow> fstate \<Rightarrow> fstate option" where
  "destroy_files rel files F =
     (if files = 0 then Some F
      else let F = upd_table files (\<lambda>t. t\<lparr>fs_count := fs_count t - 1\<rparr>) F
           in if fs_count (tables F files) = 0
              then do {
                F \<leftarrow> close_fds rel files MAX_FILES F;
                slab \<leftarrow> kfree files (fslab F);
                Some (upd_fslab slab F)
              }
              else Some F)"

definition get_unused_fd :: "u32 \<Rightarrow> fstate \<Rightarrow> int" where
  "get_unused_fd files F =
     (if files = 0 then - 1
      else case List.find (\<lambda>fd. fd_array (tables F files) ! fd = 0) [0..<MAX_FILES] of Some fd \<Rightarrow> int fd | None \<Rightarrow> - 1)"

definition fd_install :: "u32 \<Rightarrow> int \<Rightarrow> u32 \<Rightarrow> fstate \<Rightarrow> fstate" where
  "fd_install files fd p F =
     (if files = 0 \<or> fd < 0 \<or> fd \<ge> int MAX_FILES \<or> p = 0 then F
      else upd_table files (\<lambda>t. t\<lparr>fd_array := (fd_array t)[nat fd := p]\<rparr>) F)"

definition fget :: "u32 \<Rightarrow> int \<Rightarrow> fstate \<Rightarrow> u32 \<times> fstate" where
  "fget files fd F =
     (if files = 0 \<or> fd < 0 \<or> fd \<ge> int MAX_FILES then (0, F)
      else let p = fd_array (tables F files) ! nat fd
           in (p, if p \<noteq> 0 then upd_filp p (\<lambda>f. f\<lparr>f_count := f_count f + 1\<rparr>) F else F))"

section \<open>ext2 files\<close>

text \<open>The address of \<^verbatim>\<open>ext2_file_operations\<close> is a parameter; offsets are signed 64-bit numbers.\<close>

definition ext2_file_open :: "u32 \<Rightarrow> u32 \<Rightarrow> u32 \<Rightarrow> fstate \<Rightarrow> int \<times> fstate" where
  "ext2_file_open ops inode p F = (if inode = 0 \<or> p = 0 then (- 1, F) else (0, upd_filp p (\<lambda>f. f\<lparr>f_op := ops\<rparr>) F))"

definition ext2_file_release :: "u32 \<Rightarrow> u32 \<Rightarrow> int" where
  "ext2_file_release inode p = 0"

definition ext2_llseek :: "u32 \<Rightarrow> 64 word \<Rightarrow> int \<Rightarrow> fstate \<Rightarrow> 64 word \<times> fstate" where
  "ext2_llseek p offset whence F =
     (if p = 0 \<or> f_dentry (filps F p) = 0 \<or> d_inode (dentries (dst F) (f_dentry (filps F p))) = 0 then (- 1, F)
      else let inode = d_inode (dentries (dst F) (f_dentry (filps F p)));
               base = (if whence = 0 then Some 0 else if whence = 1 then Some (f_pos (filps F p))
                       else if whence = 2 then Some (ucast (inode_size F inode)) else None)
           in (case base of
                 None \<Rightarrow> (- 1, F)
               | Some b \<Rightarrow> if sint (b + offset) < 0 then (- 1, F) else (b + offset, upd_filp p (\<lambda>f. f\<lparr>f_pos := b + offset\<rparr>) F)))"

definition init_file_entry :: "u32 \<Rightarrow> fstate \<Rightarrow> fstate" where
  "init_file_entry p F = upd_filp p (\<lambda>f. f\<lparr>f_count := f_count f + 1, f_pos := 0\<rparr>) F"

section \<open>Theorems\<close>

lemma find_least:
  assumes "List.find P [0..<n] = Some i"
  shows "i < n" "P i" "\<And>j. j < i \<Longrightarrow> \<not> P j"
  using assms by (auto simp: find_Some_iff)

text \<open>C40: descriptors.  \<open>get_unused_fd\<close> returns the lowest descriptor that is not in use, or \<open>-1\<close> when all are.  After \<open>fd_install\<close> of a
  file there \<open>fget\<close> returns that file for it and for every other descriptor the file it had; \<open>fget\<close> takes a reference, and giving
  the reference back by \<open>fput\<close> restores the state.\<close>

theorem descriptor_table_correct:
  assumes "files \<noteq> 0" and "length (fd_array (tables F files)) = MAX_FILES" and "p \<noteq> 0" and "fd = get_unused_fd files F"
    and "F' = fd_install files fd p F" and "f_count (filps F p) \<noteq> 0"
  shows "if 0 \<notin> set (fd_array (tables F files)) then fd = - 1
    else 0 \<le> fd \<and> fd < int MAX_FILES \<and> fd_array (tables F files) ! nat fd = 0 \<and> (\<forall>i < nat fd. fd_array (tables F files) ! i \<noteq> 0)
      \<and> fst (fget files fd F') = p \<and> f_count (filps (snd (fget files fd F')) p) = f_count (filps F p) + 1
      \<and> fput rel p (snd (fget files fd F')) = Some F'
      \<and> (\<forall>i. 0 \<le> i \<longrightarrow> i < int MAX_FILES \<longrightarrow> i \<noteq> fd \<longrightarrow> fst (fget files i F') = fd_array (tables F files) ! nat i)"
proof (cases "List.find (\<lambda>fd. fd_array (tables F files) ! fd = 0) [0..<MAX_FILES]")
  case None
  then have "0 \<notin> set (fd_array (tables F files))" using assms(2) by (auto simp: find_None_iff in_set_conv_nth)
  moreover have "fd = - 1" using None assms(1,4) by (simp add: get_unused_fd_def)
  ultimately show ?thesis by simp
next
  case (Some n)
  note n = find_least [OF Some]
  have fd: "fd = int n" using Some assms(1,4) by (simp add: get_unused_fd_def)
  have used: "\<not> 0 \<notin> set (fd_array (tables F files))" using n(1,2) assms(2) nth_mem [of n "fd_array (tables F files)"] by auto
  have F': "F' = upd_table files (\<lambda>t. t\<lparr>fd_array := (fd_array t)[n := p]\<rparr>) F"
    using assms(1,3,5) n(1) by (simp add: fd_install_def fd)
  have t: "fd_array (tables F' files) = (fd_array (tables F files))[n := p]" "filps F' = filps F" by (simp_all add: F' upd_table_def)
  have g: "fget files fd F' = (p, upd_filp p (\<lambda>f. f\<lparr>f_count := f_count f + 1\<rparr>) F')"
    using assms(1-3) n(1) t by (simp add: fget_def fd Let_def)
  have "(upd_filp p (\<lambda>f. f\<lparr>f_count := f_count f - 1\<rparr>) (upd_filp p (\<lambda>f. f\<lparr>f_count := f_count f + 1\<rparr>) F')) = F'"
    by (simp add: upd_filp_def)
  then have "fput rel p (snd (fget files fd F')) = Some F'" using assms(3,6) t(2) by (simp add: g fput_def Let_def)
  moreover have "fst (fget files i F') = fd_array (tables F files) ! nat i" if "0 \<le> i" "i < int MAX_FILES" "i \<noteq> fd" for i
    using that assms(1) t(1) by (auto simp: fget_def Let_def fd)
  ultimately show ?thesis using used fd n g t(2) by (simp add: upd_filp_def)
qed

definition sample_files :: fstate where
  "sample_files = \<lparr>dst = sample_dcache, filps = \<lambda>_. \<lparr>f_dentry = 0, f_op = 0, f_count = 1, f_flags = 0, f_mode = 0, f_pos = 0, f_uid = 0, f_gid = 0\<rparr>,
     flinks = \<lparr>next_of = \<lambda>_. 0, prev_of = \<lambda>_. 0\<rparr>, tables = \<lambda>_. \<lparr>fd_array = [5, 7] @ replicate 254 0, next_fd = 0, fs_count = 1\<rparr>, file_cache = 0x1000,
     inode_fop = \<lambda>_. 0, inode_size = \<lambda>_. 0\<rparr>"

theorem descriptor_table_correct_witness:
  "get_unused_fd 0x40 sample_files = 2 \<and> fst (fget 0x40 2 (fd_install 0x40 2 9 sample_files)) = 9"
proof -
  have t: "fd_array (tables sample_files 0x40) = [5, 7] @ replicate 254 0" by (simp add: sample_files_def)
  have fd: "get_unused_fd 0x40 sample_files = 2" unfolding get_unused_fd_def t MAX_FILES_def by (simp add: upt_rec)
  have "length (fd_array (tables sample_files 0x40)) = MAX_FILES" "f_count (filps sample_files 9) \<noteq> 0" "0 \<in> set (fd_array (tables sample_files 0x40))"
    by (simp_all add: t MAX_FILES_def) (simp add: sample_files_def)
  then show ?thesis using descriptor_table_correct [of "0x40" sample_files 9 2 "fd_install 0x40 2 9 sample_files" "\<lambda>_. None"] fd by simp
qed

text \<open>A file that \<open>get_empty_filp\<close> allocates is given back to the slab allocator by the last \<open>fput\<close>: the objects in use are the same
  as before.\<close>

theorem filp_released:
  assumes "cache_ok k (file_cache F) (fslab F) A H G Fp" and "file_cache F \<noteq> 0" and "get_empty_filp F = Some (p, F1)" and "p \<noteq> 0"
    and "free_objects (caches (fslab F1) (file_cache F)) + 1 \<le> free_limit (caches (fslab F1) (file_cache F))"
  shows "\<exists>F2 H' G' Fp'. fput rel p F1 = Some F2 \<and> cache_ok k (file_cache F) (fslab F2) A H' G' Fp'
    \<and> used_objs (file_cache F) (fslab F2) H' G' = used_objs (file_cache F) (fslab F) H G"
proof -
  let ?c = "file_cache F"
  obtain slab H1 G1 Fp1 where a: "kmem_cache_alloc 2 ?c 0 (fslab F) = Some (p, slab)" "cache_ok k ?c slab A H1 G1 Fp1"
    "p \<notin> used_objs ?c (fslab F) H G" "used_objs ?c slab H1 G1 = insert p (used_objs ?c (fslab F) H G)"
    using cache_alloc_ok [OF assms(1), of 1 0] assms(2-4) by (auto simp: get_empty_filp_def numeral_2_eq_2 Let_def split: bind_splits if_splits)
  have F1: "fslab F1 = slab" "file_cache F1 = ?c" "f_count (filps F1 p) = 1" "f_op (filps F1 p) = 0" "f_dentry (filps F1 p) = 0"
    using assms(2-4) a(1) by (auto simp: get_empty_filp_def upd_filp_def upd_fslab_def Let_def)
  have "p \<in> used_objs ?c slab H1 G1" using a(4) by simp
  from cache_free_ok [OF a(2) this, of 1] assms(5) F1(1) obtain slab2 H2 G2 where
    f: "kmem_cache_free 2 ?c p slab = Some slab2" "cache_ok k ?c slab2 A H2 G2 Fp1" "used_objs ?c slab2 H2 G2 = used_objs ?c (fslab F) H G"
    using a(3,4) by (auto simp: numeral_2_eq_2)
  have "fput rel p F1 = Some (upd_fslab slab2 (upd_filp p (\<lambda>f. f\<lparr>f_count := f_count f - 1\<rparr>) F1))"
    using assms(4) F1 f(1) by (simp add: fput_def Let_def upd_filp_def)
  with f(2,3) show ?thesis by (auto simp: upd_fslab_def)
qed

end
