(* ===== verification/Ports.thy ===== *)
theory Ports
  imports Prelude
begin

text \<open>
  Port input and output (\<^verbatim>\<open>kernel/system.c\<close>, \<^verbatim>\<open>include/io_access.h\<close>).

  The machine outside the processor is a parameter: a state type \<open>'d\<close> and, in an \<open>io_ports\<close> record, the
  effect of the four \<^verbatim>\<open>in\<close> and \<^verbatim>\<open>out\<close> instructions on it.  The C wrappers are defined over
  them.  A buffer is the list of its bytes; \<^verbatim>\<open>rep insw\<close> and \<^verbatim>\<open>rep outsw\<close> move it as little-endian words.
\<close>

record 'd io_ports =
  in8 :: "u16 \<Rightarrow> 'd \<Rightarrow> u8 \<times> 'd"
  out8 :: "u16 \<Rightarrow> u8 \<Rightarrow> 'd \<Rightarrow> 'd"
  in16 :: "u16 \<Rightarrow> 'd \<Rightarrow> u16 \<times> 'd"
  out16 :: "u16 \<Rightarrow> u16 \<Rightarrow> 'd \<Rightarrow> 'd"

definition port_byte_in :: "'d io_ports \<Rightarrow> u16 \<Rightarrow> 'd \<Rightarrow> u8 \<times> 'd" where
  "port_byte_in io port d = in8 io port d"

definition port_byte_out :: "'d io_ports \<Rightarrow> u16 \<Rightarrow> u8 \<Rightarrow> 'd \<Rightarrow> 'd" where
  "port_byte_out io port data d = out8 io port data d"

definition port_word_in :: "'d io_ports \<Rightarrow> u16 \<Rightarrow> 'd \<Rightarrow> u16 \<times> 'd" where
  "port_word_in io port d = in16 io port d"

definition port_word_out :: "'d io_ports \<Rightarrow> u16 \<Rightarrow> u16 \<Rightarrow> 'd \<Rightarrow> 'd" where
  "port_word_out io port data d = out16 io port data d"

definition word_of_bytes :: "u8 \<Rightarrow> u8 \<Rightarrow> u16" where
  "word_of_bytes lo hi = ucast lo OR push_bit 8 (ucast hi)"

definition bytes_of_word :: "u16 \<Rightarrow> u8 list" where
  "bytes_of_word w = [ucast w, ucast (drop_bit 8 w)]"

fun port_multiword_out :: "'d io_ports \<Rightarrow> u16 \<Rightarrow> u8 list \<Rightarrow> nat \<Rightarrow> 'd \<Rightarrow> 'd option" where
  "port_multiword_out io port data 0 d = Some d"
| "port_multiword_out io port (lo # hi # data) (Suc n) d =
     port_multiword_out io port data n (out16 io port (word_of_bytes lo hi) d)"
| "port_multiword_out io port data (Suc n) d = None"

primrec port_multiword_in :: "'d io_ports \<Rightarrow> u16 \<Rightarrow> nat \<Rightarrow> 'd \<Rightarrow> u8 list \<times> 'd" where
  "port_multiword_in io port 0 d = ([], d)"
| "port_multiword_in io port (Suc n) d =
     (let (w, d) = in16 io port d;
          (data, d) = port_multiword_in io port n d
      in (bytes_of_word w @ data, d))"

definition outb :: "'d io_ports \<Rightarrow> u16 \<Rightarrow> u8 \<Rightarrow> 'd \<Rightarrow> 'd" where
  "outb io port val d = out8 io port val d"

definition inb :: "'d io_ports \<Rightarrow> u16 \<Rightarrow> 'd \<Rightarrow> u8 \<times> 'd" where
  "inb io port d = in8 io port d"

definition io_wait :: "'d io_ports \<Rightarrow> 'd \<Rightarrow> 'd" where
  "io_wait io d = outb io 0x80 0 d"

lemma unat_Suc_u32: "unat l + 1 < 2 ^ 32 \<Longrightarrow> unat (l + 1) = unat l + 1" for l :: u32
  by (subst unat_plus) simp_all

lemma bytes_of_word_of_bytes [simp]: "bytes_of_word (word_of_bytes lo hi) = [lo, hi]"
proof -
  have "ucast (ucast lo OR push_bit 8 (ucast hi) :: u16) = lo"
    by (rule bit_word_eqI) (auto simp: bit_simps)
  moreover have "ucast (drop_bit 8 (ucast lo OR push_bit 8 (ucast hi) :: u16)) = hi"
    by (rule bit_word_eqI) (auto simp: bit_simps dest: bit_imp_le_length)
  ultimately show ?thesis by (simp add: bytes_of_word_def word_of_bytes_def)
qed

lemma length_multiword_in [simp]: "length (fst (port_multiword_in io port n d)) = 2 * n"
  by (induction n arbitrary: d) (simp_all add: bytes_of_word_def split_beta Let_def)

end
