(* ===== verification/Disk.thy ===== *)
theory Disk
  imports Ports
begin

text \<open>
  The ATA disk driver (\<^verbatim>\<open>drivers/disk.c\<close>) as a program over the ports of an arbitrary machine.

  The polling loops run until the drive answers and are \<open>None\<close> when it never does.  Enabling and disabling
  interrupts has no effect on this state and is left out, like the messages.

  What the driver relies on is the contract \<open>ata_drive\<close>: the programmed-input/output protocol of an ATA drive
  with 28-bit addresses.  \<open>pio_io\<close> is a drive that follows it.  The locale \<open>block_device\<close> is what the
  clients of the driver see: sectors that are read as they were written.
\<close>

section \<open>The driver\<close>

definition ATA_DATA_REGISTER :: u16 where "ATA_DATA_REGISTER = 0x1f0"
definition ATA_SECTOR_COUNT_REGISTER :: u16 where "ATA_SECTOR_COUNT_REGISTER = 0x1f2"
definition ATA_LBA_LOW_REGISTER :: u16 where "ATA_LBA_LOW_REGISTER = 0x1f3"
definition ATA_LBA_MID_REGISTER :: u16 where "ATA_LBA_MID_REGISTER = 0x1f4"
definition ATA_LBA_HIGH_REGISTER :: u16 where "ATA_LBA_HIGH_REGISTER = 0x1f5"
definition ATA_DRIVE_HEAD_REGISTER :: u16 where "ATA_DRIVE_HEAD_REGISTER = 0x1f6"
definition ATA_STATUS_REGISTER :: u16 where "ATA_STATUS_REGISTER = 0x1f7"
definition ATA_COMMAND_REGISTER :: u16 where "ATA_COMMAND_REGISTER = 0x1f7"
definition ATA_ALT_STATUS_REGISTER :: u16 where "ATA_ALT_STATUS_REGISTER = 0x3f6"
definition ATA_SECTOR_SIZE :: nat where "ATA_SECTOR_SIZE = 512"
definition ATA_STATUS_BUSY :: u8 where "ATA_STATUS_BUSY = push_bit 7 1"
definition ATA_STATUS_READY :: u8 where "ATA_STATUS_READY = push_bit 6 1"
definition ATA_STATUS_DATA_TRANSFER_REQUESTED :: u8 where "ATA_STATUS_DATA_TRANSFER_REQUESTED = push_bit 3 1"
definition ATA_READ_WITH_RETRY :: u8 where "ATA_READ_WITH_RETRY = 0x20"
definition ATA_WRITE_WITH_RETRY :: u8 where "ATA_WRITE_WITH_RETRY = 0x30"
definition ATA_CACHE_FLUSH :: u8 where "ATA_CACHE_FLUSH = 0xe7"

lemmas ata_consts = ATA_DATA_REGISTER_def ATA_SECTOR_COUNT_REGISTER_def ATA_LBA_LOW_REGISTER_def
  ATA_LBA_MID_REGISTER_def ATA_LBA_HIGH_REGISTER_def ATA_DRIVE_HEAD_REGISTER_def ATA_STATUS_REGISTER_def
  ATA_COMMAND_REGISTER_def ATA_ALT_STATUS_REGISTER_def ATA_READ_WITH_RETRY_def ATA_WRITE_WITH_RETRY_def
  ATA_CACHE_FLUSH_def

partial_function (option) ata_wait_until_not_busy :: "'d io_ports \<Rightarrow> 'd \<Rightarrow> 'd option" where
  "ata_wait_until_not_busy io d =
     (let (status, d) = port_byte_in io ATA_STATUS_REGISTER d
      in if status AND ATA_STATUS_BUSY \<noteq> 0 then ata_wait_until_not_busy io d else Some d)"

partial_function (option) ata_wait_until_status :: "'d io_ports \<Rightarrow> u8 \<Rightarrow> 'd \<Rightarrow> 'd option" where
  "ata_wait_until_status io desired_status d =
     (let (status, d) = port_byte_in io ATA_STATUS_REGISTER d
      in if status AND desired_status = 0 then ata_wait_until_status io desired_status d else Some d)"

declare ata_wait_until_not_busy.simps [code] ata_wait_until_status.simps [code]

definition waste_cycle_time :: "'d io_ports \<Rightarrow> 'd \<Rightarrow> 'd" where
  "waste_cycle_time io d = snd (port_byte_in io ATA_ALT_STATUS_REGISTER d)"

definition disk_write_sector :: "'d io_ports \<Rightarrow> u32 \<Rightarrow> u8 list \<Rightarrow> u16 \<Rightarrow> 'd \<Rightarrow> 'd option" where
  "disk_write_sector io lba in_buf nchar d =
     (if unat nchar > ATA_SECTOR_SIZE then Some d
      else if unat nchar > length in_buf then None
      else do {
        let buf = take (unat nchar) in_buf @ replicate (ATA_SECTOR_SIZE - unat nchar) 0;
        d \<leftarrow> ata_wait_until_status io ATA_STATUS_READY d;
        let d = port_byte_out io ATA_DRIVE_HEAD_REGISTER 0xe0 d;
        let d = port_byte_out io ATA_SECTOR_COUNT_REGISTER 1 d;
        let d = port_byte_out io ATA_LBA_LOW_REGISTER (ucast lba AND 0xff) d;
        let d = port_byte_out io ATA_LBA_MID_REGISTER (ucast (drop_bit 8 lba) AND 0xff) d;
        let d = port_byte_out io ATA_LBA_HIGH_REGISTER (ucast (drop_bit 16 lba) AND 0xff) d;
        let d = port_byte_out io ATA_COMMAND_REGISTER ATA_WRITE_WITH_RETRY d;
        let d = waste_cycle_time io d;
        d \<leftarrow> ata_wait_until_status io ATA_STATUS_DATA_TRANSFER_REQUESTED d;
        d \<leftarrow> port_multiword_out io ATA_DATA_REGISTER buf (ATA_SECTOR_SIZE div 2) d;
        let d = port_byte_out io ATA_COMMAND_REGISTER ATA_CACHE_FLUSH d;
        d \<leftarrow> ata_wait_until_not_busy io d;
        let (status, d) = port_byte_in io ATA_STATUS_REGISTER d;
        Some d
      })"

function disk_write_from :: "'d io_ports \<Rightarrow> u32 \<Rightarrow> u8 list \<Rightarrow> u32 \<Rightarrow> u32 \<Rightarrow> 'd \<Rightarrow> 'd option" where
  "disk_write_from io c_lba c_buf chars_written nchar d =
     (if chars_written < nchar then do {
        let chars_to_write = (if nchar - chars_written < 512 then nchar - chars_written else 512);
        d \<leftarrow> disk_write_sector io c_lba c_buf (ucast chars_to_write) d;
        disk_write_from io (c_lba + 1) (drop ATA_SECTOR_SIZE c_buf) (chars_written + chars_to_write) nchar d
      } else Some d)"
  by pat_completeness auto

definition disk_write :: "'d io_ports \<Rightarrow> u32 \<Rightarrow> u8 list \<Rightarrow> u32 \<Rightarrow> 'd \<Rightarrow> 'd option" where
  "disk_write io lba buf nchar d = disk_write_from io lba buf 0 nchar d"

primrec read_sectors :: "'d io_ports \<Rightarrow> nat \<Rightarrow> 'd \<Rightarrow> (u8 list \<times> 'd) option" where
  "read_sectors io 0 d = Some ([], d)"
| "read_sectors io (Suc n) d = do {
     d \<leftarrow> ata_wait_until_status io ATA_STATUS_DATA_TRANSFER_REQUESTED d;
     let (data, d) = port_multiword_in io ATA_DATA_REGISTER (ATA_SECTOR_SIZE div 2) d;
     (rest, d) \<leftarrow> read_sectors io n d;
     Some (data @ rest, d)
   }"

definition disk_read_internal :: "'d io_ports \<Rightarrow> u32 \<Rightarrow> u8 \<Rightarrow> 'd \<Rightarrow> (u8 list \<times> 'd) option" where
  "disk_read_internal io lba nsectors d = do {
     d \<leftarrow> ata_wait_until_status io ATA_STATUS_READY d;
     d \<leftarrow> ata_wait_until_not_busy io d;
     let lba_highest = ucast (drop_bit 24 lba AND 0xff);
     let d = port_byte_out io ATA_DRIVE_HEAD_REGISTER (0xe0 OR lba_highest) d;
     let d = port_byte_out io ATA_SECTOR_COUNT_REGISTER nsectors d;
     let d = port_byte_out io ATA_LBA_LOW_REGISTER (ucast (lba AND 0xff)) d;
     let d = port_byte_out io ATA_LBA_MID_REGISTER (ucast (drop_bit 8 lba AND 0xff)) d;
     let d = port_byte_out io ATA_LBA_HIGH_REGISTER (ucast (drop_bit 16 lba AND 0xff)) d;
     let d = port_byte_out io ATA_COMMAND_REGISTER ATA_READ_WITH_RETRY d;
     d \<leftarrow> ata_wait_until_not_busy io d;
     (data, d) \<leftarrow> read_sectors io (unat nsectors) d;
     d \<leftarrow> ata_wait_until_not_busy io d;
     let (status, d) = port_byte_in io ATA_STATUS_REGISTER d;
     Some (data, d)
   }"

definition disk_read_bootloader :: "'d io_ports \<Rightarrow> u32 \<Rightarrow> u8 \<Rightarrow> 'd \<Rightarrow> (u8 list \<times> 'd) option" where
  "disk_read_bootloader io lba chunk d = disk_read_internal io lba chunk d"

definition disk_read :: "'d io_ports \<Rightarrow> u32 \<Rightarrow> 'd \<Rightarrow> (u8 list \<times> 'd) option" where
  "disk_read io lba d = disk_read_internal io lba 1 d"

text \<open>\<^verbatim>\<open>test_disk\<close> prints the sector it read back; the model returns it.\<close>

definition test_disk :: "'d io_ports \<Rightarrow> 'd \<Rightarrow> (u8 list \<times> 'd) option" where
  "test_disk io d = do {
     let wr = map (\<lambda>c. of_nat (of_char c)) ''A1B2C3D4E5'' @ replicate (ATA_SECTOR_SIZE - 10) 0;
     d \<leftarrow> disk_write io 5 wr 10 d;
     disk_read io 5 d
   }"

lemma disk_chunk_less:
  fixes w n :: u32
  assumes "w < n"
  defines "c \<equiv> if n - w < 512 then n - w else 512"
  shows "unat (w + c) = unat w + unat c" and "unat c = min 512 (unat n - unat w)" and "0 < unat c"
proof -
  have wn: "unat w < unat n" using assms(1) by (simp add: word_less_nat_alt)
  have nw: "unat (n - w) = unat n - unat w" using assms(1) by (simp add: unat_sub)
  show c: "unat c = min 512 (unat n - unat w)"
    unfolding c_def using nw by (auto simp: word_less_nat_alt)
  show "0 < unat c" using c wn by simp
  have "unat w + unat c \<le> unat n" using c wn by simp
  also have "\<dots> < 2 ^ 32" using unsigned_less [of n, where 'a = nat] by simp
  finally show "unat (w + c) = unat w + unat c" by (intro unat_plus) simp
qed

termination disk_write_from
proof (relation "measure (\<lambda>(io, l, b, w, n, d). unat n - unat w)", simp)
  fix io :: "'d io_ports" and l w n :: u32 and b :: "u8 list" and d x c
  assume "w < n" and "c = (if n - w < 512 then n - w else 512)"
  with disk_chunk_less [of w n] show "((io, l + 1, drop ATA_SECTOR_SIZE b, w + c, n, x), io, l, b, w, n, d)
      \<in> measure (\<lambda>(io, l, b, w, n, d). unat n - unat w)"
    by (auto simp: word_less_nat_alt)
qed

declare disk_write_from.simps [simp del]

section \<open>The contract of the drive\<close>

datatype ata_phase = Idle | Reading u32 nat nat | Writing u32 "u8 list"

definition taskfile_lba :: "(u16 \<Rightarrow> u8) \<Rightarrow> u32" where
  "taskfile_lba r = ucast (r 0x1f3) OR push_bit 8 (ucast (r 0x1f4)) OR push_bit 16 (ucast (r 0x1f5))
     OR push_bit 24 (ucast (r 0x1f6 AND 0xf))"

text \<open>
  \<open>regs\<close> is the task file, \<open>sec\<close> the medium, \<open>busy\<close> the number of status reads before the drive is ready for
  the next step, and \<open>phase\<close> the transfer that is going on: \<open>Reading l n i\<close> has \<open>n\<close> sectors to deliver,
  of which sector \<open>l\<close> is the next one and \<open>i\<close> of its words are delivered; \<open>Writing l bs\<close> has received the
  bytes \<open>bs\<close> of sector \<open>l\<close>.
\<close>

locale ata_drive =
  fixes io :: "'d io_ports"
    and regs :: "'d \<Rightarrow> u16 \<Rightarrow> u8"
    and sec :: "'d \<Rightarrow> u32 \<Rightarrow> u8 list"
    and phase :: "'d \<Rightarrow> ata_phase"
    and busy :: "'d \<Rightarrow> nat"
  assumes sector_length: "length (sec d l) = 512"
    and status_busy: "busy d > 0 \<Longrightarrow> \<exists>d'. in8 io 0x1f7 d = (0x80, d') \<and> busy d' < busy d
        \<and> regs d' = regs d \<and> sec d' = sec d \<and> phase d' = phase d"
    and status_settled: "busy d = 0 \<Longrightarrow> \<exists>s d'. in8 io 0x1f7 d = (s, d') \<and> s AND 0x80 = 0 \<and> s AND 0x40 \<noteq> 0
        \<and> (s AND 0x08 = 0 \<longleftrightarrow> phase d = Idle)
        \<and> busy d' = 0 \<and> regs d' = regs d \<and> sec d' = sec d \<and> phase d' = phase d"
    and alt_status: "\<exists>s d'. in8 io 0x3f6 d = (s, d') \<and> regs d' = regs d \<and> sec d' = sec d \<and> phase d' = phase d"
    and set_register: "phase d = Idle \<Longrightarrow> busy d = 0 \<Longrightarrow> p \<in> {0x1f2, 0x1f3, 0x1f4, 0x1f5, 0x1f6} \<Longrightarrow>
        regs (out8 io p v d) = (regs d)(p := v) \<and> sec (out8 io p v d) = sec d
        \<and> phase (out8 io p v d) = Idle \<and> busy (out8 io p v d) = 0"
    and command_read: "phase d = Idle \<Longrightarrow> busy d = 0 \<Longrightarrow> regs d 0x1f2 \<noteq> 0 \<Longrightarrow>
        sec (out8 io 0x1f7 0x20 d) = sec d
        \<and> phase (out8 io 0x1f7 0x20 d) = Reading (taskfile_lba (regs d)) (unat (regs d 0x1f2)) 0"
    and command_write: "phase d = Idle \<Longrightarrow> busy d = 0 \<Longrightarrow> regs d 0x1f2 = 1 \<Longrightarrow>
        sec (out8 io 0x1f7 0x30 d) = sec d
        \<and> phase (out8 io 0x1f7 0x30 d) = Writing (taskfile_lba (regs d)) []"
    and command_flush: "phase d = Idle \<Longrightarrow> sec (out8 io 0x1f7 0xe7 d) = sec d \<and> phase (out8 io 0x1f7 0xe7 d) = Idle"
    and data_in: "phase d = Reading l (Suc n) i \<Longrightarrow> busy d = 0 \<Longrightarrow> i < 256 \<Longrightarrow>
        \<exists>d'. in16 io 0x1f0 d = (word_of_bytes (sec d l ! (2 * i)) (sec d l ! (2 * i + 1)), d') \<and> sec d' = sec d
        \<and> (if i < 255 then phase d' = Reading l (Suc n) (Suc i) \<and> busy d' = 0
           else phase d' = (if n = 0 then Idle else Reading (l + 1) n 0))"
    and data_out: "phase d = Writing l bs \<Longrightarrow> busy d = 0 \<Longrightarrow> length bs < 512 \<Longrightarrow> even (length bs) \<Longrightarrow>
        (if length bs + 2 < 512
         then sec (out16 io 0x1f0 w d) = sec d \<and> phase (out16 io 0x1f0 w d) = Writing l (bs @ bytes_of_word w)
           \<and> busy (out16 io 0x1f0 w d) = 0
         else sec (out16 io 0x1f0 w d) = (sec d)(l := bs @ bytes_of_word w) \<and> phase (out16 io 0x1f0 w d) = Idle)"
begin

lemma wait_not_busy:
  "\<exists>d'. ata_wait_until_not_busy io d = Some d' \<and> busy d' = 0 \<and> regs d' = regs d \<and> sec d' = sec d \<and> phase d' = phase d"
proof (induction "busy d" arbitrary: d rule: less_induct)
  case less
  show ?case
  proof (cases "busy d = 0")
    case True
    from status_settled [OF True] show ?thesis
      by (subst ata_wait_until_not_busy.simps) (auto simp: port_byte_in_def ata_consts ATA_STATUS_BUSY_def)
  next
    case False
    then obtain d' where d': "in8 io 0x1f7 d = (0x80, d')" "busy d' < busy d"
      "regs d' = regs d \<and> sec d' = sec d \<and> phase d' = phase d"
      using status_busy [of d] by auto
    from less [OF d'(2)] d' show ?thesis
      by (subst ata_wait_until_not_busy.simps) (auto simp: port_byte_in_def ata_consts ATA_STATUS_BUSY_def)
  qed
qed

lemma wait_status:
  assumes "0x80 AND st = 0"
    and settled: "\<And>s. s AND 0x40 \<noteq> 0 \<Longrightarrow> (s AND 0x08 = 0 \<longleftrightarrow> phase d = Idle) \<Longrightarrow> s AND st \<noteq> 0"
  shows "\<exists>d'. ata_wait_until_status io st d = Some d' \<and> busy d' = 0 \<and> regs d' = regs d \<and> sec d' = sec d
    \<and> phase d' = phase d"
  using settled
proof (induction "busy d" arbitrary: d rule: less_induct)
  case less
  show ?case
  proof (cases "busy d = 0")
    case True
    from status_settled [OF True] obtain s d' where "in8 io 0x1f7 d = (s, d')" "s AND st \<noteq> 0"
      "busy d' = 0 \<and> regs d' = regs d \<and> sec d' = sec d \<and> phase d' = phase d"
      using less.prems by blast
    then show ?thesis
      by (subst ata_wait_until_status.simps) (auto simp: port_byte_in_def ata_consts)
  next
    case False
    then obtain d' where d': "in8 io 0x1f7 d = (0x80, d')" "busy d' < busy d"
      "regs d' = regs d \<and> sec d' = sec d \<and> phase d' = phase d"
      using status_busy [of d] by auto
    have "\<exists>d''. ata_wait_until_status io st d' = Some d'' \<and> busy d'' = 0 \<and> regs d'' = regs d' \<and> sec d'' = sec d'
      \<and> phase d'' = phase d'"
      using d'(3) less.prems by (intro less.hyps [OF d'(2)]) auto
    with d' assms(1) show ?thesis
      by (subst ata_wait_until_status.simps) (auto simp: port_byte_in_def ata_consts)
  qed
qed

lemma wait_ready:
  "\<exists>d'. ata_wait_until_status io ATA_STATUS_READY d = Some d' \<and> busy d' = 0 \<and> regs d' = regs d \<and> sec d' = sec d
    \<and> phase d' = phase d"
  by (rule wait_status) (auto simp: ATA_STATUS_READY_def)

lemma wait_data:
  "phase d \<noteq> Idle \<Longrightarrow> \<exists>d'. ata_wait_until_status io ATA_STATUS_DATA_TRANSFER_REQUESTED d = Some d' \<and> busy d' = 0
    \<and> regs d' = regs d \<and> sec d' = sec d \<and> phase d' = phase d"
  by (rule wait_status) (auto simp: ATA_STATUS_DATA_TRANSFER_REQUESTED_def)

lemma multiword_in:
  assumes "phase d = Reading l (Suc n) i" "busy d = 0" "i + k = 256" "0 < k"
  shows "\<exists>d'. port_multiword_in io 0x1f0 k d = (drop (2 * i) (sec d l), d') \<and> sec d' = sec d
    \<and> phase d' = (if n = 0 then Idle else Reading (l + 1) n 0)"
  using assms
proof (induction k arbitrary: i d)
  case (Suc k)
  let ?w = "word_of_bytes (sec d l ! (2 * i)) (sec d l ! (2 * i + 1))"
  from data_in [OF Suc.prems(1,2)] Suc.prems(3) obtain d1 where d1: "in16 io 0x1f0 d = (?w, d1)" "sec d1 = sec d"
    and ph: "if i < 255 then phase d1 = Reading l (Suc n) (Suc i) \<and> busy d1 = 0
       else phase d1 = (if n = 0 then Idle else Reading (l + 1) n 0)" by auto
  have drop2: "drop (2 * i) (sec d l) = sec d l ! (2 * i) # sec d l ! (2 * i + 1) # drop (2 * Suc i) (sec d l)"
    using sector_length [of d l] Suc.prems(3) by (simp add: Cons_nth_drop_Suc)
  show ?case
  proof (cases "k = 0")
    case True
    then show ?thesis using d1 ph Suc.prems(3) drop2 sector_length [of d l] by simp
  next
    case False
    with Suc.prems(3) have i: "i < 255" by simp
    have "\<exists>d'. port_multiword_in io 0x1f0 k d1 = (drop (2 * Suc i) (sec d1 l), d') \<and> sec d' = sec d1
      \<and> phase d' = (if n = 0 then Idle else Reading (l + 1) n 0)"
      using ph i False Suc.prems(3) by (intro Suc.IH) auto
    then show ?thesis using d1 drop2 by (auto simp: split_beta Let_def)
  qed
qed simp

lemma multiword_out:
  assumes "phase d = Writing l bs" "busy d = 0" "length bs + 2 * k = 512" "length data = 2 * k" "0 < k"
  shows "\<exists>d'. port_multiword_out io 0x1f0 data k d = Some d' \<and> sec d' = (sec d)(l := bs @ data) \<and> phase d' = Idle"
  using assms
proof (induction k arbitrary: bs data d)
  case (Suc k)
  then obtain lo hi data' where data: "data = lo # hi # data'" "length data' = 2 * k"
    by (auto simp: length_Suc_conv numeral_2_eq_2)
  let ?d = "out16 io 0x1f0 (word_of_bytes lo hi) d"
  have "even (length bs)" using Suc.prems(3) by presburger
  note step = data_out [OF Suc.prems(1,2) _ this, of "word_of_bytes lo hi"]
  show ?case
  proof (cases "k = 0")
    case True
    then show ?thesis using step data Suc.prems(3) by (simp del: fun_upd_apply)
  next
    case False
    have "\<exists>d'. port_multiword_out io 0x1f0 data' k ?d = Some d'
        \<and> sec d' = (sec ?d)(l := (bs @ [lo, hi]) @ data') \<and> phase d' = Idle"
      using step False data(2) Suc.prems(3) by (intro Suc.IH) auto
    then show ?thesis using step False data Suc.prems(3) by (auto simp del: fun_upd_apply)
  qed
qed simp

lemma read_sectors_data:
  assumes "phase d = (if n = 0 then Idle else Reading l n 0)" "sec d = s"
  shows "\<exists>d'. read_sectors io n d = Some (concat (map (\<lambda>j. s (l + of_nat j)) [0..<n]), d') \<and> sec d' = s \<and> phase d' = Idle"
  using assms
proof (induction n arbitrary: d l)
  case (Suc n)
  then obtain d1 where d1: "ata_wait_until_status io ATA_STATUS_DATA_TRANSFER_REQUESTED d = Some d1" "busy d1 = 0"
    "sec d1 = s" "phase d1 = Reading l (Suc n) 0" using wait_data [of d] by auto
  obtain d2 where d2: "port_multiword_in io 0x1f0 256 d1 = (s l, d2)" "sec d2 = s"
    "phase d2 = (if n = 0 then Idle else Reading (l + 1) n 0)"
    using multiword_in [OF d1(4,2), of 256] d1(3) by auto
  have all: "map (\<lambda>j. s (l + of_nat j)) [0..<Suc n] = s l # map (\<lambda>j. s (l + 1 + of_nat j)) [0..<n]"
    unfolding upt_conv_Cons [OF zero_less_Suc] map_Suc_upt [symmetric] by (simp add: algebra_simps)
  obtain d3 where "read_sectors io n d2 = Some (concat (map (\<lambda>j. s (l + 1 + of_nat j)) [0..<n]), d3)"
      "sec d3 = s" "phase d3 = Idle"
    using Suc.IH [OF d2(3,2)] by blast
  then show ?case unfolding all using d1 d2 by (simp add: ATA_SECTOR_SIZE_def ata_consts)
qed simp

end

lemma taskfile_lba_write:
  "taskfile_lba (r(0x1f6 := 0xe0, 0x1f2 := c, 0x1f3 := ucast lba AND 0xff, 0x1f4 := ucast (drop_bit 8 lba) AND 0xff,
     0x1f5 := ucast (drop_bit 16 lba) AND 0xff)) = take_bit 24 lba"
proof -
  have ff: "x AND 0xff = x" for x :: u8
  proof -
    have "x AND mask 8 = x" by (rule bit_word_eqI) (auto simp: bit_simps dest: bit_imp_le_length)
    then show ?thesis by (simp add: mask_eq_exp_minus_1)
  qed
  show ?thesis unfolding taskfile_lba_def ff fun_upd_apply
    by (rule bit_word_eqI, rename_tac n, case_tac "n < 16") (auto simp: bit_simps not_less)
qed

lemma taskfile_lba_read:
  assumes "lba < 2 ^ 28"
  shows "taskfile_lba (r(0x1f6 := 0xe0 OR ucast (drop_bit 24 lba AND 0xff), 0x1f2 := c, 0x1f3 := ucast (lba AND 0xff),
     0x1f4 := ucast (drop_bit 8 lba AND 0xff), 0x1f5 := ucast (drop_bit 16 lba AND 0xff))) = lba"
proof -
  have ff: "x AND 0xff = take_bit 8 x" for x :: u32
    unfolding take_bit_eq_mask by (simp add: mask_eq_exp_minus_1)
  have f: "(0xe0 OR x) AND 0xf = take_bit 4 x" for x :: u8
  proof -
    have "0xe0 AND mask 4 = (0::u8)" by (simp add: mask_eq_exp_minus_1)
    then have "(0xe0 OR x) AND mask 4 = x AND mask 4" by (simp add: and.commute bit.conj_disj_distrib)
    then show ?thesis unfolding take_bit_eq_mask by (simp add: mask_eq_exp_minus_1)
  qed
  have "take_bit 28 lba = lba" using assms
    by (intro word_unat_eq_iff [THEN iffD2]) (simp add: unsigned_take_bit_eq take_bit_nat_eq_self word_less_nat_alt)
  moreover have "taskfile_lba (r(0x1f6 := 0xe0 OR ucast (drop_bit 24 lba AND 0xff), 0x1f2 := c,
     0x1f3 := ucast (lba AND 0xff), 0x1f4 := ucast (drop_bit 8 lba AND 0xff),
     0x1f5 := ucast (drop_bit 16 lba AND 0xff))) = take_bit 28 lba"
    unfolding taskfile_lba_def ff f fun_upd_apply
    by (rule bit_word_eqI) (auto simp: bit_simps f)
  ultimately show ?thesis by simp
qed

context ata_drive
begin

lemma set_task_file:
  fixes dh c lo m h :: u8
  assumes "phase d = Idle" "busy d = 0"
  defines "d' \<equiv> out8 io 0x1f5 h (out8 io 0x1f4 m (out8 io 0x1f3 lo (out8 io 0x1f2 c (out8 io 0x1f6 dh d))))"
  shows "regs d' = (regs d)(0x1f6 := dh, 0x1f2 := c, 0x1f3 := lo, 0x1f4 := m, 0x1f5 := h) \<and> sec d' = sec d
    \<and> phase d' = Idle \<and> busy d' = 0"
proof -
  have 1: "regs (out8 io 0x1f6 dh d) = (regs d)(0x1f6 := dh) \<and> sec (out8 io 0x1f6 dh d) = sec d
    \<and> phase (out8 io 0x1f6 dh d) = Idle \<and> busy (out8 io 0x1f6 dh d) = 0"
    using set_register [OF assms(1,2), of "0x1f6" dh] by simp
  note 2 = set_register [OF 1 [THEN conjunct2, THEN conjunct2, THEN conjunct1]
      1 [THEN conjunct2, THEN conjunct2, THEN conjunct2], of "0x1f2" c, simplified]
  note 3 = set_register [OF 2 [THEN conjunct2, THEN conjunct2, THEN conjunct1]
      2 [THEN conjunct2, THEN conjunct2, THEN conjunct2], of "0x1f3" lo, simplified]
  note 4 = set_register [OF 3 [THEN conjunct2, THEN conjunct2, THEN conjunct1]
      3 [THEN conjunct2, THEN conjunct2, THEN conjunct2], of "0x1f4" m, simplified]
  note 5 = set_register [OF 4 [THEN conjunct2, THEN conjunct2, THEN conjunct1]
      4 [THEN conjunct2, THEN conjunct2, THEN conjunct2], of "0x1f5" h, simplified]
  show ?thesis unfolding d'_def using 1 2 3 4 5 by simp
qed

lemma disk_read_internal_data:
  assumes "phase d = Idle" "lba < 2 ^ 28" "nsectors \<noteq> 0"
  shows "\<exists>d'. disk_read_internal io lba nsectors d =
      Some (concat (map (\<lambda>j. sec d (lba + of_nat j)) [0..<unat nsectors]), d') \<and> sec d' = sec d \<and> phase d' = Idle"
proof -
  obtain d1 where d1: "ata_wait_until_status io ATA_STATUS_READY d = Some d1" "sec d1 = sec d" "phase d1 = Idle"
    using wait_ready [of d] assms(1) by auto
  obtain d2 where d2: "ata_wait_until_not_busy io d1 = Some d2" "busy d2 = 0" "sec d2 = sec d" "phase d2 = Idle"
    using wait_not_busy [of d1] d1 by auto
  define d3 where "d3 = out8 io 0x1f5 (ucast (drop_bit 16 lba AND 0xff)) (out8 io 0x1f4 (ucast (drop_bit 8 lba AND 0xff))
      (out8 io 0x1f3 (ucast (lba AND 0xff)) (out8 io 0x1f2 nsectors
        (out8 io 0x1f6 (0xe0 OR ucast (drop_bit 24 lba AND 0xff)) d2))))"
  have d3: "regs d3 = (regs d2)(0x1f6 := 0xe0 OR ucast (drop_bit 24 lba AND 0xff), 0x1f2 := nsectors,
      0x1f3 := ucast (lba AND 0xff), 0x1f4 := ucast (drop_bit 8 lba AND 0xff), 0x1f5 := ucast (drop_bit 16 lba AND 0xff))"
    "sec d3 = sec d" "phase d3 = Idle" "busy d3 = 0"
    unfolding d3_def using d2(3) by (simp_all add: set_task_file [OF d2(4,2)] del: fun_upd_apply)
  define d4 where "d4 = out8 io 0x1f7 0x20 d3"
  have d4: "sec d4 = sec d" "phase d4 = Reading lba (unat nsectors) 0"
    using command_read [OF d3(3,4)] assms(3) d3(2) taskfile_lba_read [OF assms(2)]
    unfolding d4_def d3(1) by simp_all
  obtain d5 where d5: "ata_wait_until_not_busy io d4 = Some d5" "sec d5 = sec d" "phase d5 = Reading lba (unat nsectors) 0"
    using wait_not_busy [of d4] d4 by auto
  have "unat nsectors \<noteq> 0" using assms(3) by (simp add: unat_eq_zero)
  then obtain d6 where d6: "read_sectors io (unat nsectors) d5 =
      Some (concat (map (\<lambda>j. sec d (lba + of_nat j)) [0..<unat nsectors]), d6)" "sec d6 = sec d" "phase d6 = Idle"
    using read_sectors_data [of d5 "unat nsectors" lba "sec d"] d5 by auto
  obtain d7 where d7: "ata_wait_until_not_busy io d6 = Some d7" "busy d7 = 0" "sec d7 = sec d" "phase d7 = Idle"
    using wait_not_busy [of d6] d6 by auto
  obtain s d8 where d8: "in8 io 0x1f7 d7 = (s, d8)" "sec d8 = sec d" "phase d8 = Idle"
    using status_settled [OF d7(2)] d7 by auto
  show ?thesis
    using d1(1) d2(1) d5(1) [unfolded d4_def d3_def] d6(1) d7(1) d8
    unfolding disk_read_internal_def port_byte_out_def port_byte_in_def ata_consts Let_def
    by simp
qed

lemma disk_write_sector_data:
  assumes "phase d = Idle" "unat nchar \<le> 512" "unat nchar \<le> length buf"
  shows "\<exists>d'. disk_write_sector io lba buf nchar d = Some d' \<and> phase d' = Idle
      \<and> sec d' = (sec d)(take_bit 24 lba := take (unat nchar) buf @ replicate (512 - unat nchar) 0)"
proof -
  let ?buf = "take (unat nchar) buf @ replicate (512 - unat nchar) 0"
  obtain d1 where d1: "ata_wait_until_status io ATA_STATUS_READY d = Some d1" "busy d1 = 0" "sec d1 = sec d" "phase d1 = Idle"
    using wait_ready [of d] assms(1) by auto
  define d2 where "d2 = out8 io 0x1f5 (ucast (drop_bit 16 lba) AND 0xff) (out8 io 0x1f4 (ucast (drop_bit 8 lba) AND 0xff)
      (out8 io 0x1f3 (ucast lba AND 0xff) (out8 io 0x1f2 1 (out8 io 0x1f6 0xe0 d1))))"
  have d2: "regs d2 = (regs d1)(0x1f6 := 0xe0, 0x1f2 := 1, 0x1f3 := ucast lba AND 0xff,
      0x1f4 := ucast (drop_bit 8 lba) AND 0xff, 0x1f5 := ucast (drop_bit 16 lba) AND 0xff)"
    "sec d2 = sec d" "phase d2 = Idle" "busy d2 = 0"
    unfolding d2_def using d1(3) by (simp_all add: set_task_file [OF d1(4,2)] del: fun_upd_apply)
  define d3 where "d3 = out8 io 0x1f7 0x30 d2"
  have d3: "sec d3 = sec d" "phase d3 = Writing (take_bit 24 lba) []"
    using command_write [OF d2(3,4)] d2(2) unfolding d3_def d2(1) taskfile_lba_write by simp_all
  obtain d4 where d4: "snd (in8 io 0x3f6 d3) = d4" "sec d4 = sec d" "phase d4 = Writing (take_bit 24 lba) []"
    using alt_status [of d3] d3 by auto
  obtain d5 where d5: "ata_wait_until_status io ATA_STATUS_DATA_TRANSFER_REQUESTED d4 = Some d5" "busy d5 = 0"
    "sec d5 = sec d" "phase d5 = Writing (take_bit 24 lba) []"
    using wait_data [of d4] d4 by auto
  have "length ?buf = 2 * 256" using assms by simp
  then obtain d6 where d6: "port_multiword_out io 0x1f0 ?buf 256 d5 = Some d6"
    "sec d6 = (sec d)(take_bit 24 lba := ?buf)" "phase d6 = Idle"
    using multiword_out [OF d5(4,2), of 256 ?buf] d5(3) by auto
  define d7 where "d7 = out8 io 0x1f7 0xe7 d6"
  have d7: "sec d7 = (sec d)(take_bit 24 lba := ?buf)" "phase d7 = Idle"
    using command_flush [OF d6(3)] d6(2) unfolding d7_def by simp_all
  obtain d8 where d8: "ata_wait_until_not_busy io d7 = Some d8" "busy d8 = 0"
    "sec d8 = (sec d)(take_bit 24 lba := ?buf)" "phase d8 = Idle"
    using wait_not_busy [of d7] d7 by auto
  obtain s d9 where d9: "in8 io 0x1f7 d8 = (s, d9)" "sec d9 = (sec d)(take_bit 24 lba := ?buf)" "phase d9 = Idle"
    using status_settled [OF d8(2)] d8 by auto
  show ?thesis
    using assms(2,3) d1(1) d4(1) [unfolded d3_def d2_def] d5(1) d6(1) d8(1) [unfolded d7_def] d9
    unfolding disk_write_sector_def port_byte_out_def port_byte_in_def waste_cycle_time_def ata_consts Let_def
      ATA_SECTOR_SIZE_def
    by (simp del: fun_upd_apply)
qed

end

section \<open>A drive that follows the contract\<close>

record pio_drive =
  d_regs :: "u16 \<Rightarrow> u8"
  d_sectors :: "u32 \<Rightarrow> u8 list"
  d_phase :: ata_phase
  d_busy :: nat
  d_latency :: nat

definition pio_sector :: "pio_drive \<Rightarrow> u32 \<Rightarrow> u8 list" where
  "pio_sector d l = take 512 (d_sectors d l) @ replicate (512 - length (d_sectors d l)) 0"

definition pio_in8 :: "u16 \<Rightarrow> pio_drive \<Rightarrow> u8 \<times> pio_drive" where
  "pio_in8 p d =
     (if p = 0x1f7 then
        if d_busy d > 0 then (0x80, d\<lparr>d_busy := d_busy d - 1\<rparr>)
        else (if d_phase d = Idle then 0x40 else 0x48, d)
      else (d_regs d p, d))"

definition pio_out8 :: "u16 \<Rightarrow> u8 \<Rightarrow> pio_drive \<Rightarrow> pio_drive" where
  "pio_out8 p v d =
     (if p = 0x1f7 then
        d\<lparr>d_phase := (if v = 0x20 then Reading (taskfile_lba (d_regs d)) (unat (d_regs d 0x1f2)) 0
                     else if v = 0x30 then Writing (taskfile_lba (d_regs d)) [] else d_phase d),
          d_busy := d_latency d\<rparr>
      else d\<lparr>d_regs := (d_regs d)(p := v)\<rparr>)"

definition pio_in16 :: "u16 \<Rightarrow> pio_drive \<Rightarrow> u16 \<times> pio_drive" where
  "pio_in16 p d = (case d_phase d of
     Reading l n i \<Rightarrow>
       (word_of_bytes (pio_sector d l ! (2 * i)) (pio_sector d l ! (2 * i + 1)),
        if i < 255 then d\<lparr>d_phase := Reading l n (Suc i)\<rparr>
        else d\<lparr>d_phase := (if n = 1 then Idle else Reading (l + 1) (n - 1) 0), d_busy := d_latency d\<rparr>)
   | _ \<Rightarrow> (0, d))"

definition pio_out16 :: "u16 \<Rightarrow> u16 \<Rightarrow> pio_drive \<Rightarrow> pio_drive" where
  "pio_out16 p w d = (case d_phase d of
     Writing l bs \<Rightarrow>
       (let bs = bs @ bytes_of_word w
        in if length bs < 512 then d\<lparr>d_phase := Writing l bs\<rparr>
           else d\<lparr>d_phase := Idle, d_sectors := (d_sectors d)(l := take 512 bs), d_busy := d_latency d\<rparr>)
   | _ \<Rightarrow> d)"

definition pio_io :: "pio_drive io_ports" where
  "pio_io = \<lparr>in8 = pio_in8, out8 = pio_out8, in16 = pio_in16, out16 = pio_out16\<rparr>"

lemma pio_sector_upd:
  "d_sectors d' = d_sectors d \<Longrightarrow> pio_sector d' = pio_sector d"
  by (simp add: pio_sector_def fun_eq_iff)

lemma pio_sector_write:
  "length bs = 512 \<Longrightarrow> pio_sector (d\<lparr>d_sectors := (d_sectors d)(l := take 512 bs)\<rparr>) = (pio_sector d)(l := bs)"
  by (auto simp: pio_sector_def fun_eq_iff)

interpretation pio: ata_drive pio_io d_regs pio_sector d_phase d_busy
proof
  fix d :: pio_drive and l bs w
  assume "d_phase d = Writing l bs" "d_busy d = 0" "length bs < 512" "even (length bs)"
  moreover from this have "\<not> length bs < 510 \<Longrightarrow> length bs = 510" by presburger
  moreover have "length (bs @ bytes_of_word w) = length bs + 2" by (simp add: bytes_of_word_def)
  ultimately show "if length bs + 2 < 512
      then pio_sector (out16 pio_io 0x1f0 w d) = pio_sector d \<and> d_phase (out16 pio_io 0x1f0 w d) = Writing l (bs @ bytes_of_word w)
        \<and> d_busy (out16 pio_io 0x1f0 w d) = 0
      else pio_sector (out16 pio_io 0x1f0 w d) = (pio_sector d)(l := bs @ bytes_of_word w) \<and> d_phase (out16 pio_io 0x1f0 w d) = Idle"
    using pio_sector_write [of "bs @ bytes_of_word w" d l]
    by (auto simp: pio_io_def pio_out16_def Let_def pio_sector_def fun_eq_iff)
qed (auto simp: pio_io_def pio_in8_def pio_out8_def pio_in16_def pio_sector_def fun_eq_iff)

section \<open>What the clients of the driver rely on\<close>

text \<open>A write stores a sector, and a read returns what is stored and changes nothing.\<close>

locale block_device =
  fixes rd :: "u32 \<Rightarrow> 'd \<Rightarrow> (u8 list \<times> 'd) option"
    and wr :: "u32 \<Rightarrow> u8 list \<Rightarrow> u16 \<Rightarrow> 'd \<Rightarrow> 'd option"
    and ready :: "'d \<Rightarrow> bool"
    and sec :: "'d \<Rightarrow> u32 \<Rightarrow> u8 list"
  assumes sector_size: "length (sec d l) = 512"
    and rd_sector: "ready d \<Longrightarrow> l < 2 ^ 28 \<Longrightarrow> \<exists>d'. rd l d = Some (sec d l, d') \<and> sec d' = sec d \<and> ready d'"
    and wr_sector: "ready d \<Longrightarrow> unat n \<le> 512 \<Longrightarrow> unat n \<le> length bs \<Longrightarrow> l < 2 ^ 24 \<Longrightarrow>
      \<exists>d'. wr l bs n d = Some d' \<and> sec d' = (sec d)(l := take (unat n) bs @ replicate (512 - unat n) 0) \<and> ready d'"

sublocale ata_drive \<subseteq> block_device "disk_read io" "disk_write_sector io" "\<lambda>d. phase d = Idle" sec
proof
  fix d and l :: u32 and n :: u16 and bs :: "u8 list"
  show "length (sec d l) = 512" by (rule sector_length)
  show "phase d = Idle \<Longrightarrow> l < 2 ^ 28 \<Longrightarrow> \<exists>d'. disk_read io l d = Some (sec d l, d') \<and> sec d' = sec d \<and> phase d' = Idle"
    using disk_read_internal_data [of d l 1] by (simp add: disk_read_def)
  assume l: "l < 2 ^ 24"
  have "take_bit 24 l = l" using l
    by (intro word_unat_eq_iff [THEN iffD2]) (simp add: unsigned_take_bit_eq take_bit_nat_eq_self word_less_nat_alt)
  then show "phase d = Idle \<Longrightarrow> unat n \<le> 512 \<Longrightarrow> unat n \<le> length bs \<Longrightarrow> \<exists>d'. disk_write_sector io l bs n d = Some d'
      \<and> sec d' = (sec d)(l := take (unat n) bs @ replicate (512 - unat n) 0) \<and> phase d' = Idle"
    using disk_write_sector_data [of d n bs l] by auto
qed

section \<open>Writing several sectors\<close>

definition pad_sector :: "u8 list \<Rightarrow> u8 list" where
  "pad_sector xs = take 512 xs @ replicate (512 - length xs) 0"

function put_data :: "(u32 \<Rightarrow> u8 list) \<Rightarrow> u32 \<Rightarrow> u8 list \<Rightarrow> u32 \<Rightarrow> u8 list" where
  "put_data s l xs = (if xs = [] then s else put_data (s(l := pad_sector xs)) (l + 1) (drop 512 xs))"
  by pat_completeness auto
termination by (relation "measure (\<lambda>(s, l, xs). length xs)") auto

declare put_data.simps [simp del]

lemma sectors_drop: "xs \<noteq> [] \<Longrightarrow> (length (drop 512 xs) + 511) div 512 + 1 = (length xs + 511) div 512"
  by (cases "length xs \<le> 512") (auto simp: div_if Suc_le_eq)

lemma put_data_other:
  "unat l + (length xs + 511) div 512 \<le> 2 ^ 32 \<Longrightarrow> unat k < unat l \<or> unat l + (length xs + 511) div 512 \<le> unat k \<Longrightarrow>
   put_data s l xs k = s k"
proof (induction s l xs rule: put_data.induct)
  case (1 s l xs)
  show ?case
  proof (cases "xs = []")
    case False
    have "(length (drop 512 xs) + 511) div 512 + 1 = (length xs + 511) div 512"
      using False by (rule sectors_drop)
    then have len: "unat l + 1 + (length (drop 512 xs) + 511) div 512 = unat l + (length xs + 511) div 512" by simp
    have k: "k \<noteq> l" using 1(3) len by auto
    have "put_data (s(l := pad_sector xs)) (l + 1) (drop 512 xs) k = s k"
    proof (cases "drop 512 xs = []")
      case True
      then show ?thesis using k by (subst put_data.simps) simp
    next
      case rest: False
      then have "(length (drop 512 xs) + 511) div 512 \<noteq> 0"
        by (auto simp: div_eq_0_iff not_less Suc_le_eq)
      then have l1: "unat (l + 1) = unat l + 1"
        using 1(2) len by (intro unat_Suc_u32) linarith
      have "put_data (s(l := pad_sector xs)) (l + 1) (drop 512 xs) k = (s(l := pad_sector xs)) k"
        by (rule 1(1) [OF False]) (use 1(2,3) len l1 in linarith)+
      then show ?thesis using k by simp
    qed
    then show ?thesis using False by (subst put_data.simps) simp
  qed (simp add: put_data.simps)
qed

lemma put_data_at:
  assumes "unat l + (length xs + 511) div 512 \<le> 2 ^ 32" "j < (length xs + 511) div 512"
  shows "put_data s l xs (l + of_nat j) = pad_sector (drop (512 * j) xs)"
  using assms
proof (induction j arbitrary: s l xs)
  case 0
  then have "xs \<noteq> []" by auto
  have "(length (drop 512 xs) + 511) div 512 + 1 = (length xs + 511) div 512"
    using \<open>xs \<noteq> []\<close> by (rule sectors_drop)
  show ?case
  proof (cases "drop 512 xs = []")
    case True
    then show ?thesis using \<open>xs \<noteq> []\<close> by (subst put_data.simps) (simp add: put_data.simps)
  next
    case False
    then have "(length (drop 512 xs) + 511) div 512 \<noteq> 0"
      by (auto simp: div_eq_0_iff not_less Suc_le_eq)
    with 0 have "unat (l + 1) = unat l + 1" 
      using \<open>_ + 1 = _\<close> by (intro unat_Suc_u32) auto
    then show ?thesis using \<open>xs \<noteq> []\<close> 0 \<open>_ + 1 = _\<close>
      by (subst put_data.simps) (simp add: put_data_other)
  qed
next
  case (Suc j)
  then have "xs \<noteq> []" by auto
  have len: "(length (drop 512 xs) + 511) div 512 + 1 = (length xs + 511) div 512"
    using \<open>xs \<noteq> []\<close> by (rule sectors_drop)
  then have "unat (l + 1) = unat l + 1"
    using Suc.prems by (intro unat_Suc_u32) auto
  then have "put_data (s(l := pad_sector xs)) (l + 1) (drop 512 xs) (l + 1 + of_nat j) =
      pad_sector (drop (512 * j) (drop 512 xs))"
    using Suc.prems len by (intro Suc.IH) auto
  then show ?case using \<open>xs \<noteq> []\<close> by (subst put_data.simps) (simp add: algebra_simps)
qed

context ata_drive
begin

lemma disk_write_from_data:
  assumes "phase d = Idle" "unat n - unat w \<le> length buf" "unat l + (unat n - unat w + 511) div 512 \<le> 2 ^ 24"
  shows "\<exists>d'. disk_write_from io l buf w n d = Some d' \<and> phase d' = Idle
    \<and> sec d' = put_data (sec d) l (take (unat n - unat w) buf)"
  using assms
proof (induction "unat n - unat w" arbitrary: l buf w d rule: less_induct)
  case less
  show ?case
  proof (cases "w < n")
    case False
    then show ?thesis using less.prems
      by (simp add: disk_write_from.simps put_data.simps word_less_nat_alt)
  next
    case True
    define c where "c = (if n - w < 512 then n - w else 512)"
    note c = disk_chunk_less [OF True, folded c_def]
    let ?r = "unat n - unat w"
    have r: "0 < ?r" using True by (simp add: word_less_nat_alt)
    have c16: "unat (ucast c :: u16) = unat c" using c(2) by (simp add: unsigned_ucast_eq take_bit_nat_eq_self)
    have l24: "l < 2 ^ 24" using less.prems(3) r by (simp add: word_less_nat_alt div_eq_0_iff)
    have pad: "take (unat c) buf @ replicate (512 - unat c) 0 = pad_sector (take ?r buf)"
      using c(2) less.prems(2) by (auto simp: pad_sector_def min_def)
    have "unat (ucast c :: u16) \<le> 512" "unat (ucast c :: u16) \<le> length buf" using c c16 less.prems(2) by auto
    from wr_sector [OF less.prems(1) this l24] obtain d1 where
      d1: "disk_write_sector io l buf (ucast c) d = Some d1" "phase d1 = Idle"
        "sec d1 = (sec d)(l := pad_sector (take ?r buf))" unfolding c16 pad by auto
    have rest: "unat n - unat (w + c) = ?r - 512" using c r by auto
    have "(?r + 511) div 512 = (?r - 512 + 511) div 512 + 1"
      using r by (cases "?r \<le> 512") (auto simp: div_if Suc_le_eq)
    then have bound: "unat l + 1 + (?r - 512 + 511) div 512 \<le> 2 ^ 24" using less.prems(3) by simp
    then have l1: "unat (l + 1) = unat l + 1" by (intro unat_Suc_u32) simp
    have "\<exists>d'. disk_write_from io (l + 1) (drop 512 buf) (w + c) n d1 = Some d' \<and> phase d' = Idle
      \<and> sec d' = put_data (sec d1) (l + 1) (take (unat n - unat (w + c)) (drop 512 buf))"
      using d1(2) rest r bound l1 less.prems(2) by (intro less.hyps) auto
    then obtain d2 where d2: "disk_write_from io (l + 1) (drop 512 buf) (w + c) n d1 = Some d2" "phase d2 = Idle"
      "sec d2 = put_data (sec d1) (l + 1) (take (?r - 512) (drop 512 buf))" unfolding rest by blast
    have "take ?r buf \<noteq> []" using r less.prems(2) by auto
    then have "put_data (sec d) l (take ?r buf) = sec d2"
      using d2(3) d1(3) by (subst put_data.simps) (simp add: drop_take del: fun_upd_apply)
    moreover have "disk_write_from io l buf w n d = Some d2"
      using True d1(1) d2(1) by (subst disk_write_from.simps) (simp add: c_def [symmetric] ATA_SECTOR_SIZE_def Let_def)
    ultimately show ?thesis using d2(2) by simp
  qed
qed

lemma disk_write_data:
  assumes "phase d = Idle" "unat n \<le> length buf" "unat l + (unat n + 511) div 512 \<le> 2 ^ 24"
  shows "\<exists>d'. disk_write io l buf n d = Some d' \<and> phase d' = Idle \<and> sec d' = put_data (sec d) l (take (unat n) buf)"
  using disk_write_from_data [of d n 0 buf l] assms by (simp add: disk_write_def)

end

section \<open>Properties of the driver\<close>

lemma sectors_below:
  fixes lba :: u32
  assumes "unat lba + n \<le> 2 ^ 24" "j < n"
  shows "unat (lba + of_nat j) = unat lba + j" and "lba + of_nat j < 2 ^ 28"
proof -
  have "unat (of_nat j :: u32) = j" using assms by (intro unat_of_nat_u32) simp
  with assms show sum: "unat (lba + of_nat j) = unat lba + j" by (subst unat_plus) simp_all
  with assms show "lba + of_nat j < 2 ^ 28" by (simp add: word_less_nat_alt)
qed


definition blank_drive :: pio_drive where
  "blank_drive = \<lparr>d_regs = (\<lambda>_. 0), d_sectors = (\<lambda>_. []), d_phase = Idle, d_busy = 0, d_latency = 2\<rparr>"


text \<open>Writing does not use the upper address bits that reading uses.  A sector written at an address from \<open>2 ^ 24\<close>
  on lands at the address modulo \<open>2 ^ 24\<close>, destroying what is stored there, and a read of the same address returns
  the old contents.\<close>

theorem disk_write_high_address_lost:
  assumes "ata_drive io regs sec phase busy" and "phase d = Idle" and "length buf = 512"
    and "2 ^ 24 \<le> lba" and "lba < 2 ^ 28"
  shows "\<exists>d' d''. disk_write io lba buf 512 d = Some d' \<and> sec d' (take_bit 24 lba) = buf
    \<and> disk_read io lba d' = Some (sec d lba, d'')"
proof -
  obtain d' where d': "disk_write_sector io lba buf 512 d = Some d'" "phase d' = Idle"
    "sec d' = (sec d)(take_bit 24 lba := buf)"
    using ata_drive.disk_write_sector_data [OF assms(1,2), of 512 buf lba] assms(3) by auto
  then have "disk_write io lba buf 512 d = Some d'"
    unfolding disk_write_def by (subst disk_write_from.simps) (simp add: disk_write_from.simps Let_def)
  moreover have "take_bit 24 lba \<noteq> lba"
    using assms(4) by (auto simp: word_le_nat_alt word_unat_eq_iff unsigned_take_bit_eq take_bit_nat_def)
  then have "sec d' lba = sec d lba" unfolding d'(3) by simp
  then obtain d'' where "disk_read io lba d' = Some (sec d lba, d'')"
    using ata_drive.disk_read_internal_data [OF assms(1) d'(2) assms(5), of 1] by (auto simp: disk_read_def)
  moreover have "sec d' (take_bit 24 lba) = buf" unfolding d'(3) by simp
  ultimately show ?thesis by blast
qed

theorem disk_write_high_address_lost_witness:
  "\<exists>d' d''. disk_write pio_io 0x1000005 (replicate 512 7) 512 blank_drive = Some d'
    \<and> pio_sector d' 5 = replicate 512 7
    \<and> disk_read pio_io 0x1000005 d' = Some (pio_sector blank_drive 0x1000005, d'')"
  using disk_write_high_address_lost [OF pio.ata_drive_axioms, of blank_drive "replicate 512 7" "0x1000005"]
  by (simp add: blank_drive_def)

end
