(* ===== verification/Hash_Queues.thy ===== *)
theory Hash_Queues
  imports Linked_List
begin

text \<open>
  The list structure that the buffer cache (\<^verbatim>\<open>struct buffer_cache\<close> of \<^verbatim>\<open>include/buffer.h\<close>) and the inode
  cache (\<^verbatim>\<open>struct inode_cache\<close> of \<^verbatim>\<open>fs/ufs/ufs.c\<close>) share: \<open>DEV_NO\<close> hash queues followed by the head of a free
  list.

  Every entry is addressed by a word and has a node on a hash queue (\<open>HashLink\<close>) and one for the free list
  (\<open>FreeLink\<close>).  The free list's head follows the array of queue heads in memory, so queue number \<open>DEV_NO\<close> is the
  free list; a number above it, a division by zero and a node of the wrong kind under \<^verbatim>\<open>list_entry\<close> are
  outside the model.

  \<open>hashed h B key idle F\<close> says that the entries \<open>B\<close> are on the queues of their keys, and that the free list holds those
  that are idle.  The lemmas show what the operations of both caches do to it.
\<close>

definition DEV_NO :: nat where "DEV_NO = 4"

datatype bufnode = BNULL | HashHead nat | FreeHead | HashLink u32 | FreeLink u32

instantiation bufnode :: zero
begin
definition zero_bufnode :: bufnode where "zero_bufnode = BNULL"
instance ..
end

definition hash_fn :: "u32 \<Rightarrow> u32 \<Rightarrow> nat option" where
  "hash_fn bno devno = (if devno = 0 then None else Some (unat (bno mod devno)))"

definition hash_queue :: "nat \<Rightarrow> bufnode option" where
  "hash_queue i = (if i < DEV_NO then Some (HashHead i) else if i = DEV_NO then Some FreeHead else None)"

fun hash_entry :: "bufnode \<Rightarrow> u32 option" where
  "hash_entry (HashLink b) = Some b"
| "hash_entry _ = None"

fun free_entry :: "bufnode \<Rightarrow> u32 option" where
  "free_entry (FreeLink b) = Some b"
| "free_entry _ = None"

primrec init_queues :: "nat \<Rightarrow> bufnode list_heap \<Rightarrow> bufnode list_heap" where
  "init_queues 0 h = h"
| "init_queues (Suc n) h = INIT_LIST_HEAD (HashHead n) (init_queues n h)"

section \<open>Well-formed queues\<close>

definition buf_heads :: "bufnode set" where
  "buf_heads = insert FreeHead (HashHead ` {..<4})"

definition hashed :: "bufnode list_heap \<Rightarrow> u32 set \<Rightarrow> (u32 \<Rightarrow> u32) \<Rightarrow> (u32 \<Rightarrow> bool) \<Rightarrow> (bufnode \<Rightarrow> bufnode list) \<Rightarrow> bool" where
  "hashed h B key idle F \<longleftrightarrow> dlists h buf_heads F
     \<and> (\<forall>i<4. set (F (HashHead i)) = HashLink ` {b \<in> B. unat (key b) mod 4 = i})
     \<and> set (F FreeHead) = FreeLink ` {b \<in> B. idle b}"

lemma hashed_cong:
  assumes "\<And>b. b \<in> B \<Longrightarrow> key' b = key b" "\<And>b. b \<in> B \<Longrightarrow> idle' b = idle b"
  shows "hashed h B key' idle' F = hashed h B key idle F"
proof -
  have "{b \<in> B. unat (key' b) mod 4 = i} = {b \<in> B. unat (key b) mod 4 = i}" for i using assms(1) by auto
  moreover have "{b \<in> B. idle' b} = {b \<in> B. idle b}" using assms(2) by auto
  ultimately show ?thesis by (simp add: hashed_def)
qed

lemma hash_block: "hash_fn blk 4 = Some (unat blk mod 4)"
  by (simp add: hash_fn_def unat_mod)

lemma find_unique:
  assumes "x \<in> set xs" "P x" "\<And>y. y \<in> set xs \<Longrightarrow> P y \<Longrightarrow> y = x"
  shows "List.find P xs = Some x"
  using assms
proof (induction xs)
  case (Cons y ys)
  show ?case
  proof (cases "P y")
    case True
    then show ?thesis using Cons.prems(3) [of y] by simp
  next
    case False
    then have "x \<in> set ys" using Cons.prems(1,2) by auto
    then have "List.find P ys = Some x"
      by (rule Cons.IH [OF _ Cons.prems(2)]) (rule Cons.prems(3), auto)
    then show ?thesis using False by simp
  qed
qed simp

text \<open>The search both caches make: it stops at the first entry that matches.\<close>

definition queue_find :: "bufnode list_heap \<Rightarrow> u32 \<Rightarrow> (u32 \<Rightarrow> bool) \<Rightarrow> bufnode option option" where
  "queue_find h key P = do {
     index \<leftarrow> hash_fn key 4;
     queue \<leftarrow> hash_queue index;
     list_find h queue (\<lambda>n. case hash_entry n of None \<Rightarrow> True | Some b \<Rightarrow> P b)
   }"

lemma queue_find_eq:
  assumes "dlists h buf_heads F"
  shows "queue_find h key P =
    Some (List.find (\<lambda>n. case hash_entry n of None \<Rightarrow> True | Some b \<Rightarrow> P b) (F (HashHead (unat key mod 4))))"
proof -
  have "dlist h (HashHead (unat key mod 4)) (F (HashHead (unat key mod 4)))"
    using assms by (rule dlistsD) (auto simp: buf_heads_def)
  then show ?thesis by (simp add: queue_find_def hash_block hash_queue_def DEV_NO_def list_find_dlist)
qed

lemma queue_find_present:
  assumes H: "hashed h B key idle F" and b: "b \<in> B" "P b" "\<And>c. c \<in> B \<Longrightarrow> P c \<Longrightarrow> c = b"
  shows "queue_find h (key b) P = Some (Some (HashLink b))"
proof -
  have q: "set (F (HashHead (unat (key b) mod 4))) = HashLink ` {c \<in> B. unat (key c) mod 4 = unat (key b) mod 4}"
    using H by (simp add: hashed_def)
  have "List.find (\<lambda>n. case hash_entry n of None \<Rightarrow> True | Some c \<Rightarrow> P c) (F (HashHead (unat (key b) mod 4))) =
      Some (HashLink b)"
  proof (rule find_unique)
    show "HashLink b \<in> set (F (HashHead (unat (key b) mod 4)))" unfolding q using b(1) by blast
    show "y = HashLink b" if "y \<in> set (F (HashHead (unat (key b) mod 4)))" "case hash_entry y of None \<Rightarrow> True | Some c \<Rightarrow> P c" for y
      using that b(3) unfolding q by auto
  qed (simp add: b(2))
  then show ?thesis using queue_find_eq [of h F] H by (simp add: hashed_def)
qed

lemma queue_find_absent:
  assumes D: "dlists h buf_heads F" and Q: "set (F (HashHead (unat k mod 4))) = HashLink ` Q" and none: "\<And>c. c \<in> Q \<Longrightarrow> \<not> P c"
  shows "queue_find h k P = Some None"
proof -
  have "List.find (\<lambda>n. case hash_entry n of None \<Rightarrow> True | Some c \<Rightarrow> P c) (F (HashHead (unat k mod 4))) = None"
    using none unfolding find_None_iff Q by auto
  then show ?thesis by (simp add: queue_find_eq [OF D])
qed

lemma hashed_missing:
  assumes "hashed h B key idle F" "\<And>c. c \<in> B \<Longrightarrow> \<not> P c"
  shows "queue_find h k P = Some None"
  using assms by (intro queue_find_absent [of h F k "{c \<in> B. unat (key c) mod 4 = unat k mod 4}"]) (auto simp: hashed_def)

section \<open>Taking, releasing and adding entries\<close>

lemma hashed_take:
  assumes H: "hashed h B key idle F" and b: "b \<in> B" "idle b"
  shows "\<exists>F'. hashed (list_del (FreeLink b) h) B key (\<lambda>c. idle c \<and> c \<noteq> b) F'"
proof -
  let ?F = "F(FreeHead := remove1 (FreeLink b) (F FreeHead))"
  have D: "dlists h buf_heads F" and h: "FreeHead \<in> buf_heads" using H by (auto simp: hashed_def buf_heads_def)
  have mem: "FreeLink b \<in> set (F FreeHead)" using H b by (auto simp: hashed_def)
  have "set (remove1 (FreeLink b) (F FreeHead)) = set (F FreeHead) - {FreeLink b}"
    using kl.inv_distinct [OF D h] by (rule set_remove1_eq)
  then have "set (?F FreeHead) = FreeLink ` {c \<in> B. idle c \<and> c \<noteq> b}"
    using H by (auto simp: hashed_def)
  with kl.inv_del [OF D h mem] H show ?thesis by (intro exI [of _ ?F]) (auto simp: hashed_def)
qed

lemma hashed_release:
  assumes H: "hashed h B key idle F" and b: "b \<in> B" "\<not> idle b"
    and f: "f = list_add FreeHead (FreeLink b) \<or> f = list_add_tail FreeHead (FreeLink b)"
  shows "\<exists>F'. hashed (f h) B key (\<lambda>c. idle c \<or> c = b) F'"
proof -
  have D: "dlists h buf_heads F" and h: "FreeHead \<in> buf_heads" using H by (auto simp: hashed_def buf_heads_def)
  have off: "FreeLink b \<notin> buf_heads" "\<And>a. a \<in> buf_heads \<Longrightarrow> FreeLink b \<notin> set (F a)"
    using H b by (auto simp: buf_heads_def hashed_def)
  obtain xs where "dlists (f h) buf_heads (F(FreeHead := xs))" "set xs = insert (FreeLink b) (set (F FreeHead))"
    using f kl.inv_add_tail [OF D h off] kl.inv_add [OF D h off] by force
  then show ?thesis using H b by (intro exI [of _ "F(FreeHead := xs)"]) (auto simp: hashed_def)
qed

lemma queues_init: "dlists (INIT_LIST_HEAD FreeHead (init_queues DEV_NO h)) buf_heads (\<lambda>_. [])"
proof -
  have "dlists (init_queues n h) (HashHead ` {..<n}) (\<lambda>_. [])" for n
  proof (induction n)
    case (Suc n)
    have "dlists (init_queues (Suc n) h) (insert (HashHead n) (HashHead ` {..<n})) ((\<lambda>_. [])(HashHead n := []))"
      using dlists_insert_init [OF Suc, of "HashHead n"] by auto
    then show ?case by (simp add: lessThan_Suc fun_upd_idem)
  qed (simp add: dlists_def)
  from dlists_insert_init [OF this [of DEV_NO], of FreeHead] show ?thesis
    by (auto simp: buf_heads_def DEV_NO_def fun_upd_idem)
qed

lemma hashed_init: "hashed (INIT_LIST_HEAD FreeHead (init_queues DEV_NO h)) {} key idle (\<lambda>_. [])"
  using queues_init [of h] by (simp add: hashed_def)

lemma hashed_insert:
  assumes H: "hashed h B key idle F" and b: "b \<notin> B" "idle b" "i = unat (key b) mod 4"
  shows "\<exists>F'. hashed (list_add FreeHead (FreeLink b) (list_add (HashHead i) (HashLink b) h)) (insert b B) key idle F'"
proof -
  let ?F = "F(HashHead i := HashLink b # F (HashHead i))"
  have i: "i < 4" using b(3) by simp
  have D: "dlists h buf_heads F" and h: "HashHead i \<in> buf_heads" "FreeHead \<in> buf_heads"
    and sets: "\<And>j. j < 4 \<Longrightarrow> set (F (HashHead j)) = HashLink ` {b \<in> B. unat (key b) mod 4 = j}"
      "set (F FreeHead) = FreeLink ` {b \<in> B. idle b}"
    using H i by (auto simp: hashed_def buf_heads_def)
  have "dlists (list_add (HashHead i) (HashLink b) h) buf_heads ?F"
    using b(1) sets by (intro kl.inv_add [OF D h(1)]) (auto simp: buf_heads_def)
  from this h(2) have "dlists (list_add FreeHead (FreeLink b) (list_add (HashHead i) (HashLink b) h)) buf_heads
      (?F(FreeHead := FreeLink b # ?F FreeHead))"
    by (rule kl.inv_add) (use b(1) sets i in \<open>auto simp: buf_heads_def split: if_splits\<close>)
  then show ?thesis
    using sets b(2) i by (intro exI [of _ "?F(FreeHead := FreeLink b # ?F FreeHead)"]) (auto simp: hashed_def b(3))
qed

lemma hashed_first_free:
  assumes H: "hashed h B key idle F" and "c \<in> B" "idle c"
  obtains b where "b \<in> B" "idle b" "F FreeHead = FreeLink b # tl (F FreeHead)" "next_of h FreeHead = FreeLink b"
    "\<not> list_is_empty h FreeHead"
proof -
  have D: "dlists h buf_heads F" and set: "set (F FreeHead) = FreeLink ` {b \<in> B. idle b}"
    and h: "FreeHead \<in> buf_heads" using H by (auto simp: hashed_def buf_heads_def)
  then have "F FreeHead \<noteq> []" using assms(2,3) by auto
  then have ne: "\<not> list_is_empty h FreeHead" using kl.empty_iff [OF D h] by simp
  note pop = kl.pop(1) [OF D h ne]
  then have "next_of h FreeHead \<in> set (F FreeHead)" by (metis list.set_intros(1))
  then obtain b where "b \<in> B" "idle b" "next_of h FreeHead = FreeLink b" unfolding set by auto
  with pop ne show ?thesis by (intro that) auto
qed

lemma hashed_onto_free_list:
  assumes H: "hashed h B key idle F" and b: "b \<in> B" "F FreeHead = FreeLink b # tl (F FreeHead)"
  defines "i \<equiv> unat (key b) mod 4"
  shows "dlists (list_add FreeHead (HashLink b) (list_del (HashLink b) (list_del (FreeLink b) h))) buf_heads
    (F(FreeHead := HashLink b # tl (F FreeHead), HashHead i := remove1 (HashLink b) (F (HashHead i))))"
proof -
  have i: "i < 4" by (simp add: i_def)
  have D: "dlists h buf_heads F" and h: "FreeHead \<in> buf_heads" "HashHead i \<in> buf_heads"
    using H i by (auto simp: hashed_def buf_heads_def)
  have on: "HashLink b \<in> set (F (HashHead i))" using H i b(1) by (auto simp: hashed_def i_def)
  have "FreeLink b \<in> set (F FreeHead)" using b(2) by (metis list.set_intros(1))
  moreover have "remove1 (FreeLink b) (F FreeHead) = tl (F FreeHead)" by (subst b(2)) simp
  ultimately have "dlists (list_del (FreeLink b) h) buf_heads (F(FreeHead := tl (F FreeHead)))"
    using kl.inv_del [OF D h(1)] by metis
  from kl.move [OF this h(2) h(1), of "HashLink b"] on show ?thesis
    by (simp add: fun_upd_twist)
qed

end
