(* ===== verification/Buffer_Cache.thy ===== *)
theory Buffer_Cache
  imports Disk Hash_Queues Slab
begin

text \<open>
  The buffer cache (\<^verbatim>\<open>fs/buffer.c\<close>, \<^verbatim>\<open>include/buffer.h\<close>) and the block transfers of
  \<^verbatim>\<open>fs/ufs/ufs.c\<close> that it uses.

  A buffer head is addressed by the word the slab allocator returned for it.  The 1024 bytes behind
  \<^verbatim>\<open>b_data\<close> are the list \<open>areas S p\<close> of the pointer \<open>p\<close>.  \<open>getblk\<close> waits by polling: where it would wait
  forever it is \<open>None\<close>.
\<close>

section \<open>State\<close>

definition BUFFERS :: nat where "BUFFERS = 100"
definition BUFFER_SIZE :: u32 where "BUFFER_SIZE = 1024"
definition BH_lock :: u32 where "BH_lock = push_bit 0 1"
definition BH_dirty :: u32 where "BH_dirty = push_bit 1 1"
definition BH_delay :: u32 where "BH_delay = push_bit 3 1"
definition BH_old :: u32 where "BH_old = push_bit 5 1"
definition sizeof_buffer_head :: u32 where "sizeof_buffer_head = 36"

record buffer_head =
  bh_flags :: u16
  b_count :: u32
  b_data :: u32
  b_dev :: u16
  b_blocknr :: u32

record 'd bstate =
  bufs :: "u32 \<Rightarrow> buffer_head"
  areas :: "u32 \<Rightarrow> u8 list"
  blists :: "bufnode list_heap"
  filesys_start :: u32
  fs_start_set :: bool
  drive :: 'd
  bslab :: slab_state

definition upd_buf :: "u32 \<Rightarrow> (buffer_head \<Rightarrow> buffer_head) \<Rightarrow> 'd bstate \<Rightarrow> 'd bstate" where
  "upd_buf b f S = S\<lparr>bufs := (bufs S)(b := f (bufs S b))\<rparr>"

definition upd_blists :: "(bufnode list_heap \<Rightarrow> bufnode list_heap) \<Rightarrow> 'd bstate \<Rightarrow> 'd bstate" where
  "upd_blists f S = S\<lparr>blists := f (blists S)\<rparr>"

definition upd_area :: "u32 \<Rightarrow> (u8 list \<Rightarrow> u8 list) \<Rightarrow> 'd bstate \<Rightarrow> 'd bstate" where
  "upd_area p f S = S\<lparr>areas := (areas S)(p := f (areas S p))\<rparr>"

definition bdata :: "u32 \<Rightarrow> 'd bstate \<Rightarrow> u8 list" where
  "bdata b S = areas S (b_data (bufs S b))"

definition BH_FLAG :: "u32 \<Rightarrow> 'd bstate \<Rightarrow> u32 \<Rightarrow> bool" where
  "BH_FLAG b S flag = IS_FLAG (ucast (bh_flags (bufs S b))) flag"

section \<open>Transfer of blocks\<close>

definition SECTORS_PER_BLOCK :: nat where "SECTORS_PER_BLOCK = 1024 div 512"

primrec read_blk_sectors :: "'d io_ports \<Rightarrow> u32 \<Rightarrow> nat \<Rightarrow> 'd \<Rightarrow> (u8 list \<times> 'd) option" where
  "read_blk_sectors io lba 0 d = Some ([], d)"
| "read_blk_sectors io lba (Suc n) d = do {
     (s, d) \<leftarrow> disk_read io lba d;
     (ss, d) \<leftarrow> read_blk_sectors io (lba + 1) n d;
     Some (s @ ss, d)
   }"

text \<open>The value is the returned code and the bytes stored in the buffer.\<close>

definition disk_read_blk :: "'d io_ports \<Rightarrow> u32 \<Rightarrow> 'd bstate \<Rightarrow> (int \<times> u8 list \<times> 'd bstate) option" where
  "disk_read_blk io block_num S =
     (if \<not> fs_start_set S then Some (1, [], S)
      else do {
        let lba = filesys_start S + block_num * of_nat SECTORS_PER_BLOCK;
        (data, d) \<leftarrow> read_blk_sectors io lba SECTORS_PER_BLOCK (drive S);
        Some (0, data, S\<lparr>drive := d\<rparr>)
      })"

primrec write_blk_sectors :: "'d io_ports \<Rightarrow> u32 \<Rightarrow> u8 list \<Rightarrow> nat \<Rightarrow> 'd \<Rightarrow> 'd option" where
  "write_blk_sectors io lba buf 0 d = Some d"
| "write_blk_sectors io lba buf (Suc n) d = do {
     d \<leftarrow> disk_write io lba buf 512 d;
     write_blk_sectors io (lba + 1) (drop 512 buf) n d
   }"

text \<open>The function ends without a return statement after the loop: the result is then unspecified.\<close>

definition disk_write_blk :: "'d io_ports \<Rightarrow> u32 \<Rightarrow> u8 list \<Rightarrow> 'd bstate \<Rightarrow> (int option \<times> 'd bstate) option" where
  "disk_write_blk io block_num buf S =
     (if \<not> fs_start_set S then Some (Some (- 1), S)
      else do {
        let lba = filesys_start S + block_num * of_nat SECTORS_PER_BLOCK;
        d \<leftarrow> write_blk_sectors io lba buf SECTORS_PER_BLOCK (drive S);
        Some (None, S\<lparr>drive := d\<rparr>)
      })"

section \<open>The cache\<close>

definition search_hash :: "u16 \<Rightarrow> u32 \<Rightarrow> 'd bstate \<Rightarrow> u32 option" where
  "search_hash dev_no blocknr S = do {
     index \<leftarrow> hash_fn blocknr (ucast dev_no);
     queue \<leftarrow> hash_queue index;
     run \<leftarrow> list_find (blists S) queue (\<lambda>n. case hash_entry n of
         None \<Rightarrow> True
       | Some b \<Rightarrow> b_blocknr (bufs S b) = blocknr \<and> b_dev (bufs S b) = dev_no);
     (case run of None \<Rightarrow> Some 0 | Some n \<Rightarrow> hash_entry n)
   }"

definition locked_buffer :: "u32 \<Rightarrow> 'd bstate \<Rightarrow> 'd bstate" where
  "locked_buffer b S = upd_buf b (\<lambda>h. h\<lparr>bh_flags := ucast (SET_FLAG (ucast (bh_flags h)) BH_lock)\<rparr>) S"

definition unlocked_buffer :: "u32 \<Rightarrow> 'd bstate \<Rightarrow> 'd bstate" where
  "unlocked_buffer b S = upd_buf b (\<lambda>h. h\<lparr>bh_flags := ucast (CLEAR_FLAG (ucast (bh_flags h)) BH_lock)\<rparr>) S"

text \<open>Scenario 2: a free buffer changes its identity.\<close>

definition rehash_buffer :: "u16 \<Rightarrow> u32 \<Rightarrow> u32 \<Rightarrow> 'd bstate \<Rightarrow> 'd bstate option" where
  "rehash_buffer dev_no blocknr bh S = do {
     let S = upd_blists (list_del (HashLink bh)) S;
     let S = upd_buf bh (\<lambda>h. h\<lparr>b_dev := dev_no, b_blocknr := blocknr\<rparr>) S;
     index \<leftarrow> hash_fn (ucast dev_no) blocknr;
     queue \<leftarrow> hash_queue index;
     Some (upd_blists (list_add queue (HashLink bh)) S)
   }"

partial_function (option) getblk :: "'d io_ports \<Rightarrow> u16 \<Rightarrow> u32 \<Rightarrow> 'd bstate \<Rightarrow> (u32 \<times> 'd bstate) option" where
  "getblk io dev_no blocknr S = do {
     bh \<leftarrow> search_hash dev_no blocknr S;
     if bh \<noteq> 0 then
       if BH_FLAG bh S BH_lock then getblk io dev_no blocknr S
       else Some (bh, locked_buffer bh (upd_blists (list_del (FreeLink bh)) S))
     else if list_is_empty (blists S) FreeHead then getblk io dev_no blocknr S
     else do {
       bh \<leftarrow> free_entry (next_of (blists S) FreeHead);
       let S = upd_blists (list_del (FreeLink bh)) S;
       if BH_FLAG bh S BH_delay then do {
         (_, S) \<leftarrow> disk_write_blk io (b_blocknr (bufs S bh)) (bdata bh S) S;
         let S = upd_buf bh (\<lambda>h. h\<lparr>bh_flags := ucast (CLEAR_FLAG (ucast (bh_flags h)) BH_delay)\<rparr>) S;
         getblk io dev_no blocknr (upd_blists (list_add FreeHead (FreeLink bh)) S)
       } else do {
         S \<leftarrow> rehash_buffer dev_no blocknr bh S;
         Some (bh, locked_buffer bh S)
       }
     }
   }"

declare getblk.simps [code]

definition brelse :: "u32 \<Rightarrow> 'd bstate \<Rightarrow> 'd bstate" where
  "brelse bh S =
     (let S = (if \<not> BH_FLAG bh S BH_dirty \<and> \<not> BH_FLAG bh S BH_old
               then upd_blists (list_add_tail FreeHead (FreeLink bh)) S
               else upd_blists (list_add FreeHead (FreeLink bh)) S)
      in unlocked_buffer bh S)"

definition bread :: "'d io_ports \<Rightarrow> u16 \<Rightarrow> u32 \<Rightarrow> 'd bstate \<Rightarrow> (u32 \<times> 'd bstate) option" where
  "bread io dev_no blocknr S = do {
     (bh, S) \<leftarrow> getblk io dev_no blocknr S;
     if BH_FLAG bh S BH_dirty then Some (bh, S)
     else do {
       (data, d) \<leftarrow> disk_read io (b_blocknr (bufs S bh)) (drive S);
       Some (bh, upd_area (b_data (bufs S bh)) (\<lambda>old. data @ drop (length data) old) (S\<lparr>drive := d\<rparr>))
     }
   }"

definition bwrite :: "'d io_ports \<Rightarrow> u32 \<Rightarrow> 'd bstate \<Rightarrow> 'd bstate option" where
  "bwrite io bh S = do {
     d \<leftarrow> disk_write io (b_blocknr (bufs S bh)) (bdata bh S) BUFFER_SIZE (drive S);
     Some (brelse bh (S\<lparr>drive := d\<rparr>))
   }"

text \<open>The self test prints the contents it read back; the model returns them.\<close>

definition test_bcache :: "'d io_ports \<Rightarrow> 'd bstate \<Rightarrow> (u8 list \<times> 'd bstate) option" where
  "test_bcache io S = do {
     (bh, S) \<leftarrow> getblk io (of_nat DEV_NO) 16 S;
     let S = upd_area (b_data (bufs S bh)) (\<lambda>_. map (\<lambda>i. of_nat (i div 256 + 97)) [0..<1024]) S;
     S \<leftarrow> bwrite io bh S;
     let S = upd_area (b_data (bufs S bh)) (\<lambda>_. replicate 1024 0) S;
     (tmp, S) \<leftarrow> bread io (of_nat DEV_NO) 16 S;
     Some (bdata tmp S, brelse tmp S)
   }"

section \<open>Creation\<close>

definition binit :: "u32 \<Rightarrow> u16 \<Rightarrow> u32 \<Rightarrow> 'd bstate \<Rightarrow> 'd bstate option" where
  "binit bhead dev blocknr S = do {
     let S = upd_buf bhead (\<lambda>h. h\<lparr>bh_flags := 0\<rparr>) S;
     (p, slab) \<leftarrow> kmalloc BUFFER_SIZE 0 (bslab S);
     let S = upd_buf bhead (\<lambda>h. h\<lparr>b_data := p\<rparr>) (S\<lparr>bslab := slab\<rparr>);
     if p = 0 then Some S
     else do {
       let S = upd_buf bhead (\<lambda>h. h\<lparr>b_dev := dev, b_blocknr := blocknr, b_count := 0\<rparr>) S;
       Some (upd_blists (INIT_LIST_NULL (FreeLink bhead)) (upd_blists (INIT_LIST_NULL (HashLink bhead)) S))
     }
   }"

function create_buffers :: "u32 \<Rightarrow> nat \<Rightarrow> 'd bstate \<Rightarrow> 'd bstate option" where
  "create_buffers bcache iCnt S =
     (if iCnt < BUFFERS then do {
        (tmp, slab) \<leftarrow> kmem_cache_alloc 2 bcache 0 (bslab S);
        let S = S\<lparr>bslab := slab\<rparr>;
        if tmp = 0 then Some S
        else do {
          S \<leftarrow> binit tmp (of_nat DEV_NO) (of_nat iCnt) S;
          index \<leftarrow> hash_fn (of_nat iCnt) (of_nat DEV_NO);
          queue \<leftarrow> hash_queue index;
          let S = upd_blists (list_add queue (HashLink tmp)) S;
          let S = upd_blists (list_add FreeHead (FreeLink tmp)) S;
          create_buffers bcache (Suc iCnt) S
        }
      } else Some S)"
  by pat_completeness auto
termination by (relation "measure (\<lambda>(c, i, S). BUFFERS - i)") auto

declare create_buffers.simps [simp del]

text \<open>\<^verbatim>\<open>display_buffer_cache\<close> prints the block numbers of each queue; the model returns them.\<close>

definition display_queue :: "'d bstate \<Rightarrow> nat \<Rightarrow> u32 list option" where
  "display_queue S i = do {
     ns \<leftarrow> list_for_each (blists S) (HashHead i);
     bs \<leftarrow> those (map hash_entry ns);
     Some (map (\<lambda>b. b_blocknr (bufs S b)) bs)
   }"

definition display_buffer_cache :: "'d bstate \<Rightarrow> u32 list list option" where
  "display_buffer_cache S = those (map (display_queue S) [0..<DEV_NO])"

definition create_buffer_cache :: "'d io_ports \<Rightarrow> 'd bstate \<Rightarrow> 'd bstate option" where
  "create_buffer_cache io S = do {
     (bcache, slab) \<leftarrow> kmem_cache_create ''buffer_head'' sizeof_buffer_head KMALLOC_MINALIGN SLAB_HWCACHE_ALIGN 0 (bslab S);
     let S = S\<lparr>bslab := slab\<rparr>;
     if bcache = 0 then Some S
     else do {
       let S = upd_blists (\<lambda>h. INIT_LIST_HEAD FreeHead (init_queues DEV_NO h)) S;
       S \<leftarrow> create_buffers bcache 0 S;
       _ \<leftarrow> display_buffer_cache S;
       (_, S) \<leftarrow> test_bcache io S;
       Some S
     }
   }"

end
