(* ===== verification/Buffer_Ok.thy ===== *)
theory Buffer_Ok
  imports Buffer_Cache Slab_Alloc
begin

text \<open>
  What the buffer cache guarantees (\<^verbatim>\<open>fs/buffer.c\<close>).

  \<open>bcache_ok B S\<close> is the state \<^verbatim>\<open>create_buffer_cache\<close> sets up for the buffers \<open>B\<close>: every buffer is on the hash
  queue of its block number, the free list holds exactly the buffers that are not locked, no two buffers
  hold the same block or share their memory.  Obtaining a cached block and releasing it keep this; a miss does not.
\<close>

section \<open>Flags and updates\<close>

lemma IS_FLAG_bit: "n < 32 \<Longrightarrow> IS_FLAG w (push_bit n 1) \<longleftrightarrow> bit w n"
proof
  assume n: "n < 32"
  show "bit w n" if "IS_FLAG w (push_bit n 1)"
  proof -
    from that have "bit (w AND push_bit n 1) n = bit (push_bit n 1 :: u32) n" by (simp add: IS_FLAG_def)
    with n show ?thesis by (simp add: bit_simps)
  qed
  show "IS_FLAG w (push_bit n 1)" if "bit w n"
    unfolding IS_FLAG_def by (rule bit_word_eqI) (use that in \<open>auto simp: bit_simps\<close>)
qed

lemma IS_FLAG_bit16: "n < 16 \<Longrightarrow> IS_FLAG (ucast f) (push_bit n 1) \<longleftrightarrow> bit f n" for f :: u16
  using IS_FLAG_bit [of n "ucast f"] by (simp add: bit_ucast_iff)

lemma BH_FLAG_simps:
  "BH_FLAG b S BH_lock \<longleftrightarrow> bit (bh_flags (bufs S b)) 0"
  "BH_FLAG b S BH_dirty \<longleftrightarrow> bit (bh_flags (bufs S b)) 1"
  "BH_FLAG b S BH_delay \<longleftrightarrow> bit (bh_flags (bufs S b)) 3"
  "BH_FLAG b S BH_old \<longleftrightarrow> bit (bh_flags (bufs S b)) 5"
  unfolding BH_FLAG_def BH_lock_def BH_dirty_def BH_delay_def BH_old_def
  by (rule IS_FLAG_bit16, simp)+

lemma bit_set_lock: "bit (ucast (SET_FLAG (ucast f) BH_lock) :: u16) n \<longleftrightarrow> n = 0 \<or> bit f n" for f :: u16
proof -
  have "(ucast (SET_FLAG (ucast f) BH_lock) :: u16) = set_bit 0 f"
    by (rule bit_word_eqI) (auto simp: SET_FLAG_def BH_lock_def bit_simps)
  then show ?thesis by (auto simp: bit_simps)
qed

lemma bit_clear_lock: "bit (ucast (CLEAR_FLAG (ucast f) BH_lock) :: u16) n \<longleftrightarrow> n \<noteq> 0 \<and> bit f n" for f :: u16
proof -
  have "(ucast (CLEAR_FLAG (ucast f) BH_lock) :: u16) = unset_bit 0 f"
    by (rule bit_word_eqI) (auto simp: CLEAR_FLAG_def BH_lock_def bit_simps)
  then show ?thesis by (auto simp: bit_simps)
qed

lemmas bupd_defs = upd_buf_def upd_blists_def upd_area_def locked_buffer_def unlocked_buffer_def bdata_def

section \<open>The invariant\<close>

definition idle_bufs :: "u32 set \<Rightarrow> 'd bstate \<Rightarrow> u32 set" where
  "idle_bufs B S = {b \<in> B. \<not> BH_FLAG b S BH_lock}"

definition bufs_ok :: "u32 set \<Rightarrow> 'd bstate \<Rightarrow> bool" where
  "bufs_ok B S \<longleftrightarrow> 0 \<notin> B \<and> inj_on (\<lambda>b. b_blocknr (bufs S b)) B \<and> (\<forall>b\<in>B. b_dev (bufs S b) = 4)
     \<and> inj_on (\<lambda>b. b_data (bufs S b)) B \<and> (\<forall>b\<in>B. length (bdata b S) = 1024)"

definition bcache_ok :: "u32 set \<Rightarrow> 'd bstate \<Rightarrow> bool" where
  "bcache_ok B S \<longleftrightarrow> bufs_ok B S
     \<and> (\<exists>F. hashed (blists S) B (\<lambda>b. b_blocknr (bufs S b)) (\<lambda>b. \<not> BH_FLAG b S BH_lock) F)"

lemma bcache_okI:
  assumes "bufs_ok B S" "hashed h B key idle F" "h = blists S" "\<And>b. b \<in> B \<Longrightarrow> b_blocknr (bufs S b) = key b"
    "\<And>b. b \<in> B \<Longrightarrow> idle b \<longleftrightarrow> \<not> BH_FLAG b S BH_lock"
  shows "bcache_ok B S"
proof -
  have "hashed h B (\<lambda>b. b_blocknr (bufs S b)) (\<lambda>b. \<not> BH_FLAG b S BH_lock) F = hashed h B key idle F"
    using assms(4,5) by (intro hashed_cong) auto
  then show ?thesis using assms(1-3) by (auto simp: bcache_ok_def)
qed

lemma search_hash_find:
  "search_hash 4 blk S = do {
     run \<leftarrow> queue_find (blists S) blk (\<lambda>b. b_blocknr (bufs S b) = blk \<and> b_dev (bufs S b) = 4);
     (case run of None \<Rightarrow> Some 0 | Some n \<Rightarrow> hash_entry n)
   }"
  by (simp add: search_hash_def queue_find_def)

lemma search_hash_cached:
  assumes ok: "bcache_ok B S" and b: "b \<in> B" "b_blocknr (bufs S b) = blk"
  shows "search_hash 4 blk S = Some b"
proof -
  obtain F where F: "hashed (blists S) B (\<lambda>b. b_blocknr (bufs S b)) (\<lambda>b. \<not> BH_FLAG b S BH_lock) F" and B: "bufs_ok B S"
    using ok by (auto simp: bcache_ok_def)
  have "c = b" if "c \<in> B" "b_blocknr (bufs S c) = blk \<and> b_dev (bufs S c) = 4" for c
    using that b B by (auto simp: bufs_ok_def inj_on_def)
  moreover have "b_blocknr (bufs S b) = blk \<and> b_dev (bufs S b) = 4" using b B by (auto simp: bufs_ok_def)
  ultimately show ?thesis
    using queue_find_present [OF F b(1), of "\<lambda>c. b_blocknr (bufs S c) = blk \<and> b_dev (bufs S c) = 4"] b(2)
    by (simp add: search_hash_find)
qed

lemma search_hash_missing:
  assumes ok: "bcache_ok B S" and none: "\<And>b. b \<in> B \<Longrightarrow> b_blocknr (bufs S b) \<noteq> blk"
  shows "search_hash 4 blk S = Some 0"
  using ok hashed_missing [of "blists S" B _ _ _ "\<lambda>b. b_blocknr (bufs S b) = blk \<and> b_dev (bufs S b) = 4" blk] none
  by (auto simp: search_hash_find bcache_ok_def)

section \<open>Taking and releasing a cached block\<close>

definition take_buffer :: "u32 \<Rightarrow> 'd bstate \<Rightarrow> 'd bstate" where
  "take_buffer b S = locked_buffer b (upd_blists (list_del (FreeLink b)) S)"

lemma getblk_cached:
  assumes "bcache_ok B S" "b \<in> B" "b_blocknr (bufs S b) = blk" "\<not> BH_FLAG b S BH_lock"
  shows "getblk io 4 blk S = Some (b, take_buffer b S)"
proof -
  have "b \<noteq> 0" using assms(1,2) by (auto simp: bcache_ok_def bufs_ok_def)
  then show ?thesis using search_hash_cached [OF assms(1-3)] assms(4)
    by (subst getblk.simps) (simp add: take_buffer_def)
qed

lemma lock_flags [simp]:
  "BH_FLAG c (locked_buffer b S) BH_lock \<longleftrightarrow> c = b \<or> BH_FLAG c S BH_lock"
  "BH_FLAG c (unlocked_buffer b S) BH_lock \<longleftrightarrow> c \<noteq> b \<and> BH_FLAG c S BH_lock"
  "BH_FLAG c (locked_buffer b S) BH_dirty \<longleftrightarrow> BH_FLAG c S BH_dirty"
  "BH_FLAG c (unlocked_buffer b S) BH_dirty \<longleftrightarrow> BH_FLAG c S BH_dirty"
  "BH_FLAG c (upd_blists f S) fl \<longleftrightarrow> BH_FLAG c S fl"
  "BH_FLAG c (upd_area p g S) fl \<longleftrightarrow> BH_FLAG c S fl"
  "BH_FLAG c (S\<lparr>drive := d\<rparr>) fl \<longleftrightarrow> BH_FLAG c S fl"
  by (auto simp: BH_FLAG_simps bupd_defs bit_set_lock bit_clear_lock) (auto simp: BH_FLAG_def)

lemma lock_fields [simp]:
  "b_blocknr (bufs (locked_buffer b S) c) = b_blocknr (bufs S c)"
  "b_dev (bufs (locked_buffer b S) c) = b_dev (bufs S c)"
  "b_data (bufs (locked_buffer b S) c) = b_data (bufs S c)"
  "areas (locked_buffer b S) = areas S" "drive (locked_buffer b S) = drive S"
  "blists (locked_buffer b S) = blists S"
  "b_blocknr (bufs (unlocked_buffer b S) c) = b_blocknr (bufs S c)"
  "b_dev (bufs (unlocked_buffer b S) c) = b_dev (bufs S c)"
  "b_data (bufs (unlocked_buffer b S) c) = b_data (bufs S c)"
  "areas (unlocked_buffer b S) = areas S" "drive (unlocked_buffer b S) = drive S"
  "blists (unlocked_buffer b S) = blists S"
  "bufs (upd_blists f S) = bufs S" "areas (upd_blists f S) = areas S" "drive (upd_blists f S) = drive S"
  "blists (upd_blists f S) = f (blists S)"
  by (auto simp: bupd_defs)

lemma take_buffer_ok:
  assumes ok: "bcache_ok B S" and b: "b \<in> B" "\<not> BH_FLAG b S BH_lock"
  shows "bcache_ok B (take_buffer b S)"
proof -
  obtain F where F: "hashed (blists S) B (\<lambda>b. b_blocknr (bufs S b)) (\<lambda>b. \<not> BH_FLAG b S BH_lock) F" and B: "bufs_ok B S"
    using ok by (auto simp: bcache_ok_def)
  obtain F' where F': "hashed (list_del (FreeLink b) (blists S)) B (\<lambda>b. b_blocknr (bufs S b))
      (\<lambda>c. \<not> BH_FLAG c S BH_lock \<and> c \<noteq> b) F'"
    using hashed_take [OF F b] by blast
  have "bufs_ok B (take_buffer b S)" using B by (simp add: bufs_ok_def take_buffer_def bdata_def)
  then show ?thesis by (rule bcache_okI [OF _ F']) (auto simp: take_buffer_def)
qed

lemma brelse_ok:
  assumes ok: "bcache_ok B S" and b: "b \<in> B" "BH_FLAG b S BH_lock"
  shows "bcache_ok B (brelse b S)"
proof -
  obtain F where F: "hashed (blists S) B (\<lambda>b. b_blocknr (bufs S b)) (\<lambda>b. \<not> BH_FLAG b S BH_lock) F" and B: "bufs_ok B S"
    using ok by (auto simp: bcache_ok_def)
  define f where "f = (if \<not> BH_FLAG b S BH_dirty \<and> \<not> BH_FLAG b S BH_old
      then list_add_tail FreeHead (FreeLink b) else list_add FreeHead (FreeLink b))"
  have eq: "brelse b S = unlocked_buffer b (upd_blists f S)" by (simp add: brelse_def f_def)
  have f: "f = list_add FreeHead (FreeLink b) \<or> f = list_add_tail FreeHead (FreeLink b)" by (simp add: f_def)
  obtain F' where F': "hashed (f (blists S)) B (\<lambda>b. b_blocknr (bufs S b)) (\<lambda>c. \<not> BH_FLAG c S BH_lock \<or> c = b) F'"
    using hashed_release [OF F b(1) _ f] b(2) by blast
  have "bufs_ok B (brelse b S)" using B by (simp add: bufs_ok_def eq bdata_def)
  then show ?thesis by (rule bcache_okI [OF _ F']) (auto simp: eq)
qed

lemma getblk_held:
  assumes "bcache_ok B S" "b \<in> B" "b_blocknr (bufs S b) = blk" "BH_FLAG b S BH_lock"
  shows "getblk io 4 blk S = None"
proof -
  have s: "search_hash 4 blk S = Some b" "b \<noteq> 0"
    using search_hash_cached [OF assms(1-3)] assms(1,2) by (auto simp: bcache_ok_def bufs_ok_def)
  have "getblk io 4 blk S = Some y \<Longrightarrow> False" for y
    by (erule getblk.raw_induct [rotated, where P = "\<lambda>io' dev blk' S' y.
        search_hash dev blk' S' = Some b \<longrightarrow> \<not> BH_FLAG b S' BH_lock", THEN mp, THEN notE])
      (use s assms(4) in \<open>auto split: if_splits bind_splits simp: Let_def\<close>)
  then show ?thesis by (cases "getblk io 4 blk S") auto
qed

section \<open>Creating the cache\<close>

lemma empty_cache_ok: "bcache_ok {} (upd_blists (\<lambda>h. INIT_LIST_HEAD FreeHead (init_queues DEV_NO h)) S)"
  using hashed_init [of "blists S"] by (auto simp: bcache_ok_def bufs_ok_def)

text \<open>One round of the loop of \<^verbatim>\<open>create_buffer_cache\<close>, for a buffer whose memory is new.\<close>

lemma add_buffer_ok:
  assumes ok: "bcache_ok B S" and new: "b \<notin> B" "b \<noteq> 0" "\<And>c. c \<in> B \<Longrightarrow> b_data (bufs S c) \<noteq> b_data (bufs S b)"
    "\<And>c. c \<in> B \<Longrightarrow> b_blocknr (bufs S c) \<noteq> b_blocknr (bufs S b)"
    and b: "b_dev (bufs S b) = 4" "bh_flags (bufs S b) = 0" "length (bdata b S) = 1024"
    "i = unat (b_blocknr (bufs S b)) mod 4"
  shows "bcache_ok (insert b B) (upd_blists (list_add FreeHead (FreeLink b)) (upd_blists (list_add (HashHead i) (HashLink b)) S))"
    (is "bcache_ok _ ?S")
proof -
  obtain F where F: "hashed (blists S) B (\<lambda>b. b_blocknr (bufs S b)) (\<lambda>b. \<not> BH_FLAG b S BH_lock) F" and B: "bufs_ok B S"
    using ok by (auto simp: bcache_ok_def)
  obtain F' where F': "hashed (blists ?S) (insert b B) (\<lambda>b. b_blocknr (bufs S b)) (\<lambda>b. \<not> BH_FLAG b S BH_lock) F'"
    using hashed_insert [OF F new(1), of i] b(2,4) by (auto simp: BH_FLAG_simps)
  have "inj_on (\<lambda>c. b_blocknr (bufs S c)) (insert b B)" "inj_on (\<lambda>c. b_data (bufs S c)) (insert b B)"
    using B new(1) new(3,4) [symmetric] by (auto simp: bufs_ok_def)
  then have "bufs_ok (insert b B) ?S" using B new(2) b(1,3) by (auto simp: bufs_ok_def bdata_def)
  then show ?thesis by (rule bcache_okI [OF _ F']) auto
qed

section \<open>A miss\<close>

lemma getblk_miss:
  assumes ok: "bcache_ok B S" and none: "\<And>b. b \<in> B \<Longrightarrow> b_blocknr (bufs S b) \<noteq> blk" and blk: "5 \<le> blk"
    and idle: "idle_bufs B S \<noteq> {}" and delay: "\<And>b. b \<in> B \<Longrightarrow> \<not> BH_FLAG b S BH_delay"
  shows "\<exists>b S'. getblk io 4 blk S = Some (b, S') \<and> b \<in> B \<and> b_blocknr (bufs S' b) = blk
    \<and> search_hash 4 blk S' = Some 0 \<and> next_of (blists S') FreeHead = HashLink b
    \<and> \<not> list_is_empty (blists S') FreeHead"
proof -
  obtain F where F: "hashed (blists S) B (\<lambda>b. b_blocknr (bufs S b)) (\<lambda>b. \<not> BH_FLAG b S BH_lock) F"
    using ok by (auto simp: bcache_ok_def)
  obtain c where "c \<in> B" "\<not> BH_FLAG c S BH_lock" using idle by (auto simp: idle_bufs_def)
  then obtain b where b: "b \<in> B" "F FreeHead = FreeLink b # tl (F FreeHead)"
    "next_of (blists S) FreeHead = FreeLink b" "\<not> list_is_empty (blists S) FreeHead"
    by (rule hashed_first_free [OF F])
  define i where "i = unat (b_blocknr (bufs S b)) mod 4"
  let ?F = "F(FreeHead := HashLink b # tl (F FreeHead), HashHead i := remove1 (HashLink b) (F (HashHead i)))"
  let ?h = "list_add FreeHead (HashLink b) (list_del (HashLink b) (list_del (FreeLink b) (blists S)))"
  note D = hashed_onto_free_list [OF F b(1,2), folded i_def]
  have "(4::u32) mod blk = 4"
    by (rule word_unat_eq_iff [THEN iffD2]) (use blk in \<open>simp add: unat_mod word_le_nat_alt\<close>)
  then have hash: "hash_fn 4 blk = Some 4" using blk by (auto simp: hash_fn_def word_le_nat_alt)
  define S' where "S' = locked_buffer b (upd_blists (list_add FreeHead (HashLink b)) (upd_buf b
      (\<lambda>h. h\<lparr>b_dev := 4, b_blocknr := blk\<rparr>) (upd_blists (list_del (HashLink b)) (upd_blists (list_del (FreeLink b)) S))))"
  have S': "blists S' = ?h" "b_blocknr (bufs S' c) = (if c = b then blk else b_blocknr (bufs S c))" for c
    by (auto simp: S'_def bupd_defs)
  have "getblk io 4 blk S = Some (b, S')"
    using search_hash_missing [OF ok none] b(3,4) delay [OF b(1)]
    by (subst getblk.simps) (simp add: rehash_buffer_def hash hash_queue_def DEV_NO_def S'_def Let_def)
  moreover have "queue_find (blists S') blk (\<lambda>b. b_blocknr (bufs S' b) = blk \<and> b_dev (bufs S' b) = 4) = Some None"
  proof (rule queue_find_absent [OF D [folded S'(1)]])
    let ?j = "unat blk mod 4"
    have "distinct (F (HashHead i))"
      using F by (intro kl.inv_distinct) (auto simp: hashed_def buf_heads_def i_def)
    then show "set (?F (HashHead ?j)) = HashLink ` ({c \<in> B. unat (b_blocknr (bufs S c)) mod 4 = ?j} - {b})"
      using F by (auto simp: hashed_def i_def)
    show "\<not> (b_blocknr (bufs S' c) = blk \<and> b_dev (bufs S' c) = 4)"
      if "c \<in> {c \<in> B. unat (b_blocknr (bufs S c)) mod 4 = ?j} - {b}" for c
      using that none by (auto simp: S'(2))
  qed
  then have "search_hash 4 blk S' = Some 0" by (simp add: search_hash_find)
  moreover have "next_of (blists S') FreeHead = HashLink b" "\<not> list_is_empty (blists S') FreeHead"
    using kl.first_eq [OF D, of FreeHead] kl.empty_iff [OF D, of FreeHead] by (simp_all add: S'(1) buf_heads_def)
  ultimately show ?thesis using b(1) S'(2) by auto
qed

lemma wild_free_list:
  assumes "search_hash 4 blk S = Some 0" "next_of (blists S) FreeHead = HashLink b" "\<not> list_is_empty (blists S) FreeHead"
  shows "getblk io 4 blk S = None"
  using assms by (subst getblk.simps) simp

section \<open>Blocks on the disk\<close>

lemma bdata_drive [simp]: "bdata b (S\<lparr>drive := d\<rparr>) = bdata b S"
  by (simp add: bdata_def)

lemma bcache_ok_drive [simp]: "bcache_ok B (S\<lparr>drive := d\<rparr>) = bcache_ok B S"
  by (simp add: bcache_ok_def bufs_ok_def)

lemma brelse_fields [simp]:
  "b_blocknr (bufs (brelse b S) c) = b_blocknr (bufs S c)" "b_data (bufs (brelse b S) c) = b_data (bufs S c)"
  "areas (brelse b S) = areas S" "drive (brelse b S) = drive S" "bdata c (brelse b S) = bdata c S"
  "BH_FLAG c (brelse b S) BH_lock \<longleftrightarrow> c \<noteq> b \<and> BH_FLAG c S BH_lock"
  "BH_FLAG c (brelse b S) BH_dirty \<longleftrightarrow> BH_FLAG c S BH_dirty"
  by (auto simp: brelse_def Let_def bdata_def)

lemma take_buffer_fields [simp]:
  "b_blocknr (bufs (take_buffer b S) c) = b_blocknr (bufs S c)" "b_data (bufs (take_buffer b S) c) = b_data (bufs S c)"
  "areas (take_buffer b S) = areas S" "drive (take_buffer b S) = drive S" "bdata c (take_buffer b S) = bdata c S"
  "BH_FLAG c (take_buffer b S) BH_lock \<longleftrightarrow> c = b \<or> BH_FLAG c S BH_lock"
  "BH_FLAG c (take_buffer b S) BH_dirty \<longleftrightarrow> BH_FLAG c S BH_dirty"
  by (auto simp: take_buffer_def bdata_def)

lemma area_ok:
  assumes "bcache_ok B S" "length (f (bdata b S)) = 1024" "b \<in> B"
  shows "bcache_ok B (upd_area (b_data (bufs S b)) f S)"
proof -
  have "bufs (upd_area p f S) = bufs S" "blists (upd_area p f S) = blists S" for p by (simp_all add: bupd_defs)
  moreover have "length (bdata c (upd_area (b_data (bufs S b)) f S)) = 1024" if "c \<in> B" for c
    using assms that by (auto simp: bupd_defs bcache_ok_def bufs_ok_def)
  ultimately show ?thesis using assms(1)
    by (simp add: bcache_ok_def bufs_ok_def)
qed

definition same_ids :: "'d bstate \<Rightarrow> 'd bstate \<Rightarrow> bool" where
  "same_ids S S' \<longleftrightarrow> (\<forall>c. b_data (bufs S' c) = b_data (bufs S c) \<and> b_blocknr (bufs S' c) = b_blocknr (bufs S c)
     \<and> (BH_FLAG c S' BH_dirty \<longleftrightarrow> BH_FLAG c S BH_dirty))"

lemma area_fields [simp]: "bufs (upd_area p f S) = bufs S" "drive (upd_area p f S) = drive S"
  by (simp_all add: upd_area_def)

context ata_drive
begin

lemma bread_cached:
  assumes ok: "bcache_ok B S" and b: "b \<in> B" "b_blocknr (bufs S b) = blk" "\<not> BH_FLAG b S BH_lock"
    and idle: "phase (drive S) = Idle" and blk: "blk < 2 ^ 28" and clean: "\<not> BH_FLAG b S BH_dirty"
  shows "\<exists>S'. bread io 4 blk S = Some (b, S') \<and> bcache_ok B S' \<and> phase (drive S') = Idle \<and> sec (drive S') = sec (drive S)
    \<and> bdata b S' = sec (drive S) blk @ drop 512 (bdata b S) \<and> BH_FLAG b S' BH_lock \<and> same_ids S S'
    \<and> (\<forall>c\<in>B. c \<noteq> b \<longrightarrow> bdata c S' = bdata c S)"
proof -
  let ?T = "take_buffer b S"
  obtain d where d: "disk_read io blk (drive S) = Some (sec (drive S) blk, d)" "sec d = sec (drive S)" "phase d = Idle"
    using rd_sector [OF idle blk] by blast
  let ?S = "upd_area (b_data (bufs S b)) (\<lambda>old. sec (drive S) blk @ drop (length (sec (drive S) blk)) old) (?T\<lparr>drive := d\<rparr>)"
  have "bread io 4 blk S = Some (b, ?S)"
    using getblk_cached [OF ok b] b(2) clean d(1) by (simp add: bread_def)
  moreover have "length (bdata b S) = 1024" using ok b(1) by (simp add: bcache_ok_def bufs_ok_def)
  then have "bcache_ok B ?S"
    using area_ok [of B "?T\<lparr>drive := d\<rparr>" "\<lambda>old. sec (drive S) blk @ drop (length (sec (drive S) blk)) old" b]
      take_buffer_ok [OF ok b(1,3)] b(1) by (simp add: sector_length)
  moreover have "bdata c ?S = bdata c S" if "c \<in> B" "c \<noteq> b" for c
    using that b(1) ok by (auto simp: bupd_defs bcache_ok_def bufs_ok_def inj_on_def)
  moreover have "bdata b ?S = sec (drive S) blk @ drop 512 (bdata b S)"
    by (simp add: upd_area_def bdata_def sector_length)
  moreover have "drive ?S = d" by simp
  moreover have "same_ids S ?S" by (simp add: same_ids_def)
  moreover have "BH_FLAG b ?S BH_lock" by simp
  ultimately show ?thesis using d(2,3) by (intro exI [of _ ?S]) auto
qed

lemma bwrite_held:
  assumes ok: "bcache_ok B S" and b: "b \<in> B" "b_blocknr (bufs S b) = blk" "BH_FLAG b S BH_lock"
    and idle: "phase (drive S) = Idle" and blk: "unat blk + 2 \<le> 2 ^ 24"
  shows "\<exists>d. bwrite io b S = Some (brelse b (S\<lparr>drive := d\<rparr>)) \<and> phase d = Idle
    \<and> sec d = put_data (sec (drive S)) blk (bdata b S)"
proof -
  have "length (bdata b S) = 1024" using ok b(1) by (simp add: bcache_ok_def bufs_ok_def)
  then show ?thesis
    using disk_write_data [OF idle, of BUFFER_SIZE "bdata b S" blk] blk b(2)
    by (auto simp: bwrite_def BUFFER_SIZE_def)
qed

end

lemma put_block:
  fixes blk :: u32
  assumes "length data = 1024" "unat blk + 2 \<le> 2 ^ 24"
  shows "put_data s blk data blk = take 512 data" "put_data s blk data (blk + 1) = drop 512 data"
  using put_data_at [of blk data 0 s] put_data_at [of blk data 1 s] assms
  by (simp_all add: pad_sector_def)

context ata_drive
begin

lemma write_then_read:
  assumes ok: "bcache_ok B S" and b: "b \<in> B" "b_blocknr (bufs S b) = blk" "BH_FLAG b S BH_lock"
    and clean: "\<not> BH_FLAG b S BH_dirty" and idle: "phase (drive S) = Idle" and blk: "unat blk + 2 \<le> 2 ^ 24"
  shows "\<exists>S1 S2. bwrite io b S = Some S1 \<and> bread io 4 blk S1 = Some (b, S2) \<and> bdata b S2 = bdata b S
    \<and> bcache_ok B S1 \<and> bcache_ok B S2 \<and> same_ids S S1 \<and> same_ids S S2
    \<and> (\<forall>c\<in>B. c \<noteq> b \<longrightarrow> bdata c S1 = bdata c S \<and> bdata c S2 = bdata c S) \<and> BH_FLAG b S2 BH_lock
    \<and> sec (drive S1) = put_data (sec (drive S)) blk (bdata b S)"
proof -
  obtain d where d: "bwrite io b S = Some (brelse b (S\<lparr>drive := d\<rparr>))" "phase d = Idle"
    "sec d = put_data (sec (drive S)) blk (bdata b S)"
    using bwrite_held [OF ok b idle blk] by blast
  let ?S = "brelse b (S\<lparr>drive := d\<rparr>)"
  have ok': "bcache_ok B ?S" using brelse_ok [of B "S\<lparr>drive := d\<rparr>" b] ok b(1,3) by simp
  have len: "length (bdata b S) = 1024" using ok b(1) by (simp add: bcache_ok_def bufs_ok_def)
  have "blk < 2 ^ 28" using blk by (simp add: word_less_nat_alt)
  then obtain S2 where S2: "bread io 4 blk ?S = Some (b, S2)" "bcache_ok B S2" "bdata b S2 = sec d blk @ drop 512 (bdata b S)"
    "BH_FLAG b S2 BH_lock" "same_ids ?S S2" "\<forall>c\<in>B. c \<noteq> b \<longrightarrow> bdata c S2 = bdata c S"
    using bread_cached [OF ok' b(1)] b(2) clean d(2) by auto
  moreover have "sec d blk = take 512 (bdata b S)" unfolding d(3) by (rule put_block(1) [OF len blk])
  moreover have "same_ids S ?S" by (simp add: same_ids_def)
  moreover from this S2(5) have "same_ids S S2" by (simp add: same_ids_def)
  ultimately show ?thesis using d ok' by (intro exI [of _ ?S] exI [of _ S2]) auto
qed

end

section \<open>Properties of the cache\<close>

text \<open>C18: in a consistent cache, \<open>getblk\<close> of a cached block that is not held returns its buffer locked and off the free
  list, with every buffer's contents unchanged, and \<open>brelse\<close> makes it available again; both keep the cache
  consistent.\<close>

theorem getblk_brelse_consistent:
  assumes "bcache_ok B S" and "b \<in> B" and "b_blocknr (bufs S b) = blk" and "\<not> BH_FLAG b S BH_lock"
  shows "\<exists>S'. getblk io 4 blk S = Some (b, S') \<and> bcache_ok B S' \<and> idle_bufs B S' = idle_bufs B S - {b}
    \<and> (\<forall>c. bdata c S' = bdata c S) \<and> bcache_ok B (brelse b S') \<and> idle_bufs B (brelse b S') = idle_bufs B S"
proof -
  note ok' = take_buffer_ok [OF assms(1,2,4)]
  show ?thesis
    using getblk_cached [OF assms] ok' brelse_ok [OF ok' assms(2)] assms(2,4)
    by (intro exI [of _ "take_buffer b S"]) (auto simp: idle_bufs_def)
qed

text \<open>C20: \<open>getblk\<close> of a block whose buffer is held already never returns: the wait is a loop, and nothing else runs
  that could release the buffer.\<close>

theorem getblk_held_never_returns:
  assumes "bcache_ok B S" and "b \<in> B" and "\<not> BH_FLAG b S BH_lock"
  shows "\<exists>S'. getblk io 4 (b_blocknr (bufs S b)) S = Some (b, S') \<and> getblk io 4 (b_blocknr (bufs S b)) S' = None"
proof -
  have "getblk io 4 (b_blocknr (bufs S b)) (take_buffer b S) = None"
    by (rule getblk_held [OF take_buffer_ok [OF assms(1,2,3)] assms(2)]) simp_all
  then show ?thesis using getblk_cached [OF assms(1,2) refl assms(3)] by auto
qed

text \<open>C21: a miss destroys the cache.  When \<open>getblk\<close> reuses a free buffer for a block number from 5 on, it hashes with
  swapped arguments and links the buffer's hash node into the free list: the block it returns is not found by a later
  search, and any later miss takes that node for a free buffer, which is a wild pointer.\<close>

theorem getblk_miss_corrupts:
  assumes "bcache_ok B S" and "\<forall>b\<in>B. b_blocknr (bufs S b) \<noteq> blk \<and> \<not> BH_FLAG b S BH_delay" and "5 \<le> blk"
    and "idle_bufs B S \<noteq> {}"
  shows "\<exists>b S'. getblk io 4 blk S = Some (b, S') \<and> b_blocknr (bufs S' b) = blk \<and> search_hash 4 blk S' = Some 0
    \<and> next_of (blists S') FreeHead = HashLink b
    \<and> (\<forall>blk'. search_hash 4 blk' S' = Some 0 \<longrightarrow> getblk io 4 blk' S' = None)"
proof -
  from assms(2) have none: "\<And>b. b \<in> B \<Longrightarrow> b_blocknr (bufs S b) \<noteq> blk" "\<And>b. b \<in> B \<Longrightarrow> \<not> BH_FLAG b S BH_delay"
    by auto
  obtain b S' where "getblk io 4 blk S = Some (b, S')" "b_blocknr (bufs S' b) = blk" "search_hash 4 blk S' = Some 0"
    "next_of (blists S') FreeHead = HashLink b" "\<not> list_is_empty (blists S') FreeHead"
    using getblk_miss [OF assms(1) none(1) assms(3,4) none(2), of io] by blast
  then show ?thesis using wild_free_list [of _ S' b io] by blast
qed


text \<open>\<open>bwrite\<close> uses the block number as a sector number but writes two sectors, and \<open>bread\<close> reads one: writing
  a block replaces the first half of what a later \<open>bread\<close> of the next block returns by the second half of the
  written block.\<close>

theorem bwrite_overwrites_next_block:
  assumes "ata_drive io regs sec phase busy" and "bcache_ok B S" and "b \<in> B" and "c \<in> B"
    and "b_blocknr (bufs S b) = blk" and "b_blocknr (bufs S c) = blk + 1"
    and "BH_FLAG b S BH_lock" and "\<not> BH_FLAG c S BH_lock" and "\<not> BH_FLAG c S BH_dirty"
    and "phase (drive S) = Idle" and "unat blk + 2 \<le> 2 ^ 24"
  shows "\<exists>S1 S2. bwrite io b S = Some S1 \<and> bread io 4 (blk + 1) S1 = Some (c, S2)
    \<and> take 512 (bdata c S2) = drop 512 (bdata b S)"
proof -
  obtain d where d: "bwrite io b S = Some (brelse b (S\<lparr>drive := d\<rparr>))" "phase d = Idle"
    "sec d = put_data (sec (drive S)) blk (bdata b S)"
    using ata_drive.bwrite_held [OF assms(1-3,5,7,10,11)] by blast
  let ?S = "brelse b (S\<lparr>drive := d\<rparr>)"
  have ok: "bcache_ok B ?S" using brelse_ok [of B "S\<lparr>drive := d\<rparr>" b] assms(2,3,7) by simp
  have len: "length (bdata b S) = 1024" using assms(2,3) by (simp add: bcache_ok_def bufs_ok_def)
  have "unat (blk + 1) = unat blk + 1" using assms(11) by (intro unat_Suc_u32) simp
  then have "blk + 1 < 2 ^ 28" using assms(11) by (simp add: word_less_nat_alt)
  then obtain S2 where "bread io 4 (blk + 1) ?S = Some (c, S2)" "bdata c S2 = sec d (blk + 1) @ drop 512 (bdata c S)"
    using ata_drive.bread_cached [OF assms(1) ok assms(4)] assms(6,8,9) d(2) by auto
  moreover have "sec d (blk + 1) = drop 512 (bdata b S)" unfolding d(3) by (rule put_block(2) [OF len assms(11)])
  ultimately show ?thesis using d(1) len by auto
qed

definition sample_bufs :: "u32 \<Rightarrow> buffer_head" where
  "sample_bufs b = \<lparr>bh_flags = 0, b_count = 0, b_data = (if b = 100 then 5000 else 7000), b_dev = 4,
     b_blocknr = (if b = 100 then 6 else 7)\<rparr>"

definition sample_cache0 :: "pio_drive bstate" where
  "sample_cache0 = upd_blists (\<lambda>h. INIT_LIST_HEAD FreeHead (init_queues DEV_NO h))
     \<lparr>bufs = sample_bufs, areas = (\<lambda>_. replicate 1024 1), blists = \<lparr>next_of = id, prev_of = id\<rparr>,
      filesys_start = 0, fs_start_set = True, drive = blank_drive, bslab = sample_slab\<rparr>"

definition link_buf :: "u32 \<Rightarrow> nat \<Rightarrow> 'd bstate \<Rightarrow> 'd bstate" where
  "link_buf b i S = upd_blists (list_add FreeHead (FreeLink b)) (upd_blists (list_add (HashHead i) (HashLink b)) S)"

definition sample_cache :: "pio_drive bstate" where
  "sample_cache = link_buf 200 3 (link_buf 100 2 sample_cache0)"

lemma sample_cache_bufs: "bufs sample_cache = sample_bufs" "areas sample_cache = (\<lambda>_. replicate 1024 1)"
  "drive sample_cache = blank_drive"
  by (simp_all add: sample_cache_def link_buf_def sample_cache0_def)

lemma sample_cache_ok: "bcache_ok {100, 200} sample_cache"
proof -
  have "bcache_ok {100} (link_buf 100 2 sample_cache0)"
    unfolding link_buf_def
    by (rule add_buffer_ok) (simp_all add: sample_cache0_def empty_cache_ok, simp_all add: sample_bufs_def bdata_def)
  then have "bcache_ok (insert 200 {100}) (link_buf 200 3 (link_buf 100 2 sample_cache0))"
    unfolding link_buf_def [of 200]
    by (rule add_buffer_ok) (simp_all add: link_buf_def sample_cache0_def sample_bufs_def bdata_def)
  then show ?thesis by (simp add: sample_cache_def insert_commute)
qed

lemma sample_flags: "BH_FLAG b sample_cache BH_lock = False" "BH_FLAG b sample_cache BH_delay = False"
  "BH_FLAG b sample_cache BH_dirty = False"
  by (simp_all add: BH_FLAG_simps sample_cache_bufs sample_bufs_def)

theorem getblk_brelse_consistent_witness:
  "\<exists>S'. getblk pio_io 4 6 sample_cache = Some (100, S') \<and> bcache_ok {100, 200} S'
    \<and> idle_bufs {100, 200} S' = idle_bufs {100, 200} sample_cache - {100}
    \<and> (\<forall>c. bdata c S' = bdata c sample_cache) \<and> bcache_ok {100, 200} (brelse 100 S')
    \<and> idle_bufs {100, 200} (brelse 100 S') = idle_bufs {100, 200} sample_cache"
  using getblk_brelse_consistent [OF sample_cache_ok, of 100 6 pio_io]
  by (simp add: sample_flags sample_cache_bufs sample_bufs_def)

theorem getblk_held_never_returns_witness:
  "\<exists>S'. getblk pio_io 4 6 sample_cache = Some (100, S') \<and> getblk pio_io 4 6 S' = None"
  using getblk_held_never_returns [OF sample_cache_ok, of 100 pio_io]
  by (simp add: sample_flags sample_cache_bufs sample_bufs_def)

theorem getblk_miss_corrupts_witness:
  "\<exists>b S'. getblk pio_io 4 16 sample_cache = Some (b, S') \<and> b_blocknr (bufs S' b) = 16 \<and> search_hash 4 16 S' = Some 0
    \<and> next_of (blists S') FreeHead = HashLink b
    \<and> (\<forall>blk'. search_hash 4 blk' S' = Some 0 \<longrightarrow> getblk pio_io 4 blk' S' = None)"
proof -
  have "idle_bufs {100, 200} sample_cache = {100, 200}" by (auto simp: idle_bufs_def sample_flags)
  then show ?thesis
    using getblk_miss_corrupts [OF sample_cache_ok, of 16 pio_io]
    by (simp add: sample_flags sample_cache_bufs sample_bufs_def)
qed

definition held_cache :: "pio_drive bstate" where
  "held_cache = take_buffer 100 sample_cache"

lemma held_cache_ok: "bcache_ok {100, 200} held_cache"
  unfolding held_cache_def by (rule take_buffer_ok [OF sample_cache_ok]) (simp_all add: sample_flags)

lemma held_cache_fields:
  "BH_FLAG b held_cache BH_lock \<longleftrightarrow> b = 100" "BH_FLAG b held_cache BH_dirty = False"
  "drive held_cache = blank_drive" "b_blocknr (bufs held_cache b) = b_blocknr (sample_bufs b)"
  by (simp_all add: held_cache_def sample_flags sample_cache_bufs)


theorem bwrite_overwrites_next_block_witness:
  "\<exists>S1 S2. bwrite pio_io 100 held_cache = Some S1 \<and> bread pio_io 4 7 S1 = Some (200, S2)
    \<and> take 512 (bdata 200 S2) = drop 512 (bdata 100 held_cache)"
  using bwrite_overwrites_next_block [OF pio.ata_drive_axioms held_cache_ok, of 100 200 6]
  by (simp add: held_cache_fields sample_bufs_def blank_drive_def)

end
