(* ===== verification/Bytes.thy ===== *)
theory Bytes
  imports Ports
begin

text \<open>
  Little-endian fields of C structures in a list of bytes: reading and writing 16- and 32-bit words at an offset,
  with the read-over-write laws that carry the round trips of the on-disk structures.
\<close>

definition bytes32 :: "u32 \<Rightarrow> u8 list" where
  "bytes32 w = [ucast w, ucast (drop_bit 8 w), ucast (drop_bit 16 w), ucast (drop_bit 24 w)]"

definition word32 :: "u8 \<Rightarrow> u8 \<Rightarrow> u8 \<Rightarrow> u8 \<Rightarrow> u32" where
  "word32 a b c d = ucast a OR push_bit 8 (ucast b) OR push_bit 16 (ucast c) OR push_bit 24 (ucast d)"

definition get16 :: "u8 list \<Rightarrow> nat \<Rightarrow> u16" where
  "get16 bs i = word_of_bytes (bs ! i) (bs ! (i + 1))"

definition get32 :: "u8 list \<Rightarrow> nat \<Rightarrow> u32" where
  "get32 bs i = word32 (bs ! i) (bs ! (i + 1)) (bs ! (i + 2)) (bs ! (i + 3))"

definition put_bytes :: "nat \<Rightarrow> u8 list \<Rightarrow> u8 list \<Rightarrow> u8 list" where
  "put_bytes i xs bs = take i bs @ xs @ drop (i + length xs) bs"

definition put32 :: "nat \<Rightarrow> u32 \<Rightarrow> u8 list \<Rightarrow> u8 list" where
  "put32 i w bs = put_bytes i (bytes32 w) bs"

definition slice :: "nat \<Rightarrow> nat \<Rightarrow> u8 list \<Rightarrow> u8 list" where
  "slice i n bs = take n (drop i bs)"

lemma length_bytes [simp]: "length (bytes32 w) = 4" "length (bytes_of_word v) = 2"
  by (simp_all add: bytes32_def bytes_of_word_def)

lemma word32_bytes [simp]: "word32 (ucast w) (ucast (drop_bit 8 w)) (ucast (drop_bit 16 w)) (ucast (drop_bit 24 w)) = w"
proof -
  have "w = take_bit 8 w OR push_bit 8 (take_bit 8 (drop_bit 8 w)) OR push_bit 16 (take_bit 8 (drop_bit 16 w))
      OR push_bit 24 (take_bit 8 (drop_bit 24 w))"
    by (rule bit_word_eqI, rename_tac n, case_tac "n < 8"; case_tac "n < 16"; case_tac "n < 24")
      (auto simp: bit_simps not_less)
  moreover have "ucast (ucast x :: u8) = (take_bit 8 x :: u32)" for x :: u32
    by (rule bit_word_eqI) (auto simp: bit_simps)
  ultimately show ?thesis by (simp only: word32_def)
qed

lemma word16_bytes [simp]: "word_of_bytes (bytes_of_word w ! 0) (bytes_of_word w ! Suc 0) = w"
  unfolding word_of_bytes_def bytes_of_word_def
  by (rule bit_word_eqI) (auto simp: bit_simps not_less)

lemma get32_here [simp]: "get32 (bytes32 w @ bs) 0 = w"
  by (simp add: get32_def bytes32_def)

lemma get16_here [simp]: "get16 (bytes_of_word w @ bs) 0 = w"
  by (simp add: get16_def nth_append)

lemma get32_skip: "length xs \<le> i \<Longrightarrow> get32 (xs @ bs) i = get32 bs (i - length xs)"
  by (simp add: get32_def nth_append Suc_diff_le)

lemma get16_skip: "length xs \<le> i \<Longrightarrow> get16 (xs @ bs) i = get16 bs (i - length xs)"
  by (simp add: get16_def nth_append Suc_diff_le)

lemma get32_words:
  "k < length ws \<Longrightarrow> get32 (concat (map bytes32 ws) @ bs) (4 * k) = ws ! k"
proof (induction ws arbitrary: k)
  case (Cons w ws)
  then show ?case by (cases k) (simp_all add: get32_skip)
qed simp

lemma length_words [simp]: "length (concat (map bytes32 ws)) = 4 * length ws"
  by (induction ws) simp_all

lemma length_put_bytes [simp]: "i + length xs \<le> length bs \<Longrightarrow> length (put_bytes i xs bs) = length bs"
  by (simp add: put_bytes_def)

lemma slice_put [simp]: "i + length xs \<le> length bs \<Longrightarrow> n = length xs \<Longrightarrow> slice i n (put_bytes i xs bs) = xs"
  by (simp add: slice_def put_bytes_def)

lemma slice_put_other:
  assumes "i + length xs \<le> length bs" "j + n \<le> i \<or> i + length xs \<le> j"
  shows "slice j n (put_bytes i xs bs) = slice j n bs"
proof (cases "j + n \<le> i")
  case True
  then have "take n (drop j (take i bs)) = take n (drop j bs)" by (simp add: take_drop min_def)
  then show ?thesis using True assms(1) by (simp add: slice_def put_bytes_def)
next
  case False
  then have "i + length xs \<le> j" using assms(2) by simp
  then show ?thesis using assms(1) by (simp add: slice_def put_bytes_def)
qed

lemma length_slice [simp]: "i + n \<le> length bs \<Longrightarrow> length (slice i n bs) = n"
  by (simp add: slice_def)

end
