(* ===== verification/Ext2_Layout.thy ===== *)
theory Ext2_Layout
  imports Buffer_Ok Bytes
begin

text \<open>
  The on-disk structures of the ext2 file system (\<^verbatim>\<open>include/fs.h\<close>), the globals of \<^verbatim>\<open>fs/ext2/fs.c\<close> and its block
  transfers.

  The super block is the list of its 1024 bytes, with the names of its fields for their offsets; a group descriptor
  is a record with an encoding in 32 bytes.  Block \<open>n\<close> of the file system occupies two sectors from
  \<open>filesys_start + 2 * n\<close> when the block size is 1024; \<open>disk_blocks\<close> is the disk seen as an array of such blocks.
\<close>

section \<open>Structures\<close>

definition EXT2_SUPER_MAGIC :: u16 where "EXT2_SUPER_MAGIC = 0xef53"
definition EXT2_VALID_FS :: u16 where "EXT2_VALID_FS = 1"
definition EXT2_ERRORS_RO :: u16 where "EXT2_ERRORS_RO = 2"
definition EXT2_OS_COW :: u32 where "EXT2_OS_COW = 0x100"
definition EXT2_GOOD_OLD_FIRST_INO :: u32 where "EXT2_GOOD_OLD_FIRST_INO = 11"
definition EXT2_GOOD_OLD_INODE_SIZE :: u16 where "EXT2_GOOD_OLD_INODE_SIZE = 128"
definition EXT2_FREE_INO_START :: u8 where "EXT2_FREE_INO_START = 11"
definition EXT2_BLK_SIZE :: nat where "EXT2_BLK_SIZE = 1024"
definition EXT2_BLOCKS_PER_GROUP :: nat where "EXT2_BLOCKS_PER_GROUP = 8192"
definition EXT2_BYTES_PER_INODE :: nat where "EXT2_BYTES_PER_INODE = 8192"
definition EXT2_INODES_PER_GROUP :: nat where
  "EXT2_INODES_PER_GROUP = (EXT2_BLOCKS_PER_GROUP * EXT2_BLK_SIZE) div EXT2_BYTES_PER_INODE"
definition BGDT_BLK_NO :: u32 where "BGDT_BLK_NO = 2"

lemmas ext2_consts = EXT2_BLK_SIZE_def EXT2_BLOCKS_PER_GROUP_def EXT2_BYTES_PER_INODE_def EXT2_INODES_PER_GROUP_def

definition mb_to_lba :: "u32 \<Rightarrow> u32" where
  "mb_to_lba mb = mb * 1024 * 2"

text \<open>Offsets of the fields of \<^verbatim>\<open>ext2_super_block\<close>.\<close>

definition s_inodes_count :: nat where "s_inodes_count = 0"
definition s_blocks_count :: nat where "s_blocks_count = 4"
definition s_free_blocks_count :: nat where "s_free_blocks_count = 12"
definition s_free_inodes_count :: nat where "s_free_inodes_count = 16"
definition s_first_data_block :: nat where "s_first_data_block = 20"
definition s_log_block_size :: nat where "s_log_block_size = 24"
definition s_log_frag_size :: nat where "s_log_frag_size = 28"
definition s_blocks_per_group :: nat where "s_blocks_per_group = 32"
definition s_frags_per_group :: nat where "s_frags_per_group = 36"
definition s_inodes_per_group :: nat where "s_inodes_per_group = 40"
definition s_magic :: nat where "s_magic = 56"
definition s_state :: nat where "s_state = 58"
definition s_errors :: nat where "s_errors = 60"
definition s_checkinterval :: nat where "s_checkinterval = 68"
definition s_creator_os :: nat where "s_creator_os = 72"
definition s_rev_level :: nat where "s_rev_level = 76"
definition s_first_ino :: nat where "s_first_ino = 84"
definition s_inode_size :: nat where "s_inode_size = 88"
definition s_block_group_nr :: nat where "s_block_group_nr = 90"

lemmas ext2_fields = s_inodes_count_def s_blocks_count_def s_free_blocks_count_def s_free_inodes_count_def
  s_first_data_block_def s_log_block_size_def s_log_frag_size_def s_blocks_per_group_def s_frags_per_group_def
  s_inodes_per_group_def s_magic_def s_state_def s_errors_def s_checkinterval_def s_creator_os_def s_rev_level_def
  s_first_ino_def s_inode_size_def s_block_group_nr_def

record bgdesc_t =
  bg_block_bitmap :: u32
  bg_inode_bitmap :: u32
  bg_inode_table :: u32
  bg_free_blocks_count :: u16
  bg_free_inodes_count :: u16
  bg_used_dirs_count :: u16
  bg_pad :: u16
  bg_reserved :: "u8 list"

definition encode_bgdesc :: "bgdesc_t \<Rightarrow> u8 list" where
  "encode_bgdesc d = bytes32 (bg_block_bitmap d) @ bytes32 (bg_inode_bitmap d) @ bytes32 (bg_inode_table d)
     @ bytes_of_word (bg_free_blocks_count d) @ bytes_of_word (bg_free_inodes_count d)
     @ bytes_of_word (bg_used_dirs_count d) @ bytes_of_word (bg_pad d) @ bg_reserved d"

definition decode_bgdesc :: "u8 list \<Rightarrow> bgdesc_t" where
  "decode_bgdesc bs =
     \<lparr>bg_block_bitmap = get32 bs 0, bg_inode_bitmap = get32 bs 4, bg_inode_table = get32 bs 8,
      bg_free_blocks_count = get16 bs 12, bg_free_inodes_count = get16 bs 14, bg_used_dirs_count = get16 bs 16,
      bg_pad = get16 bs 18, bg_reserved = slice 20 12 bs\<rparr>"

definition zero_bgdesc :: bgdesc_t where
  "zero_bgdesc = decode_bgdesc (replicate 32 0)"

lemma nth_put_bytes:
  assumes "i + length xs \<le> length bs"
  shows "put_bytes i xs bs ! k = (if k < i then bs ! k else if k < i + length xs then xs ! (k - i) else bs ! k)"
  using assms by (auto simp: put_bytes_def nth_append)

definition put16 :: "nat \<Rightarrow> u16 \<Rightarrow> u8 list \<Rightarrow> u8 list" where
  "put16 i w bs = put_bytes i (bytes_of_word w) bs"

lemma get_put [simp]: "i + 4 \<le> length bs \<Longrightarrow> get32 (put32 i w bs) i = w" "i + 2 \<le> length bs \<Longrightarrow> get16 (put16 i v bs) i = v"
  by (simp_all add: get32_def put32_def get16_def put16_def nth_put_bytes) (simp add: bytes32_def)

lemma get32_put_other: "i + 4 \<le> length bs \<Longrightarrow> j + 4 \<le> i \<or> i + 4 \<le> j \<Longrightarrow> get32 (put32 i w bs) j = get32 bs j"
  "i + 2 \<le> length bs \<Longrightarrow> j + 4 \<le> i \<or> i + 2 \<le> j \<Longrightarrow> get32 (put16 i v bs) j = get32 bs j"
  by (auto simp: get32_def put32_def put16_def nth_put_bytes)

lemma get16_put_other: "i + 4 \<le> length bs \<Longrightarrow> j + 2 \<le> i \<or> i + 4 \<le> j \<Longrightarrow> get16 (put32 i w bs) j = get16 bs j"
  "i + 2 \<le> length bs \<Longrightarrow> j + 2 \<le> i \<or> i + 2 \<le> j \<Longrightarrow> get16 (put16 i v bs) j = get16 bs j"
  by (auto simp: get16_def put32_def put16_def nth_put_bytes)

lemma length_put [simp]: "i + 4 \<le> length bs \<Longrightarrow> length (put32 i w bs) = length bs"
  "i + 2 \<le> length bs \<Longrightarrow> length (put16 i v bs) = length bs"
  by (simp_all add: put32_def put16_def)

section \<open>Globals and block transfers\<close>

text \<open>\<^verbatim>\<open>filesys_start\<close> and \<^verbatim>\<open>fs_start_set\<close> are fields of \<open>bcache\<close>, next to the drive.\<close>

record 'd ext2 =
  bcache :: "'d bstate"
  super :: "u8 list"
  bgdt :: "bgdesc_t list"
  n_block_groups :: u16
  g_n_block_groups :: u32
  g_total_blocks :: u32
  g_blocks_in_last_group :: u32

definition super_word :: "nat \<Rightarrow> 'd ext2 \<Rightarrow> u32" where
  "super_word f E = get32 (super E) f"

definition S_BLOCK_SIZE :: "'d ext2 \<Rightarrow> u32" where
  "S_BLOCK_SIZE E = push_bit (unat (super_word s_log_block_size E) mod 32) 1024"

definition SECTORS_PER_BLK :: "'d ext2 \<Rightarrow> int" where
  "SECTORS_PER_BLK E = sint (S_BLOCK_SIZE E) div 512"

definition upd_drive :: "'d \<Rightarrow> 'd ext2 \<Rightarrow> 'd ext2" where
  "upd_drive d E = E\<lparr>bcache := (bcache E)\<lparr>drive := d\<rparr>\<rparr>"

abbreviation edrive :: "'d ext2 \<Rightarrow> 'd" where
  "edrive E \<equiv> drive (bcache E)"

definition ext2_lba :: "u32 \<Rightarrow> 'd ext2 \<Rightarrow> u32" where
  "ext2_lba block_num E = filesys_start (bcache E) + block_num * of_int (SECTORS_PER_BLK E)"

text \<open>The value is the returned code and the bytes stored in the buffer.\<close>

definition ext2_disk_read_blk :: "'d io_ports \<Rightarrow> u32 \<Rightarrow> 'd ext2 \<Rightarrow> (int \<times> u8 list \<times> 'd ext2) option" where
  "ext2_disk_read_blk io block_num E =
     (if \<not> fs_start_set (bcache E) then Some (1, [], E)
      else do {
        (data, d) \<leftarrow> read_blk_sectors io (ext2_lba block_num E) (nat (SECTORS_PER_BLK E)) (edrive E);
        Some (0, data, upd_drive d E)
      })"

definition ext2_disk_write_blk :: "'d io_ports \<Rightarrow> u32 \<Rightarrow> u8 list \<Rightarrow> 'd ext2 \<Rightarrow> (int option \<times> 'd ext2) option" where
  "ext2_disk_write_blk io block_num buf E =
     (if \<not> fs_start_set (bcache E) then Some (Some (- 1), E)
      else do {
        d \<leftarrow> write_blk_sectors io (ext2_lba block_num E) buf (nat (SECTORS_PER_BLK E)) (edrive E);
        Some (None, upd_drive d E)
      })"

definition disk_write_bn :: "'d io_ports \<Rightarrow> u32 \<Rightarrow> u8 list \<Rightarrow> u16 \<Rightarrow> 'd ext2 \<Rightarrow> (int option \<times> 'd ext2) option" where
  "disk_write_bn io block_num buf len E =
     (if \<not> fs_start_set (bcache E) then Some (Some (- 1), E)
      else if sint (S_BLOCK_SIZE E) < int (unat len) then Some (Some (- 1), E)
      else do {
        d \<leftarrow> disk_write io (ext2_lba block_num E) buf (ucast len) (edrive E);
        Some (None, upd_drive d E)
      })"

definition fs_start_to_lba_superblk :: "u32 \<Rightarrow> 'd ext2 \<Rightarrow> u32" where
  "fs_start_to_lba_superblk mb E = mb_to_lba mb + of_int (SECTORS_PER_BLK E)"

section \<open>Reading the metadata\<close>

text \<open>\<^verbatim>\<open>sys_exit\<close> does not return.\<close>

definition set_superblock :: "'d io_ports \<Rightarrow> 'd ext2 \<Rightarrow> 'd ext2 option" where
  "set_superblock io E = do {
     (r, b, E) \<leftarrow> ext2_disk_read_blk io 2 E;
     if r \<noteq> 0 then None
     else if length b = 1024 then Some (E\<lparr>super := b\<rparr>)
     else None
   }"

primrec copy_bgdt :: "nat \<Rightarrow> u8 list \<Rightarrow> bgdesc_t list \<Rightarrow> bgdesc_t list" where
  "copy_bgdt 0 buf table = table"
| "copy_bgdt (Suc n) buf table = (copy_bgdt n buf table)[n := decode_bgdesc (slice (32 * n) 32 buf)]"

definition set_bgdt :: "'d io_ports \<Rightarrow> 'd ext2 \<Rightarrow> 'd ext2 option" where
  "set_bgdt io E = do {
     let block_count = super_word s_blocks_count E;
     let bpg = super_word s_blocks_per_group E;
     if bpg = 0 then None
     else do {
       let E = E\<lparr>n_block_groups := ucast (block_count div bpg)\<rparr>;
       let E = (if block_count mod bpg \<noteq> 0 then E\<lparr>n_block_groups := n_block_groups E + 1\<rparr> else E);
       (_, buf, E) \<leftarrow> ext2_disk_read_blk io 2 E;
       if unat (n_block_groups E) * 32 \<le> length buf \<and> unat (n_block_groups E) \<le> length (bgdt E)
       then Some (E\<lparr>bgdt := copy_bgdt (unat (n_block_groups E)) buf (bgdt E)\<rparr>)
       else None
     }
   }"

definition read_fs :: "'d io_ports \<Rightarrow> u32 \<Rightarrow> 'd ext2 \<Rightarrow> 'd ext2 option" where
  "read_fs io fs_start_in_mb E = do {
     let E = E\<lparr>bcache := (bcache E)\<lparr>filesys_start := mb_to_lba fs_start_in_mb, fs_start_set := True\<rparr>\<rparr>;
     E \<leftarrow> set_superblock io E;
     set_bgdt io E
   }"

section \<open>The disk as an array of blocks\<close>

definition disk_blocks :: "nat \<Rightarrow> u32 \<Rightarrow> (u32 \<Rightarrow> u8 list) \<Rightarrow> nat \<Rightarrow> u8 list" where
  "disk_blocks N base s n =
     (if n < N then s (base + 2 * of_nat n) @ s (base + 2 * of_nat n + 1) else [])"

lemma block_lba:
  fixes base :: u32
  assumes "unat base + 2 * N \<le> 2 ^ 24" "n < N"
  shows "unat (base + 2 * of_nat n) = unat base + 2 * n" and "unat (base + 2 * of_nat n + 1) = unat base + 2 * n + 1"
proof -
  have 1: "base + 2 * of_nat n = base + of_nat (2 * n)" "base + 2 * of_nat n + 1 = base + of_nat (2 * n + 1)" by (simp_all add: algebra_simps)
  show "unat (base + 2 * of_nat n) = unat base + 2 * n"
    unfolding 1 by (rule sectors_below [where n = "2 * N"]) (use assms in auto)
  show "unat (base + 2 * of_nat n + 1) = unat base + 2 * n + 1"
    unfolding 1(2) using sectors_below(1) [OF assms(1), of "2 * n + 1"] assms(2) by linarith
qed


lemma block_lba_inj:
  fixes base :: u32
  assumes "unat base + 2 * N \<le> 2 ^ 24" "m < N" "n < N"
  shows "base + 2 * of_nat m = base + 2 * of_nat n \<longleftrightarrow> m = n" "base + 2 * of_nat m + 1 = base + 2 * of_nat n + 1 \<longleftrightarrow> m = n"
    "base + 2 * of_nat m \<noteq> base + 2 * of_nat n + 1"
proof -
  note b = block_lba [OF assms(1,2)] block_lba [OF assms(1,3)]
  have "m = n" if "base + 2 * of_nat m = base + 2 * of_nat n"
    using arg_cong [OF that, of unat] unfolding b by simp
  then show "base + 2 * of_nat m = base + 2 * of_nat n \<longleftrightarrow> m = n" by blast
  have "m = n" if "base + 2 * of_nat m + 1 = base + 2 * of_nat n + 1"
    using arg_cong [OF that, of unat] unfolding b by simp
  then show "base + 2 * of_nat m + 1 = base + 2 * of_nat n + 1 \<longleftrightarrow> m = n" by blast
  have "unat base + 2 * m \<noteq> unat base + 2 * n + 1" by presburger
  then show "base + 2 * of_nat m \<noteq> base + 2 * of_nat n + 1" using b(1,4) by metis
qed

lemma disk_blocks_upd:
  assumes "unat base + 2 * N \<le> 2 ^ 24" "n < N"
  shows "disk_blocks N base (s(base + 2 * of_nat n := xs, base + 2 * of_nat n + 1 := ys)) = (disk_blocks N base s)(n := xs @ ys)"
proof
  fix m
  show "disk_blocks N base (s(base + 2 * of_nat n := xs, base + 2 * of_nat n + 1 := ys)) m
      = ((disk_blocks N base s)(n := xs @ ys)) m"
    using block_lba_inj [OF assms(1) _ assms(2), of m] block_lba_inj(3) [OF assms, of m] assms(2)
    by (cases "m < N"; cases "m = n") (auto simp: disk_blocks_def)
qed

lemma put_data_block:
  assumes "length buf = 1024"
  shows "put_data s l buf = s(l := take 512 buf, l + 1 := drop 512 buf)"
proof -
  have "buf \<noteq> []" "drop 512 buf \<noteq> []" using assms by auto
  with assms show ?thesis by (simp add: put_data.simps pad_sector_def)
qed

context ata_drive
begin

lemma write_block:
  assumes "phase d = Idle" "unat base + 2 * N \<le> 2 ^ 24" "n < N" "length buf = 1024"
  shows "\<exists>d'. disk_write io (base + 2 * of_nat n) buf 1024 d = Some d' \<and> phase d' = Idle
    \<and> disk_blocks N base (sec d') = (disk_blocks N base (sec d))(n := buf)"
proof -
  have "unat (base + 2 * of_nat n) + (unat (1024 :: u32) + 511) div 512 \<le> 2 ^ 24"
    using block_lba [OF assms(2,3)] assms(2,3) by simp
  then obtain d' where d': "disk_write io (base + 2 * of_nat n) buf 1024 d = Some d'" "phase d' = Idle"
    "sec d' = put_data (sec d) (base + 2 * of_nat n) buf"
    using disk_write_data [OF assms(1), of 1024 buf "base + 2 * of_nat n"] assms(4) by auto
  show ?thesis
    using d' disk_blocks_upd [OF assms(2,3), of "sec d" "take 512 buf" "drop 512 buf"]
    by (simp add: put_data_block [OF assms(4)] del: fun_upd_apply)
qed

lemma write_blk:
  assumes "phase d = Idle" "unat base + 2 * N \<le> 2 ^ 24" "n < N" "length buf = 1024"
  shows "\<exists>d'. write_blk_sectors io (base + 2 * of_nat n) buf 2 d = Some d' \<and> phase d' = Idle
    \<and> disk_blocks N base (sec d') = (disk_blocks N base (sec d))(n := buf)"
proof -
  let ?l = "base + 2 * of_nat n :: u32"
  note l = block_lba [OF assms(2,3)]
  have one: "put_data s k (take 512 b) = s(k := take 512 b)" if "512 \<le> length b" for s k and b :: "u8 list"
    using that by (subst put_data.simps) (auto simp: put_data.simps pad_sector_def)
  have "unat ?l + 1 \<le> 2 ^ 24" "unat (?l + 1) + 1 \<le> 2 ^ 24" using l assms(2,3) by linarith+
  note fits = this
  obtain d1 where d1: "disk_write io ?l buf 512 d = Some d1" "phase d1 = Idle" "sec d1 = (sec d)(?l := take 512 buf)"
    using disk_write_data [OF assms(1), of 512 buf ?l] fits assms(4) one [of buf] by auto
  obtain d2 where d2: "disk_write io (?l + 1) (drop 512 buf) 512 d1 = Some d2" "phase d2 = Idle"
    "sec d2 = (sec d1)(?l + 1 := drop 512 buf)"
    using disk_write_data [OF d1(2), of 512 "drop 512 buf" "?l + 1"] fits assms(4) one [of "drop 512 buf"] by auto
  show ?thesis
    using d1 d2 disk_blocks_upd [OF assms(2,3), of "sec d" "take 512 buf" "drop 512 buf"]
    by (simp add: numeral_2_eq_2 del: fun_upd_apply)
qed

lemma read_blk:
  assumes "phase d = Idle" "unat base + 2 * N \<le> 2 ^ 24" "n < N"
  shows "\<exists>d'. read_blk_sectors io (base + 2 * of_nat n) 2 d = Some (disk_blocks N base (sec d) n, d') \<and> phase d' = Idle
    \<and> sec d' = sec d"
proof -
  let ?l = "base + 2 * of_nat n :: u32"
  have l: "?l < 2 ^ 28" "?l + 1 < 2 ^ 28"
    using block_lba [OF assms(2,3)] assms(2,3) by (simp_all add: word_less_nat_alt)
  obtain d1 where d1: "disk_read io ?l d = Some (sec d ?l, d1)" "sec d1 = sec d" "phase d1 = Idle"
    using rd_sector [OF assms(1) l(1)] by blast
  obtain d2 where "disk_read io (?l + 1) d1 = Some (sec d (?l + 1), d2)" "sec d2 = sec d" "phase d2 = Idle"
    using rd_sector [OF d1(3) l(2)] d1(2) by auto
  with d1 assms(3) show ?thesis by (simp add: numeral_2_eq_2 disk_blocks_def)
qed

lemma length_disk_block: "n < N \<Longrightarrow> length (disk_blocks N base (sec d) n) = 1024"
  by (simp add: disk_blocks_def sector_length)

end

section \<open>Block transfers with blocks of 1024 bytes\<close>

text \<open>\<open>mounted phase N E\<close>: the globals are set, blocks have 1024 bytes and the first \<open>N\<close> of them are on the drive.\<close>

definition mounted :: "('d \<Rightarrow> ata_phase) \<Rightarrow> nat \<Rightarrow> 'd ext2 \<Rightarrow> bool" where
  "mounted phase N E \<longleftrightarrow> fs_start_set (bcache E) \<and> phase (edrive E) = Idle \<and> length (super E) = 1024
     \<and> super_word s_log_block_size E = 0 \<and> unat (filesys_start (bcache E)) + 2 * N \<le> 2 ^ 24"

definition fs_blocks :: "('d \<Rightarrow> u32 \<Rightarrow> u8 list) \<Rightarrow> nat \<Rightarrow> 'd ext2 \<Rightarrow> nat \<Rightarrow> u8 list" where
  "fs_blocks sec N E = disk_blocks N (filesys_start (bcache E)) (sec (edrive E))"

lemma sectors_1024: "super_word s_log_block_size E = 0 \<Longrightarrow> SECTORS_PER_BLK E = 2"
  by (simp add: SECTORS_PER_BLK_def S_BLOCK_SIZE_def)

lemma mounted_lba: "mounted phase N E \<Longrightarrow> ext2_lba b E = filesys_start (bcache E) + 2 * of_nat (unat b)"
  by (simp add: mounted_def ext2_lba_def sectors_1024)

lemma drive_upd_drive [simp]: "edrive (upd_drive d E) = d" "upd_drive d' (upd_drive d E) = upd_drive d' E"
  "super (upd_drive d E) = super E" "bgdt (upd_drive d E) = bgdt E" "n_block_groups (upd_drive d E) = n_block_groups E"
  "filesys_start (bcache (upd_drive d E)) = filesys_start (bcache E)" "fs_start_set (bcache (upd_drive d E)) = fs_start_set (bcache E)"
  "super_word f (upd_drive d E) = super_word f E"
  by (simp_all add: upd_drive_def super_word_def)

context ata_drive
begin

lemma ext2_read:
  assumes "mounted phase N E" "unat b < N"
  shows "\<exists>d'. ext2_disk_read_blk io b E = Some (0, fs_blocks sec N E (unat b), upd_drive d' E)
    \<and> phase d' = Idle \<and> sec d' = sec (edrive E)"
proof -
  have "phase (edrive E) = Idle" "unat (filesys_start (bcache E)) + 2 * N \<le> 2 ^ 24"
    using assms(1) by (simp_all add: mounted_def)
  from read_blk [OF this assms(2)] show ?thesis
    using assms(1) sectors_1024 [of E] unfolding ext2_disk_read_blk_def mounted_lba [OF assms(1)] fs_blocks_def
    by (auto simp: mounted_def)
qed

lemma ext2_write:
  assumes "mounted phase N E" "unat b < N" "length buf = 1024"
  shows "\<exists>d'. ext2_disk_write_blk io b buf E = Some (None, upd_drive d' E) \<and> phase d' = Idle
    \<and> fs_blocks sec N (upd_drive d' E) = (fs_blocks sec N E)(unat b := buf)"
proof -
  have "phase (edrive E) = Idle" "unat (filesys_start (bcache E)) + 2 * N \<le> 2 ^ 24"
    using assms(1) by (simp_all add: mounted_def)
  from write_blk [OF this assms(2,3)] show ?thesis
    using assms(1) sectors_1024 [of E] unfolding ext2_disk_write_blk_def mounted_lba [OF assms(1)] fs_blocks_def
    by (auto simp: mounted_def simp del: fun_upd_apply)
qed

lemma length_fs_block: "n < N \<Longrightarrow> length (fs_blocks sec N E n) = 1024"
  by (simp add: fs_blocks_def length_disk_block)

end

lemma mounted_upd_drive [simp]: "mounted phase N E \<Longrightarrow> phase d = Idle \<Longrightarrow> mounted phase N (upd_drive d E)"
  by (simp add: mounted_def)

end
