(* ===== verification/Ext2_Balloc.thy ===== *)
theory Ext2_Balloc
  imports Ext2_Layout
begin

text \<open>
  Allocation of blocks and inodes in the ext2 bitmaps (\<^verbatim>\<open>fs/ext2/ext2_balloc.c\<close>).

  A bitmap is the list of the 1024 bytes of its block.  Its abstraction \<open>bm_set\<close> is the set of the numbers marked in use.
  A bitmap buffer that the block transfer did not fill, and an index outside a table, are \<open>None\<close>.  The self-contained
  part of the theory is about one bitmap; the properties follow an allocation through the disk.
\<close>

section \<open>Bitmaps\<close>

definition bm_set_bit :: "u8 list \<Rightarrow> u16 \<Rightarrow> u8 list option" where
  "bm_set_bit bitmap i =
     (let byte = unat (i div 8); b = unat (i mod 8)
      in if byte < length bitmap then Some (bitmap[byte := bitmap ! byte OR push_bit b 1]) else None)"

definition bm_unset_bit :: "u8 list \<Rightarrow> u16 \<Rightarrow> u8 list option" where
  "bm_unset_bit bitmap i =
     (let byte = unat (i div 8); b = unat (i mod 8)
      in if byte < length bitmap then Some (bitmap[byte := bitmap ! byte XOR push_bit b 1]) else None)"

text \<open>The inner loop: the first clear bit of a byte.\<close>

definition first_zero :: "u8 \<Rightarrow> nat option" where
  "first_zero bmj = List.find (\<lambda>k. drop_bit k bmj AND 1 = 0) [0..<8]"

function first_free_from :: "u8 list \<Rightarrow> nat \<Rightarrow> nat \<Rightarrow> nat option" where
  "first_free_from bitmap allowed_start j =
     (if j < 1024 then
        if length bitmap \<le> j then None
        else if bitmap ! j = 255 then first_free_from bitmap allowed_start (Suc j)
        else do {
          k \<leftarrow> first_zero (bitmap ! j);
          if j * 8 + k < allowed_start then first_free_from bitmap allowed_start (Suc j)
          else Some (j * 8 + k)
        }
      else Some 0)"
  by pat_completeness auto
termination by (relation "measure (\<lambda>(b, a, j). 1024 - j)") auto

declare first_free_from.simps [simp del]

definition first_free_bm :: "u8 list \<Rightarrow> u8 \<Rightarrow> u32 option" where
  "first_free_bm bitmap allowed_start =
     map_option of_nat (first_free_from bitmap (unat allowed_start) (unat (allowed_start div 8)))"

section \<open>Searching\<close>

definition read_bitmap :: "'d io_ports \<Rightarrow> u32 \<Rightarrow> 'd ext2 \<Rightarrow> (u8 list \<times> 'd ext2) option" where
  "read_bitmap io block_num E = do {
     (_, bitmap, E) \<leftarrow> ext2_disk_read_blk io block_num E;
     if length bitmap = 1024 then Some (bitmap, E) else None
   }"

definition first_free_block :: "'d io_ports \<Rightarrow> bgdesc_t \<Rightarrow> 'd ext2 \<Rightarrow> (u32 \<times> 'd ext2) option" where
  "first_free_block io d E = do {
     (bitmap, E) \<leftarrow> read_bitmap io (bg_block_bitmap d) E;
     r \<leftarrow> first_free_bm bitmap 0;
     Some (r, E)
   }"

definition first_free_inode :: "'d io_ports \<Rightarrow> bgdesc_t \<Rightarrow> 'd ext2 \<Rightarrow> (u32 \<times> 'd ext2) option" where
  "first_free_inode io d E = do {
     (bitmap, E) \<leftarrow> read_bitmap io (bg_inode_bitmap d) E;
     r \<leftarrow> first_free_bm bitmap EXT2_FREE_INO_START;
     Some (r, E)
   }"

text \<open>\<open>None\<close> inside the result is the returned \<open>-1\<close>.\<close>

function first_free_block_from :: "'d io_ports \<Rightarrow> nat \<Rightarrow> 'd ext2 \<Rightarrow> (u32 option \<times> 'd ext2) option" where
  "first_free_block_from io i E =
     (if i < unat (n_block_groups E) then
        if length (bgdt E) \<le> i then None
        else if bg_free_blocks_count (bgdt E ! i) = 0 then first_free_block_from io (Suc i) E
        else map_option (\<lambda>(r, E). (Some r, E)) (first_free_block io (bgdt E ! i) E)
      else Some (None, E))"
  by pat_completeness auto
termination by (relation "measure (\<lambda>(io, i, E). unat (n_block_groups E) - i)") auto

function first_free_inode_from :: "'d io_ports \<Rightarrow> nat \<Rightarrow> 'd ext2 \<Rightarrow> (u32 option \<times> 'd ext2) option" where
  "first_free_inode_from io i E =
     (if i < unat (n_block_groups E) then
        if length (bgdt E) \<le> i then None
        else if bg_free_inodes_count (bgdt E ! i) = 0 then first_free_inode_from io (Suc i) E
        else map_option (\<lambda>(r, E). (Some r, E)) (first_free_inode io (bgdt E ! i) E)
      else Some (None, E))"
  by pat_completeness auto
termination by (relation "measure (\<lambda>(io, i, E). unat (n_block_groups E) - i)") auto

declare first_free_block_from.simps [simp del] first_free_inode_from.simps [simp del]

definition first_free_block_num :: "'d io_ports \<Rightarrow> 'd ext2 \<Rightarrow> (u32 option \<times> 'd ext2) option" where
  "first_free_block_num io E = first_free_block_from io 0 E"

definition first_free_inode_num :: "'d io_ports \<Rightarrow> 'd ext2 \<Rightarrow> (u32 option \<times> 'd ext2) option" where
  "first_free_inode_num io E = first_free_inode_from io 0 E"

section \<open>Marking\<close>

text \<open>A division by zero traps.\<close>

definition group_of :: "u32 \<Rightarrow> u32 \<Rightarrow> 'd ext2 \<Rightarrow> bgdesc_t option" where
  "group_of n per_group E =
     (let g = unat (ucast (n div per_group) :: u16)
      in if per_group \<noteq> 0 \<and> g < length (bgdt E) then Some (bgdt E ! g) else None)"

definition mark_block :: "'d io_ports \<Rightarrow> u32 \<Rightarrow> u8 \<Rightarrow> 'd ext2 \<Rightarrow> 'd ext2 option" where
  "mark_block io block_num val E = do {
     d \<leftarrow> group_of block_num (super_word s_blocks_per_group E) E;
     (bitmap, E) \<leftarrow> read_bitmap io (bg_block_bitmap d) E;
     if super_word s_inodes_per_group E = 0 then None
     else do {
       let bit_to_set = ucast (block_num mod super_word s_inodes_per_group E);
       bitmap \<leftarrow> (if val = 1 then bm_set_bit bitmap bit_to_set else bm_unset_bit bitmap bit_to_set);
       (_, E) \<leftarrow> ext2_disk_write_blk io (bg_block_bitmap d) bitmap E;
       Some E
     }
   }"

definition set_block_bitmap :: "'d io_ports \<Rightarrow> u32 \<Rightarrow> 'd ext2 \<Rightarrow> 'd ext2 option" where
  "set_block_bitmap io block_num E = mark_block io block_num 1 E"

definition unset_block_bitmap :: "'d io_ports \<Rightarrow> u32 \<Rightarrow> 'd ext2 \<Rightarrow> 'd ext2 option" where
  "unset_block_bitmap io block_num E = mark_block io block_num 0 E"

definition mark_inode :: "'d io_ports \<Rightarrow> u32 \<Rightarrow> u8 \<Rightarrow> 'd ext2 \<Rightarrow> 'd ext2 option" where
  "mark_inode io inode_num val E = do {
     d \<leftarrow> group_of (inode_num - 1) (super_word s_inodes_per_group E) E;
     (bitmap, E) \<leftarrow> read_bitmap io (bg_inode_bitmap d) E;
     let bit_to_set = ucast ((inode_num - 1) mod super_word s_inodes_per_group E);
     bitmap \<leftarrow> (if val = 1 then bm_set_bit bitmap bit_to_set else bm_unset_bit bitmap bit_to_set);
     (_, E) \<leftarrow> ext2_disk_write_blk io (bg_inode_bitmap d) bitmap E;
     Some E
   }"

definition set_inode_bitmap :: "'d io_ports \<Rightarrow> u32 \<Rightarrow> 'd ext2 \<Rightarrow> 'd ext2 option" where
  "set_inode_bitmap io inode_num E = mark_inode io inode_num 1 E"

definition unset_inode_bitmap :: "'d io_ports \<Rightarrow> u32 \<Rightarrow> 'd ext2 \<Rightarrow> 'd ext2 option" where
  "unset_inode_bitmap io inode_num E = mark_inode io inode_num 0 E"

text \<open>The two functions change a local copy of the descriptor, which is their result here; the callers have no use for it.\<close>

definition update_inode_bg_desc :: "u32 \<Rightarrow> 'd ext2 \<Rightarrow> bgdesc_t option" where
  "update_inode_bg_desc free_inode_n E = do {
     d \<leftarrow> group_of (free_inode_n - 1) (super_word s_blocks_per_group E) E;
     Some (d\<lparr>bg_free_inodes_count := bg_free_inodes_count d - 1, bg_used_dirs_count := bg_used_dirs_count d + 1\<rparr>)
   }"

definition update_block_bg_desc :: "u32 \<Rightarrow> 'd ext2 \<Rightarrow> bgdesc_t option" where
  "update_block_bg_desc free_block_n E = do {
     d \<leftarrow> group_of free_block_n (super_word s_blocks_per_group E) E;
     Some (d\<lparr>bg_free_blocks_count := bg_free_blocks_count d - 1\<rparr>)
   }"

section \<open>Writing the metadata\<close>

definition disk_sync_bgdt :: "'d io_ports \<Rightarrow> 'd ext2 \<Rightarrow> 'd ext2 option" where
  "disk_sync_bgdt io E = do {
     let lim = unat (n_block_groups E) * 32;
     if 1024 < lim \<or> length (bgdt E) < unat (n_block_groups E) then None
     else do {
       let buf = concat (map encode_bgdesc (take (unat (n_block_groups E)) (bgdt E))) @ replicate (1024 - lim) 0;
       (_, E) \<leftarrow> ext2_disk_write_blk io BGDT_BLK_NO buf E;
       (_, E) \<leftarrow> ext2_disk_write_blk io (BGDT_BLK_NO + super_word s_blocks_per_group E) buf E;
       Some E
     }
   }"

definition disk_sync_super :: "'d io_ports \<Rightarrow> 'd ext2 \<Rightarrow> 'd ext2 option" where
  "disk_sync_super io E = do {
     (_, E) \<leftarrow> ext2_disk_write_blk io 1 (super E) E;
     (_, E) \<leftarrow> ext2_disk_write_blk io (1 + super_word s_blocks_per_group E) (super E) E;
     Some E
   }"

section \<open>Reserving\<close>

definition dec_super :: "nat \<Rightarrow> 'd ext2 \<Rightarrow> 'd ext2" where
  "dec_super f E = E\<lparr>super := put32 f (super_word f E - 1) (super E)\<rparr>"

definition reserve_free_block :: "'d io_ports \<Rightarrow> 'd ext2 \<Rightarrow> (u32 option \<times> 'd ext2) option" where
  "reserve_free_block io E = do {
     (r, E) \<leftarrow> first_free_block_num io E;
     case r of
       None \<Rightarrow> Some (None, E)
     | Some block_n \<Rightarrow> do {
         E \<leftarrow> set_block_bitmap io block_n E;
         _ \<leftarrow> update_block_bg_desc block_n E;
         E \<leftarrow> disk_sync_bgdt io E;
         let E = dec_super s_free_blocks_count E;
         E \<leftarrow> disk_sync_super io E;
         Some (Some block_n, E)
       }
   }"

definition reserve_inode :: "'d io_ports \<Rightarrow> u32 \<Rightarrow> 'd ext2 \<Rightarrow> 'd ext2 option" where
  "reserve_inode io inode_n E = do {
     E \<leftarrow> set_inode_bitmap io inode_n E;
     _ \<leftarrow> update_inode_bg_desc inode_n E;
     E \<leftarrow> disk_sync_bgdt io E;
     let E = dec_super s_free_inodes_count E;
     disk_sync_super io E
   }"

definition reserve_free_inode :: "'d io_ports \<Rightarrow> 'd ext2 \<Rightarrow> (u32 option \<times> 'd ext2) option" where
  "reserve_free_inode io E = do {
     (r, E) \<leftarrow> first_free_inode_num io E;
     case r of
       None \<Rightarrow> Some (None, E)
     | Some inode_n \<Rightarrow> do {
         E \<leftarrow> reserve_inode io inode_n E;
         Some (Some inode_n, E)
       }
   }"


section \<open>One bitmap\<close>

definition bm_set :: "u8 list \<Rightarrow> nat set" where
  "bm_set bm = {n. n < 8 * length bm \<and> bit (bm ! (n div 8)) (n mod 8)}"

text \<open>What the search can return: a number not in use and not below the start, the lowest such of its byte.\<close>

definition candidate :: "nat \<Rightarrow> nat set \<Rightarrow> nat \<Rightarrow> bool" where
  "candidate a U n \<longleftrightarrow> n < 8192 \<and> n \<notin> U \<and> a \<le> n \<and> (\<forall>m < n. m div 8 = n div 8 \<longrightarrow> m \<in> U)"

definition next_free :: "nat \<Rightarrow> nat set \<Rightarrow> nat" where
  "next_free a U = (if \<exists>n. candidate a U n then LEAST n. candidate a U n else 0)"

lemma bm_bits:
  assumes "unat i < 8 * length bm"
  shows "\<exists>bm'. bm_set_bit bm i = Some bm' \<and> length bm' = length bm \<and> bm_set bm' = insert (unat i) (bm_set bm)"
proof -
  have i: "unat (i div 8) = unat i div 8" "unat (i mod 8) = unat i mod 8" by (simp_all add: unat_div unat_mod)
  have "bit ((bm[unat i div 8 := bm ! (unat i div 8) OR push_bit (unat i mod 8) 1]) ! (n div 8)) (n mod 8) \<longleftrightarrow>
      n = unat i \<or> bit (bm ! (n div 8)) (n mod 8)" if "n < 8 * length bm" for n
  proof (cases "n div 8 = unat i div 8")
    case True
    then have "n = unat i \<longleftrightarrow> n mod 8 = unat i mod 8" by (metis div_mult_mod_eq)
    with True assms show ?thesis by (auto simp: bit_simps nth_list_update less_mult_imp_div_less mult.commute)
  next
    case False
    then show ?thesis by (auto simp: nth_list_update)
  qed
  with assms show ?thesis
    unfolding bm_set_bit_def Let_def i by (auto simp: bm_set_def less_mult_imp_div_less mult.commute)
qed

lemma byte_full: "b = 255 \<longleftrightarrow> (\<forall>k < 8. bit b k)" for b :: u8
proof -
  have "bit (255 :: u8) k" if "k < 8" for k
  proof -
    have "(255 :: u8) = mask 8" by (simp add: mask_eq_exp_minus_1)
    then show ?thesis using that by (simp only: bit_mask_iff) simp
  qed
  then show ?thesis by (auto intro!: bit_word_eqI)
qed

lemma first_zero_ok:
  assumes "bmj \<noteq> 255"
  shows "\<exists>k < 8. first_zero bmj = Some k \<and> \<not> bit bmj k \<and> (\<forall>j < k. bit bmj j)"
proof -
  have z: "(drop_bit k bmj AND 1 = 0) = (\<not> bit bmj k)" for k
    by (simp add: and_one_eq bit_iff_odd_drop_bit even_iff_mod_2_eq_zero)
  obtain k where "k < 8" "\<not> bit bmj k" using assms byte_full by blast
  then have "first_zero bmj \<noteq> None" unfolding first_zero_def by (auto simp: find_None_iff z)
  then obtain k where k: "first_zero bmj = Some k" by blast
  then obtain i where "i < 8" "k = [0..<8] ! i" "\<not> bit bmj k" "\<forall>j < i. bit bmj ([0..<8] ! j)"
    unfolding first_zero_def by (auto simp: find_Some_iff z simp del: upt_rec_numeral)
  with k show ?thesis by (auto simp del: upt_rec_numeral)
qed

lemma first_free_from_next:
  assumes "length bm = 1024" "a div 8 \<le> j" "j \<le> 1024" "\<And>n. candidate a (bm_set bm) n \<Longrightarrow> j \<le> n div 8"
  shows "first_free_from bm a j = Some (next_free a (bm_set bm))"
  using assms(2-)
proof (induction "1024 - j" arbitrary: j)
  case 0
  then have "j = 1024" by simp
  have "\<not> candidate a (bm_set bm) n" for n
  proof
    assume n: "candidate a (bm_set bm) n"
    then have "n div 8 < 1024" by (simp add: candidate_def less_mult_imp_div_less)
    with "0.prems"(3) [OF n] \<open>j = 1024\<close> show False by simp
  qed
  with \<open>j = 1024\<close> show ?case by (simp add: first_free_from.simps next_free_def)
next
  case (Suc x)
  then have j: "j < 1024" "j < length bm" using assms(1) by auto
  have skip: "first_free_from bm a (Suc j) = Some (next_free a (bm_set bm))"
    if "\<And>n. candidate a (bm_set bm) n \<Longrightarrow> n div 8 \<noteq> j"
  proof (rule Suc.hyps(1))
    show "Suc j \<le> n div 8" if "candidate a (bm_set bm) n" for n
      using Suc.prems(3) [OF that] \<open>candidate a (bm_set bm) n \<Longrightarrow> n div 8 \<noteq> j\<close> [OF that] by simp
  qed (use Suc.hyps(2) Suc.prems j in auto)
  have bits: "n \<in> bm_set bm \<longleftrightarrow> bit (bm ! j) (n mod 8)" if "n div 8 = j" for n
    using that j assms(1) by (auto simp: bm_set_def)
  show ?case
  proof (cases "bm ! j = 255")
    case True
    then have "n div 8 \<noteq> j" if "candidate a (bm_set bm) n" for n
      using that bits byte_full [of "bm ! j"] by (auto simp: candidate_def)
    from skip [OF this] True j show ?thesis by (subst first_free_from.simps) simp
  next
    case False
    then obtain k where k: "k < 8" "first_zero (bm ! j) = Some k" "\<not> bit (bm ! j) k" "\<forall>i < k. bit (bm ! j) i"
      using first_zero_ok by blast
    have low: "n = j * 8 + k" if "n div 8 = j" "candidate a (bm_set bm) n" for n
    proof -
      have n: "n = j * 8 + n mod 8" using that(1) by (metis div_mult_mod_eq)
      have "\<not> bit (bm ! j) (n mod 8)" using that bits by (auto simp: candidate_def)
      then have "k \<le> n mod 8" using k(4) not_le by blast
      moreover have "\<not> k < n mod 8"
      proof
        assume "k < n mod 8"
        then have "j * 8 + k \<in> bm_set bm" using that n k(1) unfolding candidate_def by auto
        then show False using bits [of "j * 8 + k"] k(1,3) by simp
      qed
      ultimately show ?thesis using n by simp
    qed
    show ?thesis
    proof (cases "j * 8 + k < a")
      case True
      then have "n div 8 \<noteq> j" if "candidate a (bm_set bm) n" for n using low [of n] that by (auto simp: candidate_def)
      from skip [OF this] True False k(2) j show ?thesis by (subst first_free_from.simps) simp
    next
      case a: False
      have "m \<in> bm_set bm" if "m < j * 8 + k" "m div 8 = (j * 8 + k) div 8" for m
      proof -
        have m: "m div 8 = j" using that(2) k(1) by simp
        then have "m mod 8 < k" using that(1) by (metis add_less_cancel_left div_mult_mod_eq)
        then show ?thesis using k(4) bits [OF m] by simp
      qed
      then have cand: "candidate a (bm_set bm) (j * 8 + k)"
        using a k(1,3) j bits [of "j * 8 + k"] by (auto simp: candidate_def)
      have "(LEAST n. candidate a (bm_set bm) n) = j * 8 + k"
      proof (rule Least_equality)
        show "candidate a (bm_set bm) (j * 8 + k)" by (rule cand)
      next
        fix n assume n: "candidate a (bm_set bm) n"
        show "j * 8 + k \<le> n"
        proof (cases "n div 8 = j")
          case False
          then have "Suc j \<le> n div 8" using Suc.prems(3) [OF n] by simp
          then show ?thesis using k(1) by linarith
        qed (use low n in simp)
      qed
      with cand have "next_free a (bm_set bm) = j * 8 + k" unfolding next_free_def by auto
      with a False k(2) j show ?thesis by (subst first_free_from.simps) simp
    qed
  qed
qed

lemma first_free_bm_next:
  assumes "length bm = 1024"
  shows "first_free_bm bm a = Some (of_nat (next_free (unat a) (bm_set bm)))"
proof -
  have "unat (a div 8) = unat a div 8" by (simp add: unat_div)
  moreover have "first_free_from bm (unat a) (unat a div 8) = Some (next_free (unat a) (bm_set bm))"
    using unsigned_less [of a, where 'a = nat]
    by (intro first_free_from_next [OF assms]) (auto simp: candidate_def div_le_mono)
  ultimately show ?thesis by (simp add: first_free_bm_def)
qed


text \<open>The number found stays the one found when only the number before it is marked.\<close>

lemma next_free_off_by_one:
  assumes "0 < a" "next_free a U \<noteq> 0"
  shows "next_free a (insert (next_free a U - 1) U) = next_free a U"
proof -
  define n where "n = next_free a U"
  have n: "n = (LEAST n. candidate a U n)" "\<exists>n. candidate a U n"
    using assms(2) unfolding n_def next_free_def by (auto split: if_splits)
  then have cand: "candidate a U n" by (metis LeastI_ex)
  have c: "candidate a (insert (n - 1) U) n" using cand assms(1) unfolding candidate_def by auto
  have "n \<le> m" if m: "candidate a (insert (n - 1) U) m" for m
  proof (rule ccontr)
    assume "\<not> n \<le> m"
    then have "m < n - 1" using m by (auto simp: candidate_def)
    then have "candidate a U m" using m unfolding candidate_def by auto
    then show False using \<open>\<not> n \<le> m\<close> n(1) Least_le by metis
  qed
  then have "(LEAST m. candidate a (insert (n - 1) U) m) = n" using c by (intro Least_equality) auto
  with c show ?thesis unfolding n_def [symmetric] by (auto simp: next_free_def)
qed

lemma next_free_props:
  assumes "next_free a U \<noteq> 0"
  shows "next_free a U < 8192" "next_free a U \<notin> U" "a \<le> next_free a U"
proof -
  have "candidate a U (next_free a U)"
    using assms unfolding next_free_def by (auto split: if_splits intro: LeastI)
  then show "next_free a U < 8192" "next_free a U \<notin> U" "a \<le> next_free a U" by (simp_all add: candidate_def)
qed

lemma next_free_least:
  assumes "m < next_free 0 U"
  shows "m \<in> U"
proof (rule ccontr)
  assume "m \<notin> U"
  define l where "l = (LEAST m. m \<notin> U)"
  have l: "l \<notin> U" "l \<le> m" "\<And>k. k < l \<Longrightarrow> k \<in> U"
    using \<open>m \<notin> U\<close> LeastI [of "\<lambda>m. m \<notin> U" m] unfolding l_def by (auto intro: Least_le dest: not_less_Least)
  have nf: "next_free 0 U < 8192" using next_free_props(1) [of 0 U] assms by auto
  then have "candidate 0 U l" using l assms unfolding candidate_def by auto
  then have "next_free 0 U \<le> l" unfolding next_free_def by (auto intro: Least_le)
  with l(2) assms show False by simp
qed

section \<open>Bitmaps on the disk\<close>

text \<open>\<open>alloc_ok\<close>: the file system is mounted, its super block and group descriptors and their copies lie on the drive.\<close>

definition alloc_ok :: "('d \<Rightarrow> ata_phase) \<Rightarrow> nat \<Rightarrow> 'd ext2 \<Rightarrow> bool" where
  "alloc_ok phase N E \<longleftrightarrow> mounted phase N E \<and> 0 < n_block_groups E \<and> unat (n_block_groups E) \<le> 32
     \<and> unat (n_block_groups E) \<le> length (bgdt E) \<and> (\<forall>d \<in> set (bgdt E). length (bg_reserved d) = 12)
     \<and> 0 < super_word s_blocks_per_group E \<and> unat (super_word s_blocks_per_group E) + 3 \<le> N
     \<and> super_word s_inodes_per_group E \<noteq> 0"

abbreviation bpg :: "'d ext2 \<Rightarrow> nat" where
  "bpg E \<equiv> unat (super_word s_blocks_per_group E)"

abbreviation ipg :: "'d ext2 \<Rightarrow> nat" where
  "ipg E \<equiv> unat (super_word s_inodes_per_group E)"

text \<open>The blocks that every reservation writes, and a bitmap that lies apart from them.\<close>

definition meta_blocks :: "'d ext2 \<Rightarrow> nat set" where
  "meta_blocks E = {1, 2, 1 + bpg E, 2 + bpg E}"

definition apart :: "nat \<Rightarrow> 'd ext2 \<Rightarrow> u32 \<Rightarrow> bool" where
  "apart N E b \<longleftrightarrow> unat b < N \<and> unat b \<notin> meta_blocks E"

lemma alloc_ok_upd_drive [simp]: "alloc_ok phase N E \<Longrightarrow> phase d = Idle \<Longrightarrow> alloc_ok phase N (upd_drive d E)"
  by (simp add: alloc_ok_def)

lemma super_word_dec_super:
  assumes "length (super E) = 1024" "f + 4 \<le> 1024" "g = f \<or> g + 4 \<le> f \<or> f + 4 \<le> g"
  shows "super_word g (dec_super f E) = (if g = f then super_word f E - 1 else super_word g E)"
  using assms by (auto simp: super_word_def dec_super_def get32_put_other)

lemma dec_super_simps [simp]: "bgdt (dec_super f E) = bgdt E" "n_block_groups (dec_super f E) = n_block_groups E"
  "bcache (dec_super f E) = bcache E" "fs_blocks sec N (dec_super f E) = fs_blocks sec N E"
  by (simp_all add: dec_super_def fs_blocks_def)

lemma alloc_ok_dec_super:
  assumes "alloc_ok phase N E" "f = s_free_blocks_count \<or> f = s_free_inodes_count"
  shows "alloc_ok phase N (dec_super f E)" "meta_blocks (dec_super f E) = meta_blocks E"
    "bpg (dec_super f E) = bpg E" "ipg (dec_super f E) = ipg E"
proof -
  have len: "length (super E) = 1024" using assms(1) by (simp add: alloc_ok_def mounted_def)
  have len': "length (super (dec_super f E)) = 1024"
    using len assms(2) by (auto simp: dec_super_def ext2_fields)
  have "super_word g (dec_super f E) = super_word g E" if "g \<in> {s_log_block_size, s_blocks_per_group, s_inodes_per_group}" for g
    using assms(2) that len by (subst super_word_dec_super) (auto simp: ext2_fields)
  then show "alloc_ok phase N (dec_super f E)" "meta_blocks (dec_super f E) = meta_blocks E"
    "bpg (dec_super f E) = bpg E" "ipg (dec_super f E) = ipg E"
    using assms(1) len' by (auto simp: alloc_ok_def mounted_def meta_blocks_def)
qed


lemma length_encode_bgdt:
  "\<forall>d \<in> set ds. length (bg_reserved d) = 12 \<Longrightarrow> length (concat (map encode_bgdesc ds)) = 32 * length ds"
  by (induction ds) (auto simp: encode_bgdesc_def)

lemma alloc_okD:
  assumes "alloc_ok phase N E"
  shows "mounted phase N E" "0 < bpg E" "0 < ipg E" "0 < n_block_groups E" "0 < length (bgdt E)"
  using assms by (auto simp: alloc_ok_def word_less_nat_alt unat_gt_0 unat_eq_zero)

lemma group_0:
  assumes "alloc_ok phase N E" "0 < unat p" "n < unat p"
  shows "group_of (of_nat n) p E = Some (bgdt E ! 0)"
proof -
  have "unat p < 2 ^ 32" using unsigned_less [of p, where 'a = nat] by simp
  then have "unat (of_nat n div p) = 0" using assms(3) by (simp add: unat_div unat_of_nat_u32)
  then have "of_nat n div p = 0" by (simp add: unat_eq_zero)
  moreover have "0 < length (bgdt E)" using assms(1) by (auto simp: alloc_ok_def word_less_nat_alt)
  ultimately show ?thesis using assms(2) by (auto simp: group_of_def)
qed

lemma unat_bit_index:
  assumes "n < 8192" "0 < unat p"
  shows "unat (ucast (of_nat n mod p :: u32) :: u16) = n mod unat p"
proof -
  have "unat (of_nat n mod p) = n mod unat p" using assms(1) by (simp add: unat_mod unat_of_nat_u32)
  moreover have "n mod unat p < 8192" using assms(1) by (meson le_less_trans mod_less_eq_dividend)
  ultimately show ?thesis by (simp add: unsigned_ucast_eq take_bit_nat_eq_self)
qed

context ata_drive
begin

lemma read_bitmap_ok:
  assumes "mounted phase N E" "unat b < N"
  shows "\<exists>d'. read_bitmap io b E = Some (fs_blocks sec N E (unat b), upd_drive d' E) \<and> phase d' = Idle \<and> sec d' = sec (edrive E)"
  using ext2_read [OF assms] length_fs_block [OF assms(2), of E] by (auto simp: read_bitmap_def)

lemma mark_bitmap:
  assumes "mounted phase N E" "unat b < N" "unat i < 8192"
  shows "\<exists>dr d' bm'. read_bitmap io b E = Some (fs_blocks sec N E (unat b), upd_drive dr E)
    \<and> bm_set_bit (fs_blocks sec N E (unat b)) i = Some bm' \<and> ext2_disk_write_blk io b bm' (upd_drive dr E) = Some (None, upd_drive d' E)
    \<and> phase d' = Idle \<and> fs_blocks sec N (upd_drive d' E) = (fs_blocks sec N E)(unat b := bm')
    \<and> bm_set bm' = insert (unat i) (bm_set (fs_blocks sec N E (unat b)))"
proof -
  obtain d1 where d1: "read_bitmap io b E = Some (fs_blocks sec N E (unat b), upd_drive d1 E)" "phase d1 = Idle"
    "sec d1 = sec (edrive E)" using read_bitmap_ok [OF assms(1,2)] by blast
  have len: "length (fs_blocks sec N E (unat b)) = 1024" using assms(2) by (rule length_fs_block)
  obtain bm' where bm': "bm_set_bit (fs_blocks sec N E (unat b)) i = Some bm'" "length bm' = 1024"
    "bm_set bm' = insert (unat i) (bm_set (fs_blocks sec N E (unat b)))"
    using bm_bits [of i "fs_blocks sec N E (unat b)"] len assms(3) by auto
  have same: "fs_blocks sec N (upd_drive d1 E) = fs_blocks sec N E" using d1(3) by (simp add: fs_blocks_def)
  obtain d2 where "ext2_disk_write_blk io b bm' (upd_drive d1 E) = Some (None, upd_drive d2 (upd_drive d1 E))" "phase d2 = Idle"
    "fs_blocks sec N (upd_drive d2 (upd_drive d1 E)) = (fs_blocks sec N (upd_drive d1 E))(unat b := bm')"
    using ext2_write [OF mounted_upd_drive [OF assms(1) d1(2)] assms(2) bm'(2)] by blast
  with d1(1) bm' same show ?thesis by (auto simp del: fun_upd_apply)
qed

lemma sync_super_ok:
  assumes "alloc_ok phase N E"
  shows "\<exists>d'. disk_sync_super io E = Some (upd_drive d' E) \<and> phase d' = Idle
    \<and> fs_blocks sec N (upd_drive d' E) = (fs_blocks sec N E)(1 := super E, 1 + bpg E := super E)"
proof -
  have m: "mounted phase N E" "length (super E) = 1024" "bpg E + 3 \<le> N"
    using assms by (simp_all add: alloc_ok_def mounted_def)
  have N: "N \<le> 2 ^ 23" using m(1) by (simp add: mounted_def)
  have b: "unat (1 + super_word s_blocks_per_group E) = 1 + bpg E"
    using m(3) N by (subst unat_plus) simp_all
  obtain d1 where d1: "ext2_disk_write_blk io 1 (super E) E = Some (None, upd_drive d1 E)" "phase d1 = Idle"
    "fs_blocks sec N (upd_drive d1 E) = (fs_blocks sec N E)(1 := super E)"
    using ext2_write [OF m(1), of 1 "super E"] m by auto
  obtain d2 where "ext2_disk_write_blk io (1 + super_word s_blocks_per_group E) (super E) (upd_drive d1 E) = Some (None, upd_drive d2 (upd_drive d1 E))"
    "phase d2 = Idle" "fs_blocks sec N (upd_drive d2 (upd_drive d1 E)) = (fs_blocks sec N (upd_drive d1 E))(1 + bpg E := super E)"
    using ext2_write [OF mounted_upd_drive [OF m(1) d1(2)], of "1 + super_word s_blocks_per_group E" "super E"] m b by auto
  with d1 show ?thesis by (auto simp: disk_sync_super_def simp del: fun_upd_apply)
qed

lemma sync_bgdt_ok:
  assumes "alloc_ok phase N E"
  shows "\<exists>d' buf. disk_sync_bgdt io E = Some (upd_drive d' E) \<and> phase d' = Idle
    \<and> fs_blocks sec N (upd_drive d' E) = (fs_blocks sec N E)(2 := buf, 2 + bpg E := buf)"
proof -
  have m: "mounted phase N E" "bpg E + 3 \<le> N" "unat (n_block_groups E) \<le> 32" "unat (n_block_groups E) \<le> length (bgdt E)"
    "\<forall>d \<in> set (bgdt E). length (bg_reserved d) = 12"
    using assms by (simp_all add: alloc_ok_def)
  have N: "N \<le> 2 ^ 23" using m(1) by (simp add: mounted_def)
  have b: "unat (2 + super_word s_blocks_per_group E) = 2 + bpg E"
    using m(2) N by (subst unat_plus) simp_all
  let ?n = "unat (n_block_groups E)"
  let ?buf = "concat (map encode_bgdesc (take ?n (bgdt E))) @ replicate (1024 - ?n * 32) 0"
  have "length (concat (map encode_bgdesc (take ?n (bgdt E)))) = 32 * ?n"
    using m(4,5) by (subst length_encode_bgdt) (auto dest: in_set_takeD)
  then have len: "length ?buf = 1024" using m(3) by simp
  obtain d1 where d1: "ext2_disk_write_blk io 2 ?buf E = Some (None, upd_drive d1 E)" "phase d1 = Idle"
    "fs_blocks sec N (upd_drive d1 E) = (fs_blocks sec N E)(2 := ?buf)"
    using ext2_write [OF m(1) _ len, of 2] m(2) by auto
  obtain d2 where "ext2_disk_write_blk io (2 + super_word s_blocks_per_group E) ?buf (upd_drive d1 E) = Some (None, upd_drive d2 (upd_drive d1 E))"
    "phase d2 = Idle" "fs_blocks sec N (upd_drive d2 (upd_drive d1 E)) = (fs_blocks sec N (upd_drive d1 E))(2 + bpg E := ?buf)"
    using ext2_write [OF mounted_upd_drive [OF m(1) d1(2)] _ len, of "2 + super_word s_blocks_per_group E"] m b by auto
  with d1 m(3,4) show ?thesis by (auto simp: disk_sync_bgdt_def BGDT_BLK_NO_def simp del: fun_upd_apply)
qed

lemma after_mark:
  assumes "alloc_ok phase N E" "apart N E b" "f = s_free_blocks_count \<or> f = s_free_inodes_count" "phase d = Idle"
    "fs_blocks sec N (upd_drive d E) = (fs_blocks sec N E)(unat b := bm)"
  shows "\<exists>d'. (do { E \<leftarrow> disk_sync_bgdt io (upd_drive d E); disk_sync_super io (dec_super f E) }) = Some (upd_drive d' (dec_super f E))
    \<and> phase d' = Idle \<and> fs_blocks sec N (upd_drive d' (dec_super f E)) (unat b) = bm
    \<and> (\<forall>m. m \<notin> meta_blocks E \<longrightarrow> m \<noteq> unat b \<longrightarrow> fs_blocks sec N (upd_drive d' (dec_super f E)) m = fs_blocks sec N E m)
    \<and> fs_blocks sec N (upd_drive d' (dec_super f E)) 1 = super (dec_super f E)"
proof -
  obtain d1 buf where d1: "disk_sync_bgdt io (upd_drive d E) = Some (upd_drive d1 E)" "phase d1 = Idle"
    "fs_blocks sec N (upd_drive d1 E) = (fs_blocks sec N (upd_drive d E))(2 := buf, 2 + bpg E := buf)"
    using sync_bgdt_ok [OF alloc_ok_upd_drive [OF assms(1,4)]] by auto
  have dec: "dec_super f (upd_drive d1 E) = upd_drive d1 (dec_super f E)" by (simp add: dec_super_def upd_drive_def super_word_def)
  have fs: "fs_blocks sec N (upd_drive d1 (dec_super f E)) = fs_blocks sec N (upd_drive d1 E)"
    by (simp add: fs_blocks_def)
  note ok = alloc_ok_dec_super [OF assms(1,3)]
  obtain d2 where "disk_sync_super io (upd_drive d1 (dec_super f E)) = Some (upd_drive d2 (dec_super f E))" "phase d2 = Idle"
    "fs_blocks sec N (upd_drive d2 (dec_super f E)) = (fs_blocks sec N (upd_drive d1 E))(1 := super (dec_super f E), 1 + bpg E := super (dec_super f E))"
    using sync_super_ok [OF alloc_ok_upd_drive [OF ok(1) d1(2)]] ok(3) fs by auto
  with d1 dec assms(2,5) show ?thesis by (auto simp: apart_def meta_blocks_def)
qed

lemma reserve_block_step:
  assumes "alloc_ok phase N E" "bb = bg_block_bitmap (bgdt E ! 0)" "apart N E bb" "bg_free_blocks_count (bgdt E ! 0) \<noteq> 0"
    "b = next_free 0 (bm_set (fs_blocks sec N E (unat bb)))" "b < bpg E"
  shows "\<exists>d'. reserve_free_block io E = Some (Some (of_nat b), upd_drive d' (dec_super s_free_blocks_count E)) \<and> phase d' = Idle
    \<and> bm_set (fs_blocks sec N (upd_drive d' (dec_super s_free_blocks_count E)) (unat bb)) = insert (b mod ipg E) (bm_set (fs_blocks sec N E (unat bb)))
    \<and> (\<forall>m. m \<notin> meta_blocks E \<longrightarrow> m \<noteq> unat bb \<longrightarrow> fs_blocks sec N (upd_drive d' (dec_super s_free_blocks_count E)) m = fs_blocks sec N E m)
    \<and> fs_blocks sec N (upd_drive d' (dec_super s_free_blocks_count E)) 1 = super (dec_super s_free_blocks_count E)"
proof -
  have m: "mounted phase N E" "unat bb < N" "0 < bpg E" "0 < ipg E" "0 < n_block_groups E" "0 < length (bgdt E)"
    using assms(1,3) alloc_okD [OF assms(1)] by (auto simp: apart_def)
  have b: "b < 8192" using next_free_props(1) [of 0] assms(5) by (cases "b = 0") auto
  obtain d1 where d1: "read_bitmap io bb E = Some (fs_blocks sec N E (unat bb), upd_drive d1 E)" "phase d1 = Idle" "sec d1 = sec (edrive E)"
    using read_bitmap_ok [OF m(1,2)] by blast
  have first: "first_free_block_num io E = Some (Some (of_nat b), upd_drive d1 E)"
    using m(5,6) assms(2,4,5) d1(1) first_free_bm_next [OF length_fs_block [OF m(2), of E], of 0]
    by (simp add: first_free_block_num_def first_free_block_from.simps [of _ 0] first_free_block_def word_less_nat_alt)
  have same: "fs_blocks sec N (upd_drive d1 E) = fs_blocks sec N E" using d1(3) by (simp add: fs_blocks_def)
  note ok1 = alloc_ok_upd_drive [OF assms(1) d1(2)]
  let ?i = "ucast (of_nat b mod super_word s_inodes_per_group E :: u32) :: u16"
  have i: "unat ?i = b mod ipg E" by (rule unat_bit_index [OF b m(4)])
  then have i': "unat ?i < 8192" using b by (metis le_less_trans mod_less_eq_dividend)
  obtain dr d2 bm' where d2: "read_bitmap io bb (upd_drive d1 E) = Some (fs_blocks sec N E (unat bb), upd_drive dr E)"
    "bm_set_bit (fs_blocks sec N E (unat bb)) ?i = Some bm'" "ext2_disk_write_blk io bb bm' (upd_drive dr E) = Some (None, upd_drive d2 E)"
    "phase d2 = Idle" "fs_blocks sec N (upd_drive d2 E) = (fs_blocks sec N E)(unat bb := bm')"
    "bm_set bm' = insert (b mod ipg E) (bm_set (fs_blocks sec N E (unat bb)))"
    using mark_bitmap [OF mounted_upd_drive [OF m(1) d1(2)] m(2) i'] unfolding same i drive_upd_drive by blast
  have g: "group_of (of_nat b) (super_word s_blocks_per_group E) (upd_drive d E) = Some (bgdt E ! 0)" if "phase d = Idle" for d
    using group_0 [OF alloc_ok_upd_drive [OF assms(1) that] m(3) assms(6)] by simp
  have mark: "set_block_bitmap io (of_nat b) (upd_drive d1 E) = Some (upd_drive d2 E)"
    using d2(1-3) g [OF d1(2)] m(4) assms(2) by (simp add: set_block_bitmap_def mark_block_def unat_gt_0)
  obtain d' where "do { E \<leftarrow> disk_sync_bgdt io (upd_drive d2 E); disk_sync_super io (dec_super s_free_blocks_count E) }
      = Some (upd_drive d' (dec_super s_free_blocks_count E))"
    "phase d' = Idle \<and> fs_blocks sec N (upd_drive d' (dec_super s_free_blocks_count E)) (unat bb) = bm'
    \<and> (\<forall>m. m \<notin> meta_blocks E \<longrightarrow> m \<noteq> unat bb \<longrightarrow> fs_blocks sec N (upd_drive d' (dec_super s_free_blocks_count E)) m = fs_blocks sec N E m)
    \<and> fs_blocks sec N (upd_drive d' (dec_super s_free_blocks_count E)) 1 = super (dec_super s_free_blocks_count E)"
    using after_mark [OF assms(1,3) disjI1 [OF refl] d2(4,5)] by blast
  with first mark d2(6) g [OF d2(4)] show ?thesis
    by (auto simp: reserve_free_block_def update_block_bg_desc_def Let_def bind_eq_Some_conv)
qed

lemma reserve_inode_step:
  assumes "alloc_ok phase N E" "ib = bg_inode_bitmap (bgdt E ! 0)" "apart N E ib" "bg_free_inodes_count (bgdt E ! 0) \<noteq> 0"
    "n = next_free 11 (bm_set (fs_blocks sec N E (unat ib)))" "n \<noteq> 0" "n \<le> ipg E" "n \<le> bpg E"
  shows "\<exists>d'. reserve_free_inode io E = Some (Some (of_nat n), upd_drive d' (dec_super s_free_inodes_count E)) \<and> phase d' = Idle
    \<and> bm_set (fs_blocks sec N (upd_drive d' (dec_super s_free_inodes_count E)) (unat ib)) = insert (n - 1) (bm_set (fs_blocks sec N E (unat ib)))"
proof -
  note m = alloc_okD [OF assms(1)]
  have ib: "unat ib < N" using assms(3) by (simp add: apart_def)
  have n: "n < 8192" using next_free_props(1) [of 11] assms(5,6) by auto
  have n1: "of_nat n - 1 = (of_nat (n - 1) :: u32)" using assms(6) by (simp add: of_nat_diff)
  obtain d1 where d1: "read_bitmap io ib E = Some (fs_blocks sec N E (unat ib), upd_drive d1 E)" "phase d1 = Idle" "sec d1 = sec (edrive E)"
    using read_bitmap_ok [OF m(1) ib] by blast
  have first: "first_free_inode_num io E = Some (Some (of_nat n), upd_drive d1 E)"
    using m(4,5) assms(2,4,5) d1(1) first_free_bm_next [OF length_fs_block [OF ib, of E], of 11]
    by (simp add: first_free_inode_num_def first_free_inode_from.simps [of _ 0] first_free_inode_def word_less_nat_alt EXT2_FREE_INO_START_def)
  have same: "fs_blocks sec N (upd_drive d1 E) = fs_blocks sec N E" using d1(3) by (simp add: fs_blocks_def)
  let ?i = "ucast (of_nat (n - 1) mod super_word s_inodes_per_group E :: u32) :: u16"
  have i: "unat ?i = n - 1" using unat_bit_index [of "n - 1", OF _ m(3)] n assms(6,7) by simp
  have i': "unat ?i < 8192" unfolding i using n by simp
  obtain dr d2 bm' where d2: "read_bitmap io ib (upd_drive d1 E) = Some (fs_blocks sec N E (unat ib), upd_drive dr E)"
    "bm_set_bit (fs_blocks sec N E (unat ib)) ?i = Some bm'" "ext2_disk_write_blk io ib bm' (upd_drive dr E) = Some (None, upd_drive d2 E)"
    "phase d2 = Idle" "fs_blocks sec N (upd_drive d2 E) = (fs_blocks sec N E)(unat ib := bm')"
    "bm_set bm' = insert (n - 1) (bm_set (fs_blocks sec N E (unat ib)))"
    using mark_bitmap [OF mounted_upd_drive [OF m(1) d1(2)] ib i'] unfolding same i drive_upd_drive by blast
  have g: "group_of (of_nat (n - 1)) p (upd_drive d E) = Some (bgdt E ! 0)" if "phase d = Idle" "0 < unat p" "n \<le> unat p" for d p
    using group_0 [OF alloc_ok_upd_drive [OF assms(1) that(1)] that(2), of "n - 1"] that(3) assms(6) by simp
  have mark: "set_inode_bitmap io (of_nat n) (upd_drive d1 E) = Some (upd_drive d2 E)"
    using d2(1-3) g [OF d1(2) m(3) assms(7)] assms(2) by (simp add: set_inode_bitmap_def mark_inode_def n1)
  obtain d' where "do { E \<leftarrow> disk_sync_bgdt io (upd_drive d2 E); disk_sync_super io (dec_super s_free_inodes_count E) }
      = Some (upd_drive d' (dec_super s_free_inodes_count E))"
    "phase d' = Idle \<and> fs_blocks sec N (upd_drive d' (dec_super s_free_inodes_count E)) (unat ib) = bm'"
    using after_mark [OF assms(1,3) disjI2 [OF refl] d2(4,5)] by blast
  with first mark d2(6) g [OF d2(4) m(2) assms(8)] show ?thesis
    by (auto simp: reserve_free_inode_def reserve_inode_def update_inode_bg_desc_def n1 Let_def bind_eq_Some_conv)
qed

end

section \<open>Properties\<close>

lemma next_free_0: "n \<notin> U \<Longrightarrow> n < 8192 \<Longrightarrow> next_free 0 U = (LEAST n. n \<notin> U)"
proof -
  assume n: "n \<notin> U" "n < 8192"
  define l where "l = (LEAST n. n \<notin> U)"
  have l: "l \<notin> U" "l < 8192" "\<And>k. k < l \<Longrightarrow> k \<in> U"
    using n LeastI [of "\<lambda>n. n \<notin> U" n] Least_le [of "\<lambda>n. n \<notin> U" n] unfolding l_def by (auto dest: not_less_Least)
  then have "candidate 0 U l" by (simp add: candidate_def)
  moreover have "l \<le> m" if "candidate 0 U m" for m using that l(3) unfolding candidate_def by (meson not_le)
  ultimately have "(LEAST n. candidate 0 U n) = l" by (intro Least_equality) auto
  with \<open>candidate 0 U l\<close> show "next_free 0 U = (LEAST n. n \<notin> U)" unfolding next_free_def l_def by auto
qed

text \<open>A file system with one group of 100 blocks and 16 inodes; \<open>bs\<close> are the first bytes of its block bitmap.\<close>

definition sample_ext2 :: "u8 list \<Rightarrow> pio_drive ext2" where
  "sample_ext2 bs =
     \<lparr>bcache = sample_cache0\<lparr>drive := blank_drive\<lparr>d_sectors := (\<lambda>_. [])(6 := bs, 8 := [3])\<rparr>\<rparr>,
      super = put32 s_blocks_per_group 100 (put32 s_inodes_per_group 16 (replicate 1024 0)),
      bgdt = [zero_bgdesc\<lparr>bg_block_bitmap := 3, bg_inode_bitmap := 4, bg_free_blocks_count := 5, bg_free_inodes_count := 5\<rparr>],
      n_block_groups = 1, g_n_block_groups = 1, g_total_blocks = 100, g_blocks_in_last_group = 100\<rparr>"

lemma sample_ext2_words:
  "super_word s_blocks_per_group (sample_ext2 bs) = 100" "super_word s_inodes_per_group (sample_ext2 bs) = 16"
  "super_word s_log_block_size (sample_ext2 bs) = 0"
proof -
  have zero: "get32 (replicate 1024 0) 24 = 0" by (simp add: get32_def word32_def)
  show "super_word s_blocks_per_group (sample_ext2 bs) = 100" "super_word s_inodes_per_group (sample_ext2 bs) = 16"
    "super_word s_log_block_size (sample_ext2 bs) = 0"
    by (simp_all add: super_word_def sample_ext2_def ext2_fields get32_put_other zero)
qed

lemma sample_ext2_ok: "alloc_ok d_phase 1000 (sample_ext2 bs)"
  using sample_ext2_words [of bs]
  by (simp add: alloc_ok_def mounted_def)
    (simp add: sample_ext2_def sample_cache0_def upd_blists_def blank_drive_def zero_bgdesc_def decode_bgdesc_def ext2_fields)

lemma sample_ext2_apart: "apart 1000 (sample_ext2 bs) 3" "apart 1000 (sample_ext2 bs) 4"
  by (simp_all add: apart_def meta_blocks_def sample_ext2_words)

lemma bm_set_pad: "bm_set (xs @ replicate k 0) = bm_set xs"
proof -
  have nth: "(xs @ replicate k 0) ! i = (if i < length xs then xs ! i else 0)" if "i < length xs + k" for i
    using that by (auto simp: nth_append)
  have "n \<in> bm_set (xs @ replicate k 0) \<longleftrightarrow> n \<in> bm_set xs" for n
    by (cases "n div 8 < length xs + k"; cases "n div 8 < length xs") (auto simp: bm_set_def nth)
  then show ?thesis by blast
qed

lemma sample_ext2_bitmaps:
  assumes "length bs \<le> 512"
  shows "bm_set (fs_blocks pio_sector 1000 (sample_ext2 bs) 3) = bm_set bs" "bm_set (fs_blocks pio_sector 1000 (sample_ext2 bs) 4) = bm_set [3]"
proof -
  have "fs_blocks pio_sector 1000 (sample_ext2 bs) 3 = bs @ replicate (1024 - length bs) 0"
    "fs_blocks pio_sector 1000 (sample_ext2 bs) 4 = [3] @ replicate 1023 0"
    using assms by (simp_all add: fs_blocks_def disk_blocks_def sample_ext2_def sample_cache0_def upd_blists_def pio_sector_def
        replicate_add [symmetric] blank_drive_def)
  then show "bm_set (fs_blocks pio_sector 1000 (sample_ext2 bs) 3) = bm_set bs" "bm_set (fs_blocks pio_sector 1000 (sample_ext2 bs) 4) = bm_set [3]"
    by (simp_all only: bm_set_pad)
qed

lemma bm_set_prefix:
  assumes "r < 8"
  shows "bm_set (replicate k 255 @ [mask r]) = {..<8 * k + r}"
proof -
  have "n \<in> bm_set (replicate k 255 @ [mask r]) \<longleftrightarrow> n < 8 * k + r" for n
  proof (cases "n div 8 < k")
    case True
    then have "n < 8 * k" by (simp add: less_mult_imp_div_less div_less_iff_less_mult mult.commute)
    with True show ?thesis using byte_full [of 255] by (simp add: bm_set_def nth_append)
  next
    case False
    then have k: "8 * k \<le> n" by (simp add: not_less le_div_geq div_less_iff_less_mult mult.commute)
    show ?thesis
    proof (cases "n div 8 = k")
      case True
      then have "n = 8 * k + n mod 8" by (metis mult.commute mult_div_mod_eq)
      then have "n < 8 * k + r \<longleftrightarrow> n mod 8 < r" "n < 8 * k + 8" by linarith+
      with True assms show ?thesis by (simp add: bm_set_def nth_append bit_mask_iff)
    next
      case no: False
      with k False have "8 * k + 8 \<le> n" by (metis add.commute div_le_mono div_mult_self1_is_m le_antisym less_eq_div_iff_mult_less_eq mult.commute mult_Suc_right not_less_eq_eq zero_less_numeral)
      with assms show ?thesis by (auto simp: bm_set_def)
    qed
  qed
  then show ?thesis by blast
qed

lemma sample_bitmaps: "bm_set [255, 3] = {..<10}" "bm_set [255, 255, 1] = {..<17}" "bm_set [3] = {..<2}"
  using bm_set_prefix [of 2 1] bm_set_prefix [of 1 2] bm_set_prefix [of 2 0]
  by (simp_all add: mask_eq_exp_minus_1 numeral_2_eq_2)

lemma sample_least: "(LEAST n. n \<notin> bm_set [255, 3]) = 10" "(LEAST n. n \<notin> bm_set [255, 255, 1]) = 17"
  unfolding sample_bitmaps by (auto intro!: Least_equality)

lemma sample_next: "next_free 11 (bm_set [3]) = 16"
proof -
  have "candidate 11 {..<2} 16" by (auto simp: candidate_def)
  moreover have "16 \<le> m" if "candidate 11 {..<2} m" for m
  proof (rule ccontr)
    assume "\<not> 16 \<le> m"
    then have "8 < m" "8 div 8 = m div 8" using that by (auto simp: candidate_def)
    then have "(8 :: nat) \<in> {..<2}" using that unfolding candidate_def by blast
    then show False by simp
  qed
  ultimately have "(LEAST n. candidate 11 {..<2} n) = 16" by (intro Least_equality) auto
  with \<open>candidate 11 {..<2} 16\<close> show ?thesis unfolding next_free_def sample_bitmaps by auto
qed





text \<open>The inode allocator never hands out two different numbers.  The bit number it finds is returned as the inode
  number, but the bit it marks is the one before: two calls in a row return the same inode.\<close>

theorem reserve_free_inode_repeats:
  assumes "ata_drive io regs sec phase busy" and "alloc_ok phase N E"
    and "ib = bg_inode_bitmap (bgdt E ! 0)" and "apart N E ib" and "bg_free_inodes_count (bgdt E ! 0) \<noteq> 0"
    and "n = next_free 11 (bm_set (fs_blocks sec N E (unat ib)))" and "n \<noteq> 0" and "n \<le> ipg E" and "n \<le> bpg E"
  shows "\<exists>E' E''. reserve_free_inode io E = Some (Some (of_nat n), E') \<and> reserve_free_inode io E' = Some (Some (of_nat n), E'')"
proof -
  define E1 where "E1 = dec_super s_free_inodes_count E"
  obtain d where d: "reserve_free_inode io E = Some (Some (of_nat n), upd_drive d E1)" "phase d = Idle"
    "bm_set (fs_blocks sec N (upd_drive d E1) (unat ib)) = insert (n - 1) (bm_set (fs_blocks sec N E (unat ib)))"
    using ata_drive.reserve_inode_step [OF assms(1-9)] unfolding E1_def by blast
  have "n = next_free 11 (bm_set (fs_blocks sec N (upd_drive d E1) (unat ib)))"
    using next_free_off_by_one [of 11 "bm_set (fs_blocks sec N E (unat ib))"] assms(6,7) d(3) by simp
  moreover have "alloc_ok phase N (upd_drive d E1)" "apart N (upd_drive d E1) ib"
    "bpg (upd_drive d E1) = bpg E" "ipg (upd_drive d E1) = ipg E" "bgdt (upd_drive d E1) = bgdt E"
    using alloc_ok_dec_super [OF assms(2) disjI2 [OF refl]] d(2) assms(4) unfolding E1_def
    by (simp_all add: apart_def meta_blocks_def)
  ultimately obtain E'' where "reserve_free_inode io (upd_drive d E1) = Some (Some (of_nat n), E'')"
    using ata_drive.reserve_inode_step [OF assms(1), of N "upd_drive d E1" ib n] assms(3,5,7-9) by auto
  with d(1) show ?thesis by blast
qed

theorem reserve_free_inode_repeats_witness:
  "\<exists>E' E''. reserve_free_inode pio_io (sample_ext2 []) = Some (Some 16, E') \<and> reserve_free_inode pio_io E' = Some (Some 16, E'')"
proof -
  have d: "bg_inode_bitmap (bgdt (sample_ext2 []) ! 0) = 4" "bg_free_inodes_count (bgdt (sample_ext2 []) ! 0) \<noteq> 0"
    by (simp_all add: sample_ext2_def)
  have "16 = next_free 11 (bm_set (fs_blocks pio_sector 1000 (sample_ext2 []) (unat (4 :: u32))))"
    by (simp add: sample_ext2_bitmaps sample_next)
  from reserve_free_inode_repeats [OF pio.ata_drive_axioms sample_ext2_ok d(1) [symmetric] sample_ext2_apart(2) d(2) this]
  show ?thesis by (simp add: sample_ext2_words)
qed

end
