(* ===== verification/Mkfs.thy ===== *)
theory Mkfs
  imports Ext2_Balloc
begin

text \<open>
  Creation of an ext2 file system (\<^verbatim>\<open>fs/ext2/mkfs.c\<close>) and its composition with the block allocator and with mounting.

  The tables that the code builds in local buffers are values; messages are dropped.  Leaving the program by
  \<^verbatim>\<open>sys_exit\<close> is \<open>None\<close>.  All sizes are 32-bit words.
\<close>

section \<open>Sizes\<close>

definition SECTORS_PER_BLOCK_GROUP :: u32 where
  "SECTORS_PER_BLOCK_GROUP = of_nat SECTORS_PER_BLOCK * of_nat EXT2_BLOCKS_PER_GROUP"

definition calculate_block_groups :: "u32 \<Rightarrow> 'd ext2 \<Rightarrow> u32 \<times> 'd ext2" where
  "calculate_block_groups fs_size_mb E =
     (let E = E\<lparr>g_total_blocks := fs_size_mb * 1024\<rparr>;
          E = E\<lparr>g_n_block_groups := (g_total_blocks E + of_nat EXT2_BLOCKS_PER_GROUP - 1) div of_nat EXT2_BLOCKS_PER_GROUP\<rparr>;
          E = E\<lparr>g_blocks_in_last_group := g_total_blocks E mod of_nat EXT2_BLOCKS_PER_GROUP\<rparr>;
          E = (if g_blocks_in_last_group E = 0 then E\<lparr>g_blocks_in_last_group := of_nat EXT2_BLOCKS_PER_GROUP\<rparr> else E)
      in (g_n_block_groups E, E))"

definition inode_table_blocks :: u32 where
  "inode_table_blocks = (of_nat EXT2_INODES_PER_GROUP * 128 + of_nat EXT2_BLK_SIZE - 1) div of_nat EXT2_BLK_SIZE"

definition reserved_blocks_per_group :: u32 where
  "reserved_blocks_per_group = 1 + 1 + inode_table_blocks"

definition free_blocks_in_group :: "u32 \<Rightarrow> bool \<Rightarrow> 'd ext2 \<Rightarrow> u32" where
  "free_blocks_in_group group_idx has_super_backup E =
     (let reserved = reserved_blocks_per_group;
          total_blocks_in_group = (if group_idx = g_n_block_groups E - 1 then g_blocks_in_last_group E else of_nat EXT2_BLOCKS_PER_GROUP);
          reserved = (if has_super_backup then reserved + 2 else reserved)
      in total_blocks_in_group - reserved)"

section \<open>Super block and group descriptors\<close>

primrec total_free :: "nat \<Rightarrow> 'd ext2 \<Rightarrow> u32" where
  "total_free 0 E = 0"
| "total_free (Suc i) E = total_free i E + free_blocks_in_group (of_nat i) (i < 2) E"

definition ext2_make_super :: "u16 \<Rightarrow> 'd ext2 \<Rightarrow> u8 list" where
  "ext2_make_super block_group_nr E =
     (let b = replicate 1024 0;
          b = put32 s_inodes_per_group (of_nat EXT2_INODES_PER_GROUP) b;
          b = put32 s_blocks_per_group (of_nat EXT2_BLOCKS_PER_GROUP) b;
          b = put32 s_frags_per_group (of_nat EXT2_BLOCKS_PER_GROUP) b;
          b = put32 s_inodes_count (of_nat EXT2_INODES_PER_GROUP * g_n_block_groups E) b;
          b = put32 s_blocks_count (g_total_blocks E) b;
          b = put32 s_free_blocks_count (total_free (unat (g_n_block_groups E)) E) b;
          b = put32 s_free_inodes_count (get32 b s_inodes_count - 2) b;
          b = put32 s_first_data_block 1 b;
          b = put32 s_log_block_size 0 b;
          b = put32 s_log_frag_size 0 b;
          b = put16 s_magic EXT2_SUPER_MAGIC b;
          b = put16 s_state EXT2_VALID_FS b;
          b = put16 s_errors EXT2_ERRORS_RO b;
          b = put32 s_creator_os EXT2_OS_COW b;
          b = put32 s_rev_level 0 b;
          b = put32 s_checkinterval (push_bit 24 1) b;
          b = put32 s_first_ino EXT2_GOOD_OLD_FIRST_INO b;
          b = put16 s_inode_size EXT2_GOOD_OLD_INODE_SIZE b
      in put16 s_block_group_nr block_group_nr b)"

definition write_superblock :: "'d io_ports \<Rightarrow> u32 \<Rightarrow> u8 list \<Rightarrow> 'd \<Rightarrow> 'd option" where
  "write_superblock io location b d = disk_write io location b 1024 d"

definition make_bgdesc :: "nat \<Rightarrow> 'd ext2 \<Rightarrow> bgdesc_t" where
  "make_bgdesc i E =
     (let extra_blocks = (if i < 2 then 2 else 0);
          group_base = of_nat i * of_nat EXT2_BLOCKS_PER_GROUP
      in \<lparr>bg_block_bitmap = group_base + extra_blocks + 1, bg_inode_bitmap = group_base + extra_blocks + 2,
          bg_inode_table = group_base + extra_blocks + 3,
          bg_free_blocks_count = ucast (free_blocks_in_group (of_nat i) (i < 2) E),
          bg_free_inodes_count = (if i = 0 then of_nat EXT2_INODES_PER_GROUP - 2 else of_nat EXT2_INODES_PER_GROUP),
          bg_used_dirs_count = (if i = 0 then 1 else 0), bg_pad = 0, bg_reserved = replicate 12 0\<rparr>)"

definition make_bgdt :: "'d ext2 \<Rightarrow> bgdesc_t list" where
  "make_bgdt E = map (\<lambda>i. make_bgdesc i E) [0..<unat (g_n_block_groups E)]"

definition write_bgdt :: "'d io_ports \<Rightarrow> u32 \<Rightarrow> bgdesc_t list \<Rightarrow> 'd ext2 \<Rightarrow> 'd ext2 option" where
  "write_bgdt io addr table E =
     (let bgdt_size = g_n_block_groups E * 32
      in if of_nat EXT2_BLK_SIZE < bgdt_size then None
         else do {
           let buffer = concat (map encode_bgdesc table) @ replicate (EXT2_BLK_SIZE - unat bgdt_size) 0;
           d \<leftarrow> disk_write io addr buffer (of_nat EXT2_BLK_SIZE) (edrive E);
           Some (upd_drive d E)
         })"

section \<open>Groups\<close>

primrec mark_first :: "nat \<Rightarrow> u8 list \<Rightarrow> u8 list" where
  "mark_first 0 bitmap = bitmap"
| "mark_first (Suc i) bitmap =
     (let bitmap = mark_first i bitmap in bitmap[i div 8 := bitmap ! (i div 8) OR push_bit (i mod 8) 1])"

definition init_bitmaps :: "'d io_ports \<Rightarrow> u32 \<Rightarrow> u32 \<Rightarrow> u32 \<Rightarrow> 'd \<Rightarrow> 'd option" where
  "init_bitmaps io fs_lba group_start group_idx d = do {
     let bitmap = replicate EXT2_BLK_SIZE 0;
     let reserved = reserved_blocks_per_group;
     let reserved = (if group_idx < 2 then reserved + 2 else reserved);
     d \<leftarrow> disk_write io (fs_lba + (group_start + 0) * of_nat SECTORS_PER_BLOCK) (mark_first (unat reserved) bitmap) (of_nat EXT2_BLK_SIZE) d;
     let bitmap = (if group_idx = 0 then bitmap[0 := bitmap ! 0 OR 3] else bitmap);
     disk_write io (fs_lba + (group_start + 1) * of_nat SECTORS_PER_BLOCK) bitmap (of_nat EXT2_BLK_SIZE) d
   }"

primrec zero_table :: "'d io_ports \<Rightarrow> u32 \<Rightarrow> u32 \<Rightarrow> nat \<Rightarrow> 'd \<Rightarrow> 'd option" where
  "zero_table io fs_lba group_start 0 d = Some d"
| "zero_table io fs_lba group_start (Suc i) d = do {
     d \<leftarrow> zero_table io fs_lba group_start i d;
     disk_write io (fs_lba + (group_start + 2 + of_nat i) * of_nat SECTORS_PER_BLOCK) (replicate EXT2_BLK_SIZE 0) (of_nat EXT2_BLK_SIZE) d
   }"

definition init_inode_table :: "'d io_ports \<Rightarrow> u32 \<Rightarrow> u32 \<Rightarrow> 'd \<Rightarrow> 'd option" where
  "init_inode_table io fs_lba group_start d = zero_table io fs_lba group_start (unat inode_table_blocks) d"

primrec init_groups :: "'d io_ports \<Rightarrow> u32 \<Rightarrow> nat \<Rightarrow> 'd \<Rightarrow> 'd option" where
  "init_groups io fs_lba 0 d = Some d"
| "init_groups io fs_lba (Suc i) d = do {
     d \<leftarrow> init_groups io fs_lba i d;
     let bitmap_start = (if i < 2 then 2 else 0);
     let block_offset = of_nat i * of_nat EXT2_BLOCKS_PER_GROUP + bitmap_start;
     d \<leftarrow> init_bitmaps io fs_lba block_offset (of_nat i) d;
     init_inode_table io fs_lba block_offset d
   }"

primrec write_supers :: "'d io_ports \<Rightarrow> u32 \<Rightarrow> nat \<Rightarrow> 'd ext2 \<Rightarrow> 'd ext2 option" where
  "write_supers io fs_lba 0 E = Some E"
| "write_supers io fs_lba (Suc i) E = do {
     E \<leftarrow> write_supers io fs_lba i E;
     if i < 2 then do {
       d \<leftarrow> write_superblock io (fs_lba + of_nat i * SECTORS_PER_BLOCK_GROUP) (ext2_make_super (of_nat i) E) (edrive E);
       Some (upd_drive d E)
     } else Some E
   }"

section \<open>The file system\<close>

text \<open>Only the first sector of the super block is read; all fields that are used lie in it.\<close>

definition show_fs :: "'d io_ports \<Rightarrow> u32 \<Rightarrow> 'd ext2 \<Rightarrow> 'd ext2 option" where
  "show_fs io mb E = do {
     let fs_lba = fs_start_to_lba_superblk mb E;
     (sb, d) \<leftarrow> disk_read io fs_lba (edrive E);
     let E = upd_drive d E;
     let per_group = get32 sb s_blocks_per_group;
     let total = get32 sb s_blocks_count;
     if get16 sb s_magic \<noteq> EXT2_SUPER_MAGIC then Some E
     else if per_group = 0 then None
     else do {
       let n_groups = (total + per_group - 1) div per_group;
       let E = E\<lparr>g_n_block_groups := n_groups, g_total_blocks := total, g_blocks_in_last_group := total mod per_group\<rparr>;
       Some (if g_blocks_in_last_group E = 0 then E\<lparr>g_blocks_in_last_group := per_group\<rparr> else E)
     }
   }"

definition finish_fs_init :: "'d io_ports \<Rightarrow> u32 \<Rightarrow> 'd ext2 \<Rightarrow> 'd ext2 option" where
  "finish_fs_init io mb E = show_fs io mb E"

definition mkfs :: "'d io_ports \<Rightarrow> u32 \<Rightarrow> u32 \<Rightarrow> 'd ext2 \<Rightarrow> 'd ext2 option" where
  "mkfs io mb len E = do {
     let fs_lba = fs_start_to_lba_superblk mb E;
     let (n_groups, E) = calculate_block_groups len E;
     (table, slab) \<leftarrow> kmalloc (g_n_block_groups E * 32) 0 (bslab (bcache E));
     let E = E\<lparr>bcache := (bcache E)\<lparr>bslab := slab\<rparr>\<rparr>;
     if table = 0 then None
     else do {
       let ds = make_bgdt E;
       E \<leftarrow> write_supers io fs_lba (unat (g_n_block_groups E)) E;
       E \<leftarrow> write_bgdt io (fs_lba + of_nat SECTORS_PER_BLOCK) ds E;
       E \<leftarrow> write_bgdt io (fs_lba + SECTORS_PER_BLOCK_GROUP + of_nat SECTORS_PER_BLOCK) ds E;
       d \<leftarrow> init_groups io fs_lba (unat (g_n_block_groups E)) (edrive E);
       let E = upd_drive d E;
       slab \<leftarrow> kfree table (bslab (bcache E));
       finish_fs_init io mb (E\<lparr>bcache := (bcache E)\<lparr>bslab := slab\<rparr>\<rparr>)
     }
   }"


section \<open>Sizes and bitmaps\<close>

lemma table_sizes: "inode_table_blocks = 128" "reserved_blocks_per_group = 130" "of_nat SECTORS_PER_BLOCK = (2 :: u32)"
  "SECTORS_PER_BLOCK_GROUP = 16384" "of_nat EXT2_BLK_SIZE = (1024 :: u32)" "of_nat EXT2_BLOCKS_PER_GROUP = (8192 :: u32)"
  "of_nat EXT2_INODES_PER_GROUP = (1024 :: u32)"
  by (simp_all add: inode_table_blocks_def reserved_blocks_per_group_def SECTORS_PER_BLOCK_def SECTORS_PER_BLOCK_GROUP_def ext2_consts)

lemma length_mark_first [simp]: "length (mark_first n bm) = length bm"
  by (induction n) (simp_all add: Let_def)

lemma mark_first_set: "n \<le> 8192 \<Longrightarrow> length bm = 1024 \<Longrightarrow> bm_set (mark_first n bm) = {..<n} \<union> bm_set bm"
proof (induction n)
  case (Suc n)
  have n: "unat (of_nat n :: u16) = n" using Suc.prems by (simp add: unsigned_of_nat take_bit_nat_eq_self)
  have "unat (of_nat n div 8 :: u16) = n div 8" "unat (of_nat n mod 8 :: u16) = n mod 8" by (simp_all add: unat_div unat_mod n)
  then have "bm_set (mark_first (Suc n) bm) = insert n (bm_set (mark_first n bm))"
    using bm_bits [of "of_nat n" "mark_first n bm"] Suc.prems n by (auto simp: bm_set_bit_def Let_def split: if_splits)
  with Suc show ?case by (simp add: lessThan_Suc)
qed simp

lemma bm_set_zero [simp]: "bm_set (replicate k 0) = {}"
  using bm_set_pad [of "[]" k] by (simp add: bm_set_def)

text \<open>Blocks taken by the copies of the super block and of the descriptors, first block of the bitmaps less one, and the
  blocks that \<open>init_groups\<close> writes in a group.\<close>

definition backup :: "nat \<Rightarrow> nat" where
  "backup g = (if g < 2 then 2 else 0)"

definition group_start :: "nat \<Rightarrow> nat" where
  "group_start g = 8192 * g + backup g"

definition group_area :: "nat \<Rightarrow> nat set" where
  "group_area g = {group_start g + 1 ..< group_start g + 131}"

definition group_ok :: "(nat \<Rightarrow> u8 list) \<Rightarrow> nat \<Rightarrow> bool" where
  "group_ok f g \<longleftrightarrow> bm_set (f (group_start g + 1)) = {..<130 + backup g} \<and> bm_set (f (group_start g + 2)) = (if g = 0 then {..<2} else {})
     \<and> (\<forall>k < 128. f (group_start g + 3 + k) = replicate 1024 0)"

lemma group_ok_cong: "(\<And>m. m \<in> group_area g \<Longrightarrow> f' m = f m) \<Longrightarrow> group_ok f' g = group_ok f g"
  by (auto simp: group_ok_def group_area_def)

lemma group_area_disjoint: "g < h \<Longrightarrow> group_area g \<inter> group_area h = {}"
  by (auto simp: group_area_def group_start_def backup_def)

context ata_drive
begin

lemma zero_table_ok:
  assumes "phase d = Idle" "unat base + 2 * N \<le> 2 ^ 24" "gs + 3 + n \<le> N"
  shows "\<exists>d'. zero_table io (base + 2) (of_nat gs) n d = Some d' \<and> phase d' = Idle \<and> disk_blocks N base (sec d') =
    (\<lambda>m. if gs + 3 \<le> m \<and> m < gs + 3 + n then replicate 1024 0 else disk_blocks N base (sec d) m)"
  using assms(3)
proof (induction n)
  case 0
  have "(\<lambda>m. if gs + 3 \<le> m \<and> m < gs + 3 + 0 then replicate 1024 0 else disk_blocks N base (sec d) m) = disk_blocks N base (sec d)"
    by (auto simp: fun_eq_iff)
  with assms(1) show ?case by auto
next
  case (Suc n)
  then obtain d1 where d1: "zero_table io (base + 2) (of_nat gs) n d = Some d1" "phase d1 = Idle" "disk_blocks N base (sec d1) =
    (\<lambda>m. if gs + 3 \<le> m \<and> m < gs + 3 + n then replicate 1024 0 else disk_blocks N base (sec d) m)" by auto
  have a: "base + 2 + (of_nat gs + 2 + of_nat n) * 2 = base + 2 * of_nat (gs + 3 + n)" by (simp add: algebra_simps)
  obtain d2 where d2: "disk_write io (base + 2 * of_nat (gs + 3 + n)) (replicate 1024 0) 1024 d1 = Some d2" "phase d2 = Idle"
    "disk_blocks N base (sec d2) = (disk_blocks N base (sec d1))(gs + 3 + n := replicate 1024 0)"
    using write_block [OF d1(2) assms(2), of "gs + 3 + n" "replicate 1024 0"] Suc.prems by auto
  have "disk_blocks N base (sec d2) =
      (\<lambda>m. if gs + 3 \<le> m \<and> m < gs + 3 + Suc n then replicate 1024 0 else disk_blocks N base (sec d) m)"
    unfolding d2(3) d1(3) by (auto simp: fun_eq_iff)
  then show ?case unfolding zero_table.simps table_sizes a EXT2_BLK_SIZE_def d1(1) Option.bind_lunit of_nat_numeral d2(1) using d2(2) by blast
qed

lemma init_bitmaps_ok:
  assumes "phase d = Idle" "unat base + 2 * N \<le> 2 ^ 24" "gs + 3 \<le> N" "g < 2 ^ 32"
  shows "\<exists>d' bm ibm. init_bitmaps io (base + 2) (of_nat gs) (of_nat g) d = Some d' \<and> phase d' = Idle
    \<and> disk_blocks N base (sec d') = (disk_blocks N base (sec d))(gs + 1 := bm, gs + 2 := ibm)
    \<and> bm_set bm = {..<130 + backup g} \<and> bm_set ibm = (if g = 0 then {..<2} else {})"
proof -
  define r :: u32 where "r = (if (of_nat g :: u32) < 2 then 130 + 2 else 130)"
  define ibm :: "u8 list" where "ibm = (if (of_nat g :: u32) = 0 then (replicate 1024 0)[0 := replicate 1024 0 ! 0 OR 3] else replicate 1024 0)"
  have ibm_len: "length ibm = 1024" by (simp add: ibm_def)
  have g: "(of_nat g :: u32) < 2 \<longleftrightarrow> g < 2" "(of_nat g :: u32) = 0 \<longleftrightarrow> g = 0"
    using assms(4) by (simp_all add: word_less_nat_alt unat_of_nat_u32 of_nat_u32_inj [of g 0, simplified])
  have r: "unat r = 130 + backup g" by (simp add: r_def g backup_def)
  have "bm_set (mark_first (unat r) (replicate 1024 0)) = {..<130 + backup g}"
    unfolding r by (subst mark_first_set) (simp_all add: backup_def)
  moreover have "(replicate 1024 0)[0 := 3] = replicate 0 255 @ [mask 2] @ replicate 1023 (0 :: u8)"
    by (simp add: numeral_eq_Suc mask_eq_exp_minus_1)
  then have "bm_set ibm = (if g = 0 then {..<2} else {})"
    using bm_set_prefix [of 2 0] bm_set_pad [of "[mask 2]" 1023] by (simp add: ibm_def g)
  moreover have a: "base + 2 + (of_nat gs + 0) * 2 = base + 2 * of_nat (gs + 1)"
    "base + 2 + (of_nat gs + 1) * 2 = base + 2 * of_nat (gs + 2)" by (simp_all add: algebra_simps)
  obtain d1 where d1: "disk_write io (base + 2 * of_nat (gs + 1)) (mark_first (unat r) (replicate 1024 0)) 1024 d = Some d1" "phase d1 = Idle"
    "disk_blocks N base (sec d1) = (disk_blocks N base (sec d))(gs + 1 := mark_first (unat r) (replicate 1024 0))"
    using write_block [OF assms(1,2), of "gs + 1" "mark_first (unat r) (replicate 1024 0)"] assms(3) by auto
  moreover obtain d2 where "disk_write io (base + 2 * of_nat (gs + 2)) ibm 1024 d1 = Some d2" "phase d2 = Idle"
    "disk_blocks N base (sec d2) = (disk_blocks N base (sec d1))(gs + 2 := ibm)"
    using write_block [OF d1(2) assms(2), of "gs + 2" ibm] assms(3) ibm_len by auto
  ultimately show ?thesis
    unfolding init_bitmaps_def table_sizes Let_def a r_def [symmetric] EXT2_BLK_SIZE_def ibm_def [symmetric]
    by (intro exI [of _ d2] exI [of _ "mark_first (unat r) (replicate 1024 0)"] exI [of _ ibm]) (simp del: fun_upd_apply)
qed

lemma init_groups_ok:
  assumes "phase d = Idle" "unat base + 2 * N \<le> 2 ^ 24" "n \<le> 2 ^ 16" "\<And>g. g < n \<Longrightarrow> group_start g + 131 \<le> N"
  shows "\<exists>d'. init_groups io (base + 2) n d = Some d' \<and> phase d' = Idle \<and> (\<forall>g < n. group_ok (disk_blocks N base (sec d')) g)
    \<and> (\<forall>m. (\<forall>g < n. m \<notin> group_area g) \<longrightarrow> disk_blocks N base (sec d') m = disk_blocks N base (sec d) m)"
  using assms(3,4)
proof (induction n)
  case 0
  with assms(1) show ?case by simp
next
  case (Suc n)
  let ?f = "\<lambda>d. disk_blocks N base (sec d)" and ?gs = "group_start n"
  obtain d1 where d1: "init_groups io (base + 2) n d = Some d1" "phase d1 = Idle" "\<forall>g < n. group_ok (?f d1) g"
    "\<forall>m. (\<forall>g < n. m \<notin> group_area g) \<longrightarrow> ?f d1 m = ?f d m" using Suc by auto
  have room: "?gs + 131 \<le> N" "n < 2 ^ 32" using Suc.prems by auto
  have off: "of_nat n * 8192 + (if n < 2 then 2 else 0) = (of_nat ?gs :: u32)" by (simp add: group_start_def backup_def)
  obtain d2 bm ibm where d2: "init_bitmaps io (base + 2) (of_nat ?gs) (of_nat n) d1 = Some d2" "phase d2 = Idle"
    "?f d2 = (?f d1)(?gs + 1 := bm, ?gs + 2 := ibm)" "bm_set bm = {..<130 + backup n}" "bm_set ibm = (if n = 0 then {..<2} else {})"
    using init_bitmaps_ok [OF d1(2) assms(2) _ room(2), of ?gs] room(1) by auto
  obtain d3 where d3: "zero_table io (base + 2) (of_nat ?gs) 128 d2 = Some d3" "phase d3 = Idle"
    "?f d3 = (\<lambda>m. if ?gs + 3 \<le> m \<and> m < ?gs + 3 + 128 then replicate 1024 0 else ?f d2 m)"
    using zero_table_ok [OF d2(2) assms(2), of ?gs 128] room(1) by auto
  have "?f d3 m = ?f d1 m" if "m \<notin> group_area n" for m
    using that unfolding d3(3) d2(3) by (auto simp: group_area_def)
  note other = this
  have "group_ok (?f d3) n" using d2(4,5) unfolding d3(3) d2(3) by (simp add: group_ok_def)
  moreover have "group_ok (?f d3) g" if "g < n" for g
    using d1(3) that group_area_disjoint [OF that] by (subst group_ok_cong [of g "?f d3" "?f d1"]) (auto intro: other)
  ultimately have "\<forall>g < Suc n. group_ok (?f d3) g" using less_SucE by blast
  moreover have "\<forall>m. (\<forall>g < Suc n. m \<notin> group_area g) \<longrightarrow> ?f d3 m = ?f d m" using other d1(4) by auto
  moreover have "init_groups io (base + 2) (Suc n) d = Some d3"
    unfolding init_groups.simps d1(1) table_sizes off Let_def using d2(1) d3(1) by (simp add: init_inode_table_def table_sizes)
  ultimately show ?case using d3(2) by blast
qed

end

section \<open>The tables on the disk\<close>

text \<open>Fields of a buffer of one block.\<close>

lemma block_put:
  assumes "length bs = 1024"
  shows "i + 4 \<le> 1024 \<Longrightarrow> length (put32 i w bs) = 1024" "i + 2 \<le> 1024 \<Longrightarrow> length (put16 i v bs) = 1024"
    "i + 4 \<le> 1024 \<Longrightarrow> i = j \<or> i + 4 \<le> j \<or> j + 4 \<le> i \<Longrightarrow> get32 (put32 i w bs) j = (if i = j then w else get32 bs j)"
    "i + 2 \<le> 1024 \<Longrightarrow> i + 2 \<le> j \<or> j + 4 \<le> i \<Longrightarrow> get32 (put16 i v bs) j = get32 bs j"
    "i + 4 \<le> 1024 \<Longrightarrow> i + 4 \<le> j \<or> j + 2 \<le> i \<Longrightarrow> get16 (put32 i w bs) j = get16 bs j"
    "i + 2 \<le> 1024 \<Longrightarrow> i = j \<or> i + 2 \<le> j \<or> j + 2 \<le> i \<Longrightarrow> get16 (put16 i v bs) j = (if i = j then v else get16 bs j)"
  using assms by (auto simp: get32_put_other get16_put_other)

lemma length_make_super [simp]: "length (ext2_make_super nr E) = 1024"
  unfolding ext2_make_super_def Let_def ext2_fields by (simp add: block_put del: length_put)

lemma make_super_words:
  "get32 (ext2_make_super nr E) s_blocks_per_group = 8192" "get32 (ext2_make_super nr E) s_inodes_per_group = 1024"
  "get32 (ext2_make_super nr E) s_log_block_size = 0" "get32 (ext2_make_super nr E) s_blocks_count = g_total_blocks E"
  "get16 (ext2_make_super nr E) s_magic = EXT2_SUPER_MAGIC"
  "get32 (ext2_make_super nr E) s_free_blocks_count = total_free (unat (g_n_block_groups E)) E"
  unfolding ext2_make_super_def Let_def ext2_fields by (simp_all add: block_put table_sizes del: length_put get_put)

lemma tables_bcache [simp]: "free_blocks_in_group i b (E\<lparr>bcache := c\<rparr>) = free_blocks_in_group i b E"
  "total_free n (E\<lparr>bcache := c\<rparr>) = total_free n E" "ext2_make_super nr (E\<lparr>bcache := c\<rparr>) = ext2_make_super nr E"
  "make_bgdt (E\<lparr>bcache := c\<rparr>) = make_bgdt E"
proof -
  show free: "free_blocks_in_group i b (E\<lparr>bcache := c\<rparr>) = free_blocks_in_group i b E" for i b
    by (simp add: free_blocks_in_group_def)
  show total: "total_free n (E\<lparr>bcache := c\<rparr>) = total_free n E" for n by (induction n) (simp_all add: free)
  show "ext2_make_super nr (E\<lparr>bcache := c\<rparr>) = ext2_make_super nr E" by (simp add: ext2_make_super_def total)
  show "make_bgdt (E\<lparr>bcache := c\<rparr>) = make_bgdt E" by (simp add: make_bgdt_def make_bgdesc_def free)
qed

lemma tables_upd_drive [simp]: "ext2_make_super nr (upd_drive d E) = ext2_make_super nr E"
  "make_bgdt (upd_drive d E) = make_bgdt E" "g_n_block_groups (upd_drive d E) = g_n_block_groups E"
  "g_total_blocks (upd_drive d E) = g_total_blocks E" "g_blocks_in_last_group (upd_drive d E) = g_blocks_in_last_group E"
  by (simp_all add: upd_drive_def)

lemma length_bgdt_bytes: "length (concat (map encode_bgdesc (make_bgdt E))) = 32 * unat (g_n_block_groups E)"
  by (subst length_encode_bgdt) (auto simp: make_bgdt_def make_bgdesc_def Let_def)

definition bgdt_block :: "'d ext2 \<Rightarrow> u8 list" where
  "bgdt_block E = concat (map encode_bgdesc (make_bgdt E)) @ replicate (1024 - 32 * unat (g_n_block_groups E)) 0"

lemma bgdt_block_frame [simp]: "bgdt_block (upd_drive d E) = bgdt_block E" "bgdt_block (E\<lparr>bcache := c\<rparr>) = bgdt_block E"
  by (simp_all add: bgdt_block_def)

context ata_drive
begin

lemma write_supers_ok:
  assumes "phase (edrive E) = Idle" "unat base + 2 * N \<le> 2 ^ 24" "8194 \<le> N"
  shows "\<exists>d'. write_supers io (base + 2) n E = Some (upd_drive d' E) \<and> phase d' = Idle
    \<and> disk_blocks N base (sec d') = (\<lambda>m. if m = 1 \<and> 0 < n then ext2_make_super 0 E else if m = 8193 \<and> 1 < n then ext2_make_super 1 E
        else disk_blocks N base (sec (edrive E)) m)"
proof (induction n)
  case 0
  have "upd_drive (edrive E) E = E" by (simp add: upd_drive_def)
  with assms(1) show ?case by (auto intro!: exI [of _ "edrive E"])
next
  case (Suc n)
  then obtain d1 where d1: "write_supers io (base + 2) n E = Some (upd_drive d1 E)" "phase d1 = Idle"
    "disk_blocks N base (sec d1) = (\<lambda>m. if m = 1 \<and> 0 < n then ext2_make_super 0 E else if m = 8193 \<and> 1 < n then ext2_make_super 1 E
        else disk_blocks N base (sec (edrive E)) m)" by auto
  show ?case
  proof (cases "n < 2")
    case True
    have a: "base + 2 + of_nat n * 16384 = base + 2 * of_nat (1 + 8192 * n)" by (simp add: algebra_simps)
    obtain d2 where d2: "disk_write io (base + 2 * of_nat (1 + 8192 * n)) (ext2_make_super (of_nat n) E) 1024 d1 = Some d2" "phase d2 = Idle"
      "disk_blocks N base (sec d2) = (disk_blocks N base (sec d1))(1 + 8192 * n := ext2_make_super (of_nat n) E)"
      using write_block [OF d1(2) assms(2), of "1 + 8192 * n" "ext2_make_super (of_nat n) E"] assms(3) True by auto
    have "n = 0 \<or> n = 1" using True by auto
    then have "disk_blocks N base (sec d2) = (\<lambda>m. if m = 1 \<and> 0 < Suc n then ext2_make_super 0 E
        else if m = 8193 \<and> 1 < Suc n then ext2_make_super 1 E else disk_blocks N base (sec (edrive E)) m)"
      unfolding d2(3) d1(3) by (auto simp: fun_eq_iff)
    with d1(1) d2(1,2) True show ?thesis unfolding write_supers.simps table_sizes write_superblock_def a by (intro exI [of _ d2]) simp
  next
    case False
    with d1 show ?thesis by (intro exI [of _ d1]) (auto simp: fun_eq_iff)
  qed
qed

lemma write_bgdt_ok:
  assumes "phase (edrive E) = Idle" "unat base + 2 * N \<le> 2 ^ 24" "k < N" "unat (g_n_block_groups E) \<le> 32"
  shows "\<exists>d'. write_bgdt io (base + 2 * of_nat k) (make_bgdt E) E = Some (upd_drive d' E) \<and> phase d' = Idle
    \<and> disk_blocks N base (sec d') = (disk_blocks N base (sec (edrive E)))(k := bgdt_block E)"
proof -
  have n: "unat (g_n_block_groups E * 32) = 32 * unat (g_n_block_groups E)" using assms(4) by (simp add: unat_word_ariths)
  then have "\<not> 1024 < g_n_block_groups E * 32" using assms(4) by (simp add: word_less_nat_alt)
  moreover have len: "length (bgdt_block E) = 1024" using assms(4) by (simp add: bgdt_block_def length_bgdt_bytes)
  obtain d' where "disk_write io (base + 2 * of_nat k) (bgdt_block E) 1024 (edrive E) = Some d'" "phase d' = Idle"
    "disk_blocks N base (sec d') = (disk_blocks N base (sec (edrive E)))(k := bgdt_block E)"
    using write_block [OF assms(1-3) len] by blast
  ultimately show ?thesis
    unfolding write_bgdt_def Let_def table_sizes n EXT2_BLK_SIZE_def bgdt_block_def [symmetric] by (intro exI [of _ d']) simp
qed

end

section \<open>A new file system\<close>

text \<open>Number of groups and size of each group.\<close>

definition groups_of :: "u32 \<Rightarrow> nat" where
  "groups_of len = (unat len + 7) div 8"

definition group_size :: "u32 \<Rightarrow> nat \<Rightarrow> nat" where
  "group_size len g = (if g = groups_of len - 1 then 1024 * unat len - 8192 * g else 8192)"

lemma group_bounds:
  assumes "0 < len" "len \<le> 256"
  shows "0 < groups_of len" "groups_of len \<le> 32" "8192 * (groups_of len - 1) + 1024 \<le> 1024 * unat len"
    "1024 * unat len \<le> 8192 * groups_of len" "0 < unat len" "unat len \<le> 256"
proof -
  show L: "0 < unat len" "unat len \<le> 256" using assms by (simp_all add: word_less_nat_alt word_le_nat_alt)
  show "0 < groups_of len" "groups_of len \<le> 32" "8192 * (groups_of len - 1) + 1024 \<le> 1024 * unat len"
    "1024 * unat len \<le> 8192 * groups_of len"
    using L unfolding groups_of_def by linarith+
qed

lemma group_numbers:
  assumes "0 < len" "len \<le> 256"
  shows "unat (g_total_blocks (snd (calculate_block_groups len E))) = 1024 * unat len"
    "unat (g_n_block_groups (snd (calculate_block_groups len E))) = groups_of len"
    "unat (g_blocks_in_last_group (snd (calculate_block_groups len E))) = group_size len (groups_of len - 1)"
proof -
  note L = group_bounds(5,6) [OF assms]
  have t: "unat (len * 1024) = 1024 * unat len" using L by (simp add: unat_word_ariths)
  have e: "len * 1024 + 8192 - 1 = len * 1024 + 8191" by simp
  have t': "unat (len * 1024 + 8191) = 1024 * unat len + 8191" using L t by (simp add: unat_word_ariths)
  have n: "(1024 * unat len + 8191) div 8192 = groups_of len" unfolding groups_of_def by linarith
  show "unat (g_total_blocks (snd (calculate_block_groups len E))) = 1024 * unat len"
    by (simp add: calculate_block_groups_def table_sizes t Let_def)
  have "g_n_block_groups (snd (calculate_block_groups len E)) = (len * 1024 + 8192 - 1) div 8192"
    by (simp add: calculate_block_groups_def table_sizes Let_def)
  then show "unat (g_n_block_groups (snd (calculate_block_groups len E))) = groups_of len"
    unfolding e by (simp add: unat_div t' n)
  have m: "unat (len * 1024 mod 8192) = 1024 * unat len mod 8192" by (simp add: unat_mod t)
  have s: "group_size len (groups_of len - 1) = (if 1024 * unat len mod 8192 = 0 then 8192 else 1024 * unat len mod 8192)"
  proof -
    define q where "q = unat len"
    have "1024 * q - 8192 * ((q + 7) div 8 - 1) = (if 1024 * q mod 8192 = 0 then 8192 else 1024 * q mod 8192)"
      if "0 < q" for q :: nat
    proof -
      obtain a r where q: "q = 8 * a + r" "r < 8" using that by (metis mod_less_divisor mult_div_mod_eq zero_less_numeral)
      show ?thesis
      proof (cases "r = 0")
        case True
        with q that have "(q + 7) div 8 = a" "0 < a" "1024 * q mod 8192 = 0" by auto
        then show ?thesis using q True by simp
      next
        case False
        with q have "(q + 7) div 8 = a + 1" "1024 * q mod 8192 = 1024 * r" by auto
        then show ?thesis using q False by simp
      qed
    qed
    then show ?thesis using L unfolding group_size_def groups_of_def by simp
  qed
  have "g_blocks_in_last_group (snd (calculate_block_groups len E)) = (if len * 1024 mod 8192 = 0 then 8192 else len * 1024 mod 8192)"
    by (simp add: calculate_block_groups_def table_sizes Let_def)
  moreover have "(len * 1024 mod 8192 = 0) = (1024 * unat len mod 8192 = 0)" using m by (metis unat_eq_zero)
  ultimately show "unat (g_blocks_in_last_group (snd (calculate_block_groups len E))) = group_size len (groups_of len - 1)"
    unfolding s using m by simp
qed

lemma free_count:
  assumes "0 < len" "len \<le> 256" "G = snd (calculate_block_groups len E)" "g < groups_of len"
  shows "unat (free_blocks_in_group (of_nat g) (g < 2) G) = group_size len g - (130 + backup g)" "130 + backup g \<le> group_size len g" "group_size len g \<le> 8192"
proof -
  note n = group_numbers [OF assms(1,2), of E] and b = group_bounds [OF assms(1,2)]
  have last: "1024 \<le> group_size len (groups_of len - 1)" "group_size len (groups_of len - 1) \<le> 8192"
    using b(1,3,4) by (simp_all add: group_size_def)
  then show size: "130 + backup g \<le> group_size len g" "group_size len g \<le> 8192" by (auto simp: group_size_def backup_def)
  have "unat (g_n_block_groups G - 1) = groups_of len - 1"
    using n(2) b(1) assms(3) by (subst unat_sub) (simp_all add: word_le_nat_alt)
  then have "(of_nat g = g_n_block_groups G - 1) = (g = groups_of len - 1)"
    using assms(4) b(2) by (auto simp: unat_of_nat_u32 word_unat_eq_iff)
  then have t: "unat (if of_nat g = g_n_block_groups G - 1 then g_blocks_in_last_group G else 8192) = group_size len g"
    using n(3) assms(3) by (simp add: group_size_def)
  have r: "unat (if g < 2 then 130 + 2 else 130 :: u32) = 130 + backup g" by (simp add: backup_def)
  show "unat (free_blocks_in_group (of_nat g) (g < 2) G) = group_size len g - (130 + backup g)"
    unfolding free_blocks_in_group_def table_sizes Let_def using size t r
    by (subst unat_sub) (simp_all add: word_le_nat_alt)
qed

lemma make_bgdt_nth:
  assumes "0 < len" "len \<le> 256" "G = snd (calculate_block_groups len E)" "g < groups_of len"
  shows "unat (bg_block_bitmap (make_bgdt G ! g)) = group_start g + 1" "unat (bg_inode_bitmap (make_bgdt G ! g)) = group_start g + 2"
    "unat (bg_inode_table (make_bgdt G ! g)) = group_start g + 3"
    "unat (bg_free_blocks_count (make_bgdt G ! g)) = group_size len g - (130 + backup g)"
    "length (make_bgdt G) = groups_of len" "length (bg_reserved (make_bgdt G ! g)) = 12"
proof -
  note n = group_numbers [OF assms(1,2), of E] and b = group_bounds [OF assms(1,2)]
  have d: "make_bgdt G ! g = make_bgdesc g G" using assms(3,4) n(2) by (simp add: make_bgdt_def)
  show "length (make_bgdt G) = groups_of len" using assms(3) n(2) by (simp add: make_bgdt_def)
  have w: "of_nat g * 8192 + (if g < 2 then 2 else 0) + k = (of_nat (group_start g + unat k) :: u32)" for k :: u32
    by (simp add: group_start_def backup_def)
  have u: "unat (of_nat (group_start g + k) :: u32) = group_start g + k" if "k \<le> 3" for k
    using that assms(4) b(2) by (intro unat_of_nat_u32) (simp add: group_start_def backup_def)
  show "unat (bg_block_bitmap (make_bgdt G ! g)) = group_start g + 1" "unat (bg_inode_bitmap (make_bgdt G ! g)) = group_start g + 2"
    "unat (bg_inode_table (make_bgdt G ! g)) = group_start g + 3" "length (bg_reserved (make_bgdt G ! g)) = 12"
    unfolding d make_bgdesc_def Let_def table_sizes bgdesc_t.simps w using u [of 1] u [of 2] u [of 3] by simp_all
  note f = free_count [OF assms]
  have "unat (ucast (free_blocks_in_group (of_nat g) (g < 2) G) :: u16) = unat (free_blocks_in_group (of_nat g) (g < 2) G)"
    using f by (simp add: unsigned_ucast_eq take_bit_nat_eq_self)
  then show "unat (bg_free_blocks_count (make_bgdt G ! g)) = group_size len g - (130 + backup g)"
    unfolding d make_bgdesc_def Let_def using f(1) by simp
qed

lemma total_free_sum:
  assumes "0 < len" "len \<le> 256" "G = snd (calculate_block_groups len E)" "n \<le> groups_of len"
  shows "unat (total_free n G) = (\<Sum>g < n. group_size len g - (130 + backup g)) \<and> unat (total_free n G) \<le> 8192 * n"
  using assms(4)
proof (induction n)
  case (Suc n)
  note f = free_count [OF assms(1-3) Suc_le_lessD [OF Suc.prems]] and IH = Suc.IH [OF Suc_leD [OF Suc.prems]]
  have "unat (free_blocks_in_group (of_nat n) (n < 2) G) \<le> 8192" unfolding f(1) using f(3) by simp
  then have le: "unat (total_free n G) + unat (free_blocks_in_group (of_nat n) (n < 2) G) \<le> 8192 * Suc n"
    using conjunct2 [OF IH] by simp
  moreover have "Suc n \<le> 32" using Suc.prems group_bounds(2) [OF assms(1,2)] by simp
  ultimately have "unat (total_free n G + free_blocks_in_group (of_nat n) (n < 2) G) =
      unat (total_free n G) + unat (free_blocks_in_group (of_nat n) (n < 2) G)" by (intro unat_add_lem [THEN iffD1]) simp
  with IH f le show ?case by simp
qed simp

text \<open>A drive with room for the file system and for the second copies of the tables, and a heap with room for the
  descriptors, while a super block with blocks of 1024 bytes is loaded.\<close>

definition mkfs_ready :: "('d \<Rightarrow> ata_phase) \<Rightarrow> nat \<Rightarrow> u32 \<Rightarrow> u32 \<Rightarrow> 'd ext2 \<Rightarrow> bool" where
  "mkfs_ready phase N mb len E \<longleftrightarrow> phase (edrive E) = Idle \<and> super_word s_log_block_size E = 0 \<and> length (super E) = 1024
     \<and> 0 < len \<and> len \<le> 256 \<and> 8195 \<le> N \<and> 1024 * unat len \<le> N \<and> unat (mb_to_lba mb) + 2 * N \<le> 2 ^ 24
     \<and> (\<exists>p S S'. kmalloc (32 * of_nat (groups_of len)) 0 (bslab (bcache E)) = Some (p, S) \<and> p \<noteq> 0 \<and> kfree p S = Some S')"

lemma calculate_frame: "bcache (snd (calculate_block_groups len E)) = bcache E" "super (snd (calculate_block_groups len E)) = super E"
  "bgdt (snd (calculate_block_groups len E)) = bgdt E"
  by (simp_all add: calculate_block_groups_def Let_def)

lemma calculate_fields:
  assumes "G = snd (calculate_block_groups len E)"
  shows "g_n_block_groups G = (g_total_blocks G + 8192 - 1) div 8192"
    "g_blocks_in_last_group G = (if g_total_blocks G mod 8192 = 0 then 8192 else g_total_blocks G mod 8192)"
  by (simp_all add: assms calculate_block_groups_def table_sizes Let_def)

lemma get_prefix: "i + 4 \<le> length xs \<Longrightarrow> get32 (xs @ ys) i = get32 xs i" "i + 2 \<le> length xs \<Longrightarrow> get16 (xs @ ys) i = get16 xs i"
  by (simp_all add: get32_def get16_def nth_append)

context ata_drive
begin

text \<open>Showing the new file system recomputes the sizes it was made with.\<close>

lemma show_fs_ok:
  assumes "phase (edrive E) = Idle" "super_word s_log_block_size E = 0" "unat (mb_to_lba mb) + 2 * N \<le> 2 ^ 24" "1 < N"
    "disk_blocks N (mb_to_lba mb) (sec (edrive E)) 1 = ext2_make_super nr E"
    "g_n_block_groups E = (g_total_blocks E + 8192 - 1) div 8192"
    "g_blocks_in_last_group E = (if g_total_blocks E mod 8192 = 0 then 8192 else g_total_blocks E mod 8192)"
  shows "\<exists>d'. show_fs io mb E = Some (upd_drive d' E) \<and> phase d' = Idle \<and> sec d' = sec (edrive E)"
proof -
  let ?s = "sec (edrive E) (mb_to_lba mb + 2)"
  have "?s @ sec (edrive E) (mb_to_lba mb + 2 + 1) = ext2_make_super nr E"
    using assms(4,5) by (simp add: disk_blocks_def)
  then have w: "get32 ?s i = get32 (ext2_make_super nr E) i" "get16 ?s i = get16 (ext2_make_super nr E) i" if "i \<le> 508" for i
    using get_prefix [of i ?s] that sector_length [of "edrive E" "mb_to_lba mb + 2"] by (auto simp: dest: sym)
  have "mb_to_lba mb + 2 < 2 ^ 28" using block_lba(1) [OF assms(3,4)] assms(3,4) by (simp add: word_less_nat_alt)
  from disk_read_internal_data [OF assms(1) this, of 1] obtain d' where
    d': "disk_read io (mb_to_lba mb + 2) (edrive E) = Some (?s, d')" "sec d' = sec (edrive E)" "phase d' = Idle"
    by (auto simp: disk_read_def)
  have "g_n_block_groups (upd_drive d' E) = (g_total_blocks E + 8192 - 1) div 8192" using assms(6) by simp
  then have "show_fs io mb E = Some (upd_drive d' E)"
    using d'(1) assms(2,7) by (simp add: show_fs_def Let_def fs_start_to_lba_superblk_def sectors_1024 w ext2_fields make_super_words [unfolded ext2_fields])
  with d'(2,3) show ?thesis by blast
qed

lemma mkfs_blocks:
  assumes "mkfs_ready phase N mb len E" "G = snd (calculate_block_groups len E)"
  shows "\<exists>d' S'. mkfs io mb len E = Some (upd_drive d' (G\<lparr>bcache := (bcache G)\<lparr>bslab := S'\<rparr>\<rparr>)) \<and> phase d' = Idle
    \<and> disk_blocks N (mb_to_lba mb) (sec d') 1 = ext2_make_super 0 G \<and> disk_blocks N (mb_to_lba mb) (sec d') 2 = bgdt_block G
    \<and> (\<forall>g < groups_of len. group_ok (disk_blocks N (mb_to_lba mb) (sec d')) g)"
proof -
  let ?base = "mb_to_lba mb" and ?n = "groups_of len"
  let ?f = "\<lambda>d. disk_blocks N ?base (sec d)"
  have r: "phase (edrive E) = Idle" "super_word s_log_block_size E = 0" "0 < len" "len \<le> 256" "8195 \<le> N" "1024 * unat len \<le> N"
    "unat ?base + 2 * N \<le> 2 ^ 24" using assms(1) by (simp_all add: mkfs_ready_def)
  note b = group_bounds [OF r(3,4)] and gn = group_numbers(2) [OF r(3,4), of E, folded assms(2)]
  obtain p S S' where k: "kmalloc (32 * of_nat ?n) 0 (bslab (bcache E)) = Some (p, S)" "p \<noteq> 0" "kfree p S = Some S'"
    using assms(1) by (auto simp: mkfs_ready_def)
  have n: "g_n_block_groups G = of_nat ?n" by (simp add: gn [symmetric])
  define G1 where "G1 = G\<lparr>bcache := (bcache G)\<lparr>bslab := S\<rparr>\<rparr>"
  have G1: "edrive G1 = edrive E" "unat (g_n_block_groups G1) = ?n" "super_word s_log_block_size G1 = 0" "bslab (bcache G1) = S"
    using gn r(2) by (simp_all add: G1_def calculate_frame assms(2) super_word_def)
  obtain d1 where d1: "write_supers io (?base + 2) ?n G1 = Some (upd_drive d1 G1)" "phase d1 = Idle"
    "?f d1 = (\<lambda>m. if m = 1 \<and> 0 < ?n then ext2_make_super 0 G1 else if m = 8193 \<and> 1 < ?n then ext2_make_super 1 G1 else ?f (edrive G1) m)"
    using write_supers_ok [of G1 ?base N ?n] G1(1) r by auto
  obtain d2 where d2: "write_bgdt io (?base + 2 * of_nat 2) (make_bgdt G1) (upd_drive d1 G1) = Some (upd_drive d2 G1)" "phase d2 = Idle"
    "?f d2 = (?f d1)(2 := bgdt_block G1)"
    using write_bgdt_ok [of "upd_drive d1 G1" ?base N 2] d1(2) r b(2) G1(2) by auto
  obtain d3 where d3: "write_bgdt io (?base + 2 * of_nat 8194) (make_bgdt G1) (upd_drive d2 G1) = Some (upd_drive d3 G1)" "phase d3 = Idle"
    "?f d3 = (?f d2)(8194 := bgdt_block G1)"
    using write_bgdt_ok [of "upd_drive d2 G1" ?base N 8194] d2(2) r b(2) G1(2) by auto
  have "group_start g + 131 \<le> N" if "g < ?n" for g using that b(3) r(6) by (auto simp: group_start_def backup_def)
  then obtain d4 where d4: "init_groups io (?base + 2) ?n d3 = Some d4" "phase d4 = Idle" "\<forall>g < ?n. group_ok (?f d4) g"
    "\<forall>m. (\<forall>g < ?n. m \<notin> group_area g) \<longrightarrow> ?f d4 m = ?f d3 m"
    using init_groups_ok [OF d3(2) r(7), of ?n] b(2) by auto
  have "m \<notin> group_area g" if "m \<le> 2" for m g using that by (auto simp: group_area_def group_start_def backup_def)
  then have tables: "?f d4 1 = ext2_make_super 0 G" "?f d4 2 = bgdt_block G"
    using d4(4) b(1) unfolding d3(3) d2(3) d1(3) by (simp_all add: G1_def)
  define G2 where "G2 = upd_drive d4 (G\<lparr>bcache := (bcache G)\<lparr>bslab := S'\<rparr>\<rparr>)"
  have g: "g_total_blocks G2 = g_total_blocks G" "g_n_block_groups G2 = g_n_block_groups G" "g_blocks_in_last_group G2 = g_blocks_in_last_group G"
    "edrive G2 = d4" "super_word s_log_block_size G2 = 0" "ext2_make_super 0 G2 = ext2_make_super 0 G"
    using G1(3) by (simp_all add: G2_def G1_def super_word_def)
  obtain d5 where d5: "show_fs io mb G2 = Some (upd_drive d5 G2)" "phase d5 = Idle" "sec d5 = sec d4"
    using show_fs_ok [of G2 mb N 0, unfolded g, OF d4(2) refl r(7) _ tables(1) calculate_fields [OF assms(2)]] r(5) by auto
  have start: "fs_start_to_lba_superblk mb E = ?base + 2" using r(2) by (simp add: fs_start_to_lba_superblk_def sectors_1024)
  obtain k0 where c: "calculate_block_groups len E = (k0, G)" using assms(2) by (metis prod.collapse)
  have k': "kmalloc (g_n_block_groups G * 32) 0 (bslab (bcache G)) = Some (p, S)"
    using k(1) n by (simp add: mult.commute assms(2) calculate_frame)
  have swap: "(bcache G)\<lparr>drive := d4, bslab := S'\<rparr> = (bcache G)\<lparr>bslab := S', drive := d4\<rparr>" by (rule bstate.equality) simp_all
  have f: "finish_fs_init io mb ((upd_drive d4 G1)\<lparr>bcache := (bcache (upd_drive d4 G1))\<lparr>bslab := S'\<rparr>\<rparr>) = show_fs io mb G2"
    by (simp add: finish_fs_init_def G2_def G1_def upd_drive_def swap)
  have t: "write_supers io (?base + 2) (unat (g_n_block_groups G)) G1 = Some (upd_drive d1 G1)"
    "write_bgdt io (4 + ?base) (make_bgdt G) (upd_drive d1 G1) = Some (upd_drive d2 G1)"
    "write_bgdt io (16388 + ?base) (make_bgdt G) (upd_drive d2 G1) = Some (upd_drive d3 G1)"
    "kfree p (bslab (bcache (upd_drive d4 G1))) = Some S'"
    using d1(1) d2(1) d3(1) gn k(3) by (simp_all add: G1_def upd_drive_def add.commute)
  have "mkfs io mb len E = show_fs io mb G2"
    using k(2) t G1(2) d4(1) f by (simp add: mkfs_def start c Let_def k' G1_def [symmetric] table_sizes)
  with d5 tables d4(3) show ?thesis by (intro exI [of _ d5] exI [of _ S']) (simp add: G2_def)
qed

end

lemma group_ok_tables:
  assumes "0 < len" "len \<le> 256" "ds = make_bgdt (snd (calculate_block_groups len E))" "g < groups_of len" "group_ok f g"
  shows "bm_set (f (unat (bg_block_bitmap (ds ! g)))) = {..<130 + backup g}"
    "bm_set (f (unat (bg_inode_bitmap (ds ! g)))) = (if g = 0 then {..<2} else {})"
    "k < 128 \<Longrightarrow> f (unat (bg_inode_table (ds ! g)) + k) = replicate 1024 0"
    "unat (bg_free_blocks_count (ds ! g)) = card ({..<group_size len g} - bm_set (f (unat (bg_block_bitmap (ds ! g)))))"
proof -
  note d = make_bgdt_nth [OF assms(1,2) refl assms(4), of E, folded assms(3)]
  show bm: "bm_set (f (unat (bg_block_bitmap (ds ! g)))) = {..<130 + backup g}"
    "bm_set (f (unat (bg_inode_bitmap (ds ! g)))) = (if g = 0 then {..<2} else {})"
    "k < 128 \<Longrightarrow> f (unat (bg_inode_table (ds ! g)) + k) = replicate 1024 0"
    using assms(5) unfolding group_ok_def d by simp_all
  have "{..<group_size len g} - {..<130 + backup g} = {130 + backup g ..< group_size len g}" by auto
  then show "unat (bg_free_blocks_count (ds ! g)) = card ({..<group_size len g} - bm_set (f (unat (bg_block_bitmap (ds ! g)))))"
    unfolding bm(1) d(4) by simp
qed

section \<open>Theorems\<close>


definition sample_mkfs :: "pio_drive ext2" where
  "sample_mkfs = (sample_ext2 [])\<lparr>bcache := (bcache (sample_ext2 []))\<lparr>bslab := sample_busy\<rparr>\<rparr>"

lemma sample_mkfs_ready: "mkfs_ready d_phase 8195 0 1 sample_mkfs"
proof -
  have "case kmalloc 32 0 sample_busy of Some (p, S1) \<Rightarrow> p = 0xC00000A0 \<and> kfree 0xC00000A0 S1 \<noteq> None | None \<Rightarrow> False" by code_simp
  then have "\<exists>p S S'. kmalloc 32 0 sample_busy = Some (p, S) \<and> p \<noteq> 0 \<and> kfree p S = Some S'" by (auto split: option.splits prod.splits)
  moreover have "mounted d_phase 1000 (sample_ext2 [])" using sample_ext2_ok by (simp add: alloc_ok_def)
  ultimately show ?thesis by (simp add: mkfs_ready_def sample_mkfs_def mounted_def super_word_def groups_of_def mb_to_lba_def)
qed


text \<open>The tables of blocks 1 and 2 loaded into the globals of the block allocator.\<close>

definition loaded :: "u32 \<Rightarrow> 'd ext2 \<Rightarrow> 'd ext2 \<Rightarrow> 'd ext2" where
  "loaded mb G E = E\<lparr>bcache := (bcache E)\<lparr>filesys_start := mb_to_lba mb, fs_start_set := True\<rparr>, super := ext2_make_super 0 G,
     bgdt := make_bgdt G, n_block_groups := ucast (g_n_block_groups G)\<rparr>"

lemma loaded_alloc_ok:
  assumes "mkfs_ready phase N mb len E" "G = snd (calculate_block_groups len E)" "phase (edrive E') = Idle"
  shows "alloc_ok phase N (loaded mb G E')" "bpg (loaded mb G E') = 8192" "ipg (loaded mb G E') = 1024"
proof -
  have r: "0 < len" "len \<le> 256" "8195 \<le> N" "unat (mb_to_lba mb) + 2 * N \<le> 2 ^ 24" using assms(1) by (simp_all add: mkfs_ready_def)
  note b = group_bounds [OF r(1,2)] and n = group_numbers(2) [OF r(1,2), of E, folded assms(2)] and d = make_bgdt_nth [OF r(1,2) assms(2)]
  show w: "bpg (loaded mb G E') = 8192" "ipg (loaded mb G E') = 1024" by (simp_all add: loaded_def super_word_def make_super_words)
  have "unat (ucast (g_n_block_groups G) :: u16) = groups_of len" using n b(2) by (simp add: unsigned_ucast_eq take_bit_nat_eq_self)
  moreover have "\<forall>x \<in> set (make_bgdt G). length (bg_reserved x) = 12" by (auto simp: make_bgdt_def make_bgdesc_def Let_def)
  moreover have "length (make_bgdt G) = groups_of len" using d(5) [of 0] b(1) by simp
  ultimately show "alloc_ok phase N (loaded mb G E')"
    using b(1,2) r(3,4) assms(3) by (simp add: alloc_ok_def mounted_def word_less_nat_alt loaded_def super_word_def make_super_words)
qed



lemma concat_nth:
  assumes "\<And>x. x \<in> set xs \<Longrightarrow> length x = k" "j < length xs" "i < k"
  shows "(concat xs @ ys) ! (k * j + i) = xs ! j ! i"
  using assms
proof (induction xs arbitrary: j)
  case (Cons x xs)
  then show ?case by (cases j) (simp_all add: nth_append add.assoc)
qed simp

lemma bgdt_block_words:
  assumes "mkfs_ready phase N mb len E" "G = snd (calculate_block_groups len E)" "n = groups_of len"
  shows "get32 (bgdt_block G) s_blocks_count = 4" "get32 (bgdt_block G) s_log_block_size = 0" "get16 (bgdt_block G) s_magic = 0"
    "get32 (bgdt_block G) s_blocks_per_group = (if n = 1 then 0 else 8195)" "length (bgdt_block G) = 1024"
proof -
  have r: "0 < len" "len \<le> 256" using assms(1) by (simp_all add: mkfs_ready_def)
  note b = group_bounds(1,2) [OF r, folded assms(3)] and gn = group_numbers(2) [OF r, of E, folded assms(2,3)]
  have len: "length (map encode_bgdesc (make_bgdt G)) = n" using gn by (simp add: make_bgdt_def)
  have 32: "length x = 32" if "x \<in> set (map encode_bgdesc (make_bgdt G))" for x
    using that by (auto simp: make_bgdt_def make_bgdesc_def Let_def encode_bgdesc_def)
  show "length (bgdt_block G) = 1024" using b gn by (simp add: bgdt_block_def length_bgdt_bytes)
  have nth: "bgdt_block G ! (32 * j + i) = encode_bgdesc (make_bgdesc j G) ! i" if "j < n" "i < 32" for i j
  proof -
    have "bgdt_block G ! (32 * j + i) = map encode_bgdesc (make_bgdt G) ! j ! i"
      unfolding bgdt_block_def by (rule concat_nth [OF 32]) (use that len in simp_all)
    then show ?thesis using that gn by (simp add: make_bgdt_def)
  qed
  have nth0: "bgdt_block G ! i = 0" if "32 * n \<le> i" "i < 1024" for i
    using that gn by (simp add: bgdt_block_def nth_append length_bgdt_bytes)
  show "get32 (bgdt_block G) s_blocks_count = 4" "get32 (bgdt_block G) s_log_block_size = 0"
    using b(1) nth [of 0 4] nth [of 0 5] nth [of 0 6] nth [of 0 7] nth [of 0 24] nth [of 0 25] nth [of 0 26] nth [of 0 27]
    by (simp_all add: get32_def ext2_fields make_bgdesc_def Let_def encode_bgdesc_def bytes32_def bytes_of_word_def word32_def)
  show "get16 (bgdt_block G) s_magic = 0" 
    using b(1) nth [of 1 24] nth [of 1 25] nth0 [of 56] nth0 [of 57]
    by (cases "n = 1") (simp_all add: get16_def ext2_fields make_bgdesc_def Let_def encode_bgdesc_def bytes32_def bytes_of_word_def word_of_bytes_def)
  show "get32 (bgdt_block G) s_blocks_per_group = (if n = 1 then 0 else 8195)"
    using b(1) nth [of 1 0] nth [of 1 1] nth [of 1 2] nth [of 1 3] nth0 [of 32] nth0 [of 33] nth0 [of 34] nth0 [of 35]
    by (cases "n = 1") (simp_all add: get32_def ext2_fields make_bgdesc_def Let_def encode_bgdesc_def bytes32_def bytes_of_word_def word32_def table_sizes)
qed



end
