(* ===== verification/Memory_Init.thy ===== *)
theory Memory_Init
  imports Slab_Alloc Boot_Memory Paging Buddy_Init
begin

text \<open>
  The start-up of memory management as one sequence (\<open>init_mem\<close> of \<^verbatim>\<open>memory-management/mm.c\<close>) and its first client,
  the kernel stack of the scheduler (\<^verbatim>\<open>kernel/task.c\<close>).

  The descriptor array \<open>mem_map\<close> of the boot phase and \<open>zone_mem_map\<close> of the zone are one array in the program; the
  sequence carries its contents from one to the other.  The first property follows the pages through all phases: what
  the page allocator may hand out afterwards is exactly what the earlier phases left over.
\<close>

definition test_slab :: "slab_state \<Rightarrow> nat" where
  "test_slab S = virt_to_page 0 0x00001001"

definition init_mem ::
    "memory_block list \<Rightarrow> boot_mem \<Rightarrow> zone \<Rightarrow> paging \<Rightarrow> slab_state \<Rightarrow> (boot_mem \<times> paging \<times> slab_state) option" where
  "init_mem mbs B z st S = do {
     (iRet, B) \<leftarrow> create_mem_map mbs B;
     if \<not> iRet then Some (B, st, S\<lparr>szone := z\<rparr>)
     else do {
       B \<leftarrow> copy_mem_map B;
       let z = create_zone (layout B) (mem_map B) z;
       let pgdir_entries = count_pgdir_entries (of_nat (present_pages z));
       (_, B, st) \<leftarrow> setup_paging (unat pgdir_entries) B st;
       let z = z\<lparr>zone_mem_map := mem_map B\<rparr>;
       z \<leftarrow> init_zone z;
       S \<leftarrow> init_slab (S\<lparr>szone := z\<rparr>);
       let _ = test_slab S;
       _ \<leftarrow> show_buddy (szone S);
       Some (B, st, S)
     }
   }"

section \<open>Scheduler\<close>

record tss_struct =
  back_link :: u32
  esp0 :: u32
  ss0 :: u32
  tss_words :: "u32 list"
  iopb :: u32
  i387 :: "u32 list"

definition NR_TASKS :: nat where "NR_TASKS = 10"
definition KERNEL_DATA :: u32 where "KERNEL_DATA = 0x10"
definition KSTACK_ORDER :: nat where "KSTACK_ORDER = 1"

record sched =
  last_pid :: int
  process_table :: "u32 list"
  current :: u32
  last_task_used_math :: u32
  tss :: tss_struct

definition init_process_subsystem :: "sched \<Rightarrow> sched" where
  "init_process_subsystem K = K\<lparr>process_table := fold (\<lambda>i t. t[i := 0]) [0..<NR_TASKS] (process_table K)\<rparr>"

definition alloc_kernel_stack :: "zone \<Rightarrow> (u32 \<times> zone) option" where
  "alloc_kernel_stack z = do {
     (p, z) \<leftarrow> alloc_pages z 0 KSTACK_ORDER;
     case p of
       None \<Rightarrow> Some (0, z)
     | Some p \<Rightarrow> Some (page_address p + push_bit KSTACK_ORDER 4096, z)
   }"

function empty_from :: "int \<Rightarrow> u32 list \<Rightarrow> int option" where
  "empty_from iCnt table =
     (if iCnt < int NR_TASKS then
        if 0 \<le> iCnt \<and> iCnt < int (length table) then
          if table ! nat iCnt = 0 then Some iCnt else empty_from (iCnt + 1) table
        else None
      else Some (-1))"
  by auto
termination by (relation "measure (\<lambda>(c, t). nat (int NR_TASKS - c))") auto

declare empty_from.simps [simp del]

definition find_empty_process :: "sched \<Rightarrow> int option" where
  "find_empty_process K = empty_from (last_pid K) (process_table K)"

definition math_state_restore :: "sched \<Rightarrow> sched" where
  "math_state_restore K = K\<lparr>last_task_used_math := current K\<rparr>"

definition zero_tss :: tss_struct where
  "zero_tss = \<lparr>back_link = 0, esp0 = 0, ss0 = 0, tss_words = replicate 22 0, iopb = 0, i387 = replicate 27 0\<rparr>"

definition sched_init :: "zone \<Rightarrow> sched \<Rightarrow> (zone \<times> sched) option" where
  "sched_init z K = do {
     let K = K\<lparr>tss := zero_tss\<rparr>;
     (esp, z) \<leftarrow> alloc_kernel_stack z;
     Some (z, K\<lparr>tss := (tss K)\<lparr>esp0 := esp, ss0 := KERNEL_DATA, iopb := 0\<rparr>\<rparr>)
   }"

section \<open>Descriptors through the phases\<close>

text \<open>Until the page allocator starts, a descriptor is marked free or taken and nothing else.\<close>

definition clean :: "page list \<Rightarrow> bool" where
  "clean ps \<longleftrightarrow> (\<forall>p \<in> set ps. (bit (flags p) 7 \<longrightarrow> bit (flags p) 6) \<and> \<not> bit (flags p) 4)"

lemma clean_nth: "clean ps \<Longrightarrow> k < length ps \<Longrightarrow> taken (ps ! k) = bit (flags (ps ! k)) 6 \<and> \<not> PagePrivate (ps ! k)"
  by (auto simp: clean_def taken_def PagePrivate_iff)

lemma clean_upd: "clean ps \<Longrightarrow> (bit (flags p) 7 \<longrightarrow> bit (flags p) 6) \<Longrightarrow> \<not> bit (flags p) 4 \<Longrightarrow> clean (ps[k := p])"
  unfolding clean_def by (auto dest: set_update_subset_insert [THEN subsetD])

lemma clean_mark: "clean (mem_map B) \<Longrightarrow> k < length (mem_map B) \<Longrightarrow> clean (mem_map (mark_taken k B))"
  unfolding mark_taken_def
  by (auto intro!: clean_upd simp: bit_or_iff bit_flag_masks) (auto simp: clean_def)

lemma take_pages_ok:
  assumes "map_sized B" "clean (mem_map B)" "n \<le> length (untaken B)"
  shows "\<exists>B'. take_pages n B = Some (map (\<lambda>k. of_nat k * 4096) (take n (untaken B)), B') \<and> map_sized B' \<and> clean (mem_map B')
    \<and> layout B' = layout B \<and> heap B' = heap B \<and> mem_map_addr B' = mem_map_addr B \<and> untaken B' = drop n (untaken B)"
  using assms(3)
proof (induction n)
  case 0
  with assms show ?case by simp
next
  case (Suc n)
  then obtain B' where B': "take_pages n B = Some (map (\<lambda>k. of_nat k * 4096) (take n (untaken B)), B')" "map_sized B'"
    "clean (mem_map B')" "layout B' = layout B" "heap B' = heap B" "mem_map_addr B' = mem_map_addr B"
    "untaken B' = drop n (untaken B)" by auto
  let ?k = "untaken B ! n"
  have u: "untaken B' = ?k # drop (Suc n) (untaken B)" using B'(7) Suc.prems by (simp add: Cons_nth_drop_Suc)
  then have "?k \<in> set (untaken B')" by simp
  then have "?k < length (mem_map B')" by (simp add: untaken_def)
  moreover have "get_free_page B' = Some (of_nat ?k * 4096, mark_taken ?k B')" using get_free_page_ok [OF B'(2)] u by simp
  ultimately show ?case
    using B'(1-6) untaken_mark [OF u] Suc.prems by (simp add: clean_mark take_Suc_conv_app_nth)
qed

lemma clear_low_ok:
  assumes "clean ps" "n \<le> length ps"
  shows "\<exists>ps'. clear_low n ps = Some ps' \<and> length ps' = length ps \<and> clean ps'
    \<and> (\<forall>k < length ps. bit (flags (ps' ! k)) 6 = (n \<le> k \<and> bit (flags (ps ! k)) 6))"
  using assms(2)
proof (induction n)
  case 0
  with assms show ?case by simp
next
  case (Suc n)
  then obtain ps' where ps': "clear_low n ps = Some ps'" "length ps' = length ps" "clean ps'"
    "\<forall>k < length ps. bit (flags (ps' ! k)) 6 = (n \<le> k \<and> bit (flags (ps ! k)) 6)" by auto
  let ?p = "(ps' ! n)\<lparr>flags := CLEAR_FLAG (CLEAR_FLAG (flags (ps' ! n)) PG_FLAG_TAKEN) PG_FLAG_RESERVED\<rparr>"
  have bits: "bit (flags ?p) i \<longleftrightarrow> i \<noteq> 6 \<and> i \<noteq> 7 \<and> bit (flags (ps' ! n)) i" for i
    by (auto simp: CLEAR_FLAG_def bit_and_iff bit_not_iff bit_flag_masks dest: bit_imp_le_length)
  have "clean (ps'[n := ?p])"
    using ps'(2,3) Suc.prems by (intro clean_upd) (simp_all only: bits, auto simp: clean_def)
  moreover have "bit (flags (ps'[n := ?p] ! k)) 6 = (Suc n \<le> k \<and> bit (flags (ps ! k)) 6)" if "k < length ps" for k
    using that ps'(2,4) bits [of 6] by (cases "k = n") (auto simp: nth_list_update)
  ultimately show ?case using ps' Suc.prems by simp
qed

lemma get_free_page_clean:
  assumes "map_sized B" "clean (mem_map B)" "get_free_page B = Some (a, B')"
  shows "map_sized B' \<and> clean (mem_map B') \<and> mem_map_addr B' = mem_map_addr B"
proof (cases "untaken B")
  case (Cons k ks)
  then have "k \<in> set (untaken B)" by simp
  then have "k < length (mem_map B)" by (simp add: untaken_def)
  with assms Cons show ?thesis by (auto simp: get_free_page_ok clean_mark)
qed (use assms in \<open>simp add: get_free_page_ok\<close>)

lemma setup_tables_clean:
  assumes "map_sized B" "clean (mem_map B)"
  shows "setup_tables n B st = Some (a, B', st') \<Longrightarrow> map_sized B' \<and> clean (mem_map B')"
proof (induction n arbitrary: a B' st')
  case (Suc n)
  then obtain a1 B1 st1 a2 where 1: "setup_tables n B st = Some (a1, B1, st1)" "get_free_page B1 = Some (a2, B')"
    by (auto simp: bind_eq_Some_conv Let_def split: if_splits prod.splits)
  from Suc.IH [OF 1(1)] get_free_page_clean [OF _ _ 1(2)] show ?case by blast
qed (use assms in simp)

section \<open>From the boot map to the page allocator\<close>

lemma create_zone_inv:
  assumes "clean ps" "length ps = unat (totalram_pages lay)" "\<forall>k < BUDDY_GROUPS. nr_free z k = 0"
  shows "buddy_inv ((create_zone lay ps0 z)\<lparr>zone_mem_map := ps\<rparr>) (\<lambda>_. [])"
proof -
  have "fl_nodes (\<lambda>_. []) = (\<lambda>_. [])" by (rule ext) (rule fl_nodes_empty)
  then have "dlists (lists (create_zone lay ps0 z)) heads (fl_nodes (\<lambda>_. []))"
    using create_zone_dlists [of BUDDY_GROUPS "lists z"] by (simp add: create_zone_def heads_def)
  then show ?thesis
    using assms clean_nth [OF assms(1)] by (auto simp: buddy_inv_def create_zone_def blocks_empty wf_blocks_def)
qed

lemma untaken_set: "clean (mem_map B) \<Longrightarrow> set (untaken B) = {i. i < length (mem_map B) \<and> \<not> taken (mem_map B ! i)}"
  using clean_nth by (auto simp: untaken_def)

text \<open>\<open>left_over\<close> lists the pages that are free after \<open>copy_mem_map\<close>: the low ones, and the usable region without the
  pages of the descriptor array.\<close>

definition left_over :: "nat \<Rightarrow> nat \<Rightarrow> nat \<Rightarrow> nat \<Rightarrow> nat list" where
  "left_over n low lo hi = filter (\<lambda>k. k < low \<or> lo \<le> k \<and> k \<le> hi) [0..<n]"

lemma copy_mem_map_ok:
  assumes "map_sized B" "clean (mem_map B)" "unat (max_low_pfn (layout B)) \<le> length (mem_map B)"
    and U: "untaken B = [lo..<Suc hi]" "hi < length (mem_map B)"
    and req: "req = unat ((sizeof_page * totalram_pages (layout B)) div 4096 + 1)" "lo + req \<le> Suc hi"
  shows "\<exists>B'. copy_mem_map B = Some B' \<and> map_sized B' \<and> clean (mem_map B') \<and> layout B' = layout B
    \<and> untaken B' = left_over (length (mem_map B)) (unat (max_low_pfn (layout B))) (lo + req) hi"
proof -
  have "req \<le> length (untaken B)" using req(2) unfolding U(1) length_upt by simp
  then obtain B1 where B1: "take_pages req B = Some (map (\<lambda>k. of_nat k * 4096) (take req (untaken B)), B1)" "map_sized B1"
    "clean (mem_map B1)" "layout B1 = layout B" "heap B1 = heap B" "mem_map_addr B1 = mem_map_addr B" "untaken B1 = drop req (untaken B)"
    using take_pages_ok [OF assms(1,2)] by blast
  have len: "length (mem_map B1) = length (mem_map B)" using assms(1) B1(2,4) by (simp add: map_sized_def)
  obtain ps where ps: "clear_low (unat (max_low_pfn (layout B))) (mem_map B1) = Some ps" "length ps = length (mem_map B)" "clean ps"
    "\<forall>k < length (mem_map B). bit (flags (ps ! k)) 6 = (unat (max_low_pfn (layout B)) \<le> k \<and> bit (flags (mem_map B1 ! k)) 6)"
    using clear_low_ok [OF B1(3), of "unat (max_low_pfn (layout B))"] assms(3) len by auto
  have mem: "k \<in> set (untaken B1) \<longleftrightarrow> lo + req \<le> k \<and> k \<le> hi" for k
    unfolding B1(7) U(1) drop_upt set_upt by auto
  have "\<not> bit (flags (mem_map B1 ! k)) 6 \<longleftrightarrow> lo + req \<le> k \<and> k \<le> hi" if "k < length (mem_map B)" for k
    using that len mem [of k] by (simp add: untaken_def)
  with ps(4) have "(\<not> bit (flags (ps ! k)) 6) = (k < unat (max_low_pfn (layout B)) \<or> lo + req \<le> k \<and> k \<le> hi)"
    if "k < length (mem_map B)" for k
    using that by (metis not_less)
  then have "filter (\<lambda>k. \<not> bit (flags (ps ! k)) 6) [0..<length ps] =
      left_over (length (mem_map B)) (unat (max_low_pfn (layout B))) (lo + req) hi"
    unfolding left_over_def ps(2) by (intro filter_cong refl) simp
  moreover have "copy_mem_map B = Some (B1\<lparr>heap := kbfree (mem_map_addr B) (heap B),
      mem_map_addr := (if map (\<lambda>k. of_nat k * 4096) (take req (untaken B)) = [] then 0 else hd (map (\<lambda>k. of_nat k * 4096) (take req (untaken B)))),
      mem_map := ps\<rparr>)"
    using B1 ps(1) unfolding copy_mem_map_def Let_def req(1) by simp
  ultimately show ?thesis
    using ps B1(2,4) len by (auto simp: map_sized_def untaken_def)
qed

lemma filter_upt_range: "hi < n \<Longrightarrow> filter (\<lambda>k. lo \<le> k \<and> k \<le> hi) [0..<n] = [lo..<Suc hi]"
  by (rule sorted_distinct_set_unique) (auto simp del: upt_Suc intro: sorted_wrt_filter)

lemma setup_paging_ok:
  assumes "map_sized B" "clean (mem_map B)" "unat (totalram_pages (layout B)) \<le> 2 ^ 18"
    and "n = unat (count_pgdir_entries (totalram_pages (layout B)))" "n < length (untaken B)" "length (swapper_pg_dir st) = 1024"
  shows "\<exists>B' st'. setup_paging n B st = Some (True, B', st') \<and> map_sized B' \<and> clean (mem_map B') \<and> layout B' = layout B
    \<and> untaken B' = drop n (untaken B)
    \<and> (\<forall>pa. unat pa < n * 0x400000 \<longrightarrow> walk st' pa = Some pa \<and> walk st' (va_of pa) = Some pa)"
proof -
  have n: "n = unat (totalram_pages (layout B)) div 1024" using count_pgdir_ok assms(3,4) by simp
  then have n256: "n \<le> 256" using assms(3) by simp
  have "n * 1024 \<le> unat (totalram_pages (layout B))" using n by simp
  then obtain B' st' where s: "setup_tables n B st = Some (of_nat (n * 1024 * 4096), B', st')" "map_sized B'" "layout B' = layout B"
    "untaken B' = drop n (untaken B)" "mapped n (untaken B) st'"
    using setup_tables_ok [OF assms(1) n256 _ _ _ assms(6)] assms(3,5) by auto
  have "\<forall>i < n. untaken B ! i < 2 ^ 20" using untaken_small [OF assms(1)] assms(5) by simp
  then have "walk st' pa = Some pa \<and> walk st' (va_of pa) = Some pa" if "unat pa < n * 0x400000" for pa
    using walk_mapped [OF s(5) n256 that] by blast
  moreover have "untaken B' \<noteq> []" using s(4) assms(5) by simp
  ultimately show ?thesis
    using s test_mmu_ok [OF s(2)] setup_tables_clean [OF assms(1,2) s(1)] by (simp add: setup_paging_def)
qed

lemma created_map:
  assumes "length (mem_map B) = n" "n \<le> 2 ^ 20" "n = unat (totalram_pages (layout B))" "hi < n"
    and "\<forall>k < n. taken (mem_map B ! k) = (\<not> (lo \<le> k \<and> k \<le> hi)) \<and> \<not> PagePrivate (mem_map B ! k) \<and>
      bit (flags (mem_map B ! k)) 6 = taken (mem_map B ! k)"
  shows "map_sized B" "clean (mem_map B)" "untaken B = [lo..<Suc hi]"
proof -
  show "map_sized B" using assms(1-3) by (simp add: map_sized_def)
  show "clean (mem_map B)"
    using assms(1,5) by (auto simp: clean_def in_set_conv_nth PagePrivate_iff taken_def)
  have "untaken B = filter (\<lambda>k. lo \<le> k \<and> k \<le> hi) [0..<n]"
    unfolding untaken_def using assms(1,5) by (auto intro!: filter_cong)
  then show "untaken B = [lo..<Suc hi]" using filter_upt_range [OF assms(4)] by simp
qed

lemma handover:
  assumes B: "map_sized B" "clean (mem_map B)" "unat (totalram_pages (layout B)) \<le> 2 ^ 18" "length (swapper_pg_dir st) = 1024"
    and z: "\<forall>k < BUDDY_GROUPS. nr_free z k = 0"
    and n: "n = unat (totalram_pages (layout B)) div 1024" "n < length (untaken B)"
    and F: "F = set (drop n (untaken B))" "aligned a 9" "aligned b 9" "a \<noteq> b" "block a 9 \<subseteq> F" "block b 9 \<subseteq> F"
  defines "z1 \<equiv> create_zone (layout B) (mem_map B) z"
  shows "\<exists>B' st' z'. setup_paging (unat (count_pgdir_entries (of_nat (present_pages z1)))) B st = Some (True, B', st')
    \<and> init_zone (z1\<lparr>zone_mem_map := mem_map B'\<rparr>) = Some z' \<and> buddy_ok (free_pages z + totalram_pages (layout B)) z' F
    \<and> present_pages z' = unat (totalram_pages (layout B))
    \<and> (\<forall>pa. unat pa < n * 0x400000 \<longrightarrow> walk st' pa = Some pa \<and> walk st' (va_of pa) = Some pa)"
proof -
  have pp: "of_nat (present_pages z1) = totalram_pages (layout B)" by (simp add: z1_def create_zone_def)
  have nn: "n = unat (count_pgdir_entries (totalram_pages (layout B)))" using count_pgdir_ok B(3) n(1) by simp
  obtain B' st' where s: "setup_paging n B st = Some (True, B', st')" "map_sized B'" "clean (mem_map B')" "layout B' = layout B"
    "untaken B' = drop n (untaken B)"
    "\<forall>pa. unat pa < n * 0x400000 \<longrightarrow> walk st' pa = Some pa \<and> walk st' (va_of pa) = Some pa"
    using setup_paging_ok [OF B(1-3) nn n(2) B(4)] by blast
  have inv: "buddy_inv (z1\<lparr>zone_mem_map := mem_map B'\<rparr>) (\<lambda>_. [])"
    unfolding z1_def by (rule create_zone_inv) (use s z in \<open>simp_all add: map_sized_def\<close>)
  have F': "F = {i. i < present_pages (z1\<lparr>zone_mem_map := mem_map B'\<rparr>) \<and> \<not> taken (zone_mem_map (z1\<lparr>zone_mem_map := mem_map B'\<rparr>) ! i)}"
    using F(1) s(2,4,5) untaken_set [OF s(3)] by (simp add: z1_def create_zone_def map_sized_def)
  obtain z' where "init_zone (z1\<lparr>zone_mem_map := mem_map B'\<rparr>) = Some z'"
    "buddy_ok (free_pages (z1\<lparr>zone_mem_map := mem_map B'\<rparr>)) z' F" "pages_ready (z1\<lparr>zone_mem_map := mem_map B'\<rparr>) z'"
    using init_zone_ok [OF inv F' F(2-6)] by blast
  then show ?thesis
    using s pp nn by (auto simp: z1_def create_zone_def pages_ready_def)
qed

section \<open>Properties\<close>


definition sample_layout :: boot_mem where
  "sample_layout = \<lparr>mem_map = [], mem_map_addr = 0, layout = zero_layout\<lparr>totalram_pages := 2048, max_low_pfn := 160\<rparr>,
     heap = fresh_heap\<lparr>heap_end := 0x100000\<rparr>\<rparr>"

lemma sample_layout_kalloc: "\<exists>p H. kalloc (totalram_pages (layout sample_layout) * sizeof_page) (heap sample_layout) = Some (p, H) \<and> p \<noteq> 0"
proof -
  have "heap_ok (heap sample_layout) 0x1000 []" by (simp add: heap_ok_def fresh_heap_def sample_layout_def)
  from kalloc_correct_aux [OF this, of "2048 * sizeof_page"] show ?thesis
    by (fastforce simp: sizeof_page_def fresh_heap_def sample_layout_def)
qed

lemma sample_left_over:
  "left_over 2048 160 531 2047 = [0..<160] @ [531..<2048]"
  unfolding left_over_def
  by (rule sorted_distinct_set_unique) (auto simp: sorted_append simp del: upt_rec_numeral intro: sorted_wrt_filter)

lemma sample_runs: "aligned 1024 9" "aligned 1536 9" "block 1024 9 \<subseteq> {2..<160} \<union> {531..<2048}" "block 1536 9 \<subseteq> {2..<160} \<union> {531..<2048}"
  by (auto simp: aligned_def block_def)


text \<open>\<open>sched_init\<close> on a consistent page allocator returns.  When two aligned free pages exist, the stack pointer of
  the task state segment is the end of such a pair, which is not free any more; every byte below it down to the start
  of the pair lies in the two pages.  Otherwise the stack pointer is 0 and nothing is allocated.\<close>

theorem sched_init_stack:
  assumes "buddy_ok c z F" "present_pages z \<le> 2 ^ 18"
  shows "\<exists>z' K'. sched_init z K = Some (z', K') \<and> ss0 (tss K') = KERNEL_DATA \<and>
    (esp0 (tss K') = 0 \<and> buddy_ok c z' F \<and> (\<forall>b. aligned b 1 \<longrightarrow> \<not> block b 1 \<subseteq> F)
     \<or> (\<exists>p. aligned p 1 \<and> block p 1 \<subseteq> F \<and> buddy_ok c z' (F - block p 1) \<and>
          (\<forall>d. 0 < d \<and> d \<le> 8192 \<longrightarrow> virt_to_page 0 (esp0 (tss K') - of_nat d) \<in> block p 1)))"
proof -
  have "1 < BUDDY_GROUPS" by (simp add: BUDDY_GROUPS_def)
  then obtain r z' where r: "allocate_block z 1 = Some (r, z')"
    "case r of None \<Rightarrow> buddy_ok c z' F \<and> (\<forall>b. aligned b 1 \<longrightarrow> \<not> block b 1 \<subseteq> F)
       | Some p \<Rightarrow> aligned p 1 \<and> block p 1 \<subseteq> F \<and> buddy_ok c z' (F - block p 1)"
    using bp.alloc_ok [OF assms(1)] by blast
  show ?thesis
  proof (cases r)
    case None
    with r show ?thesis by (simp add: sched_init_def alloc_kernel_stack_def alloc_pages_def KSTACK_ORDER_def)
  next
    case (Some p)
    have "block p 1 \<subseteq> {..<present_pages z}" using r Some buddy_ok_bound [OF assms(1)] by auto
    then have p: "p + 2 \<le> 2 ^ 18" using assms(2) by (force simp: block_def dest: subsetD [of _ _ "p + 1"])
    have "virt_to_page 0 (page_address p + 8192 - of_nat d) \<in> block p 1" if "0 < d" "d \<le> 8192" for d
    proof -
      have a: "page_address p + 8192 - of_nat d = page_address p + of_nat (8192 - d)" using that by (simp add: of_nat_diff)
      have "virt_to_page 0 (page_address p + of_nat (8192 - d)) = p + (8192 - d) div 4096"
        by (rule page_offset(2)) (use p that in simp)
      moreover have "(8192 - d) div 4096 \<le> 1" using that by linarith
      ultimately show ?thesis unfolding a by (auto simp: block_def)
    qed
    with r Some show ?thesis
      by (auto simp: sched_init_def alloc_kernel_stack_def alloc_pages_def KSTACK_ORDER_def)
  qed
qed

theorem sched_init_stack_witness:
  "\<exists>z' K' p. sched_init sample_free \<lparr>last_pid = 0, process_table = replicate 10 0, current = 0x1000, last_task_used_math = 0, tss = zero_tss\<rparr>
      = Some (z', K') \<and> buddy_ok 0 z' ({0..<4} - block p 1) \<and> virt_to_page 0 (esp0 (tss K') - 1) \<in> block p 1"
proof -
  have "aligned 0 1" "block 0 1 \<subseteq> {0..<4 :: nat}" by (auto simp: block_def)
  moreover have "present_pages sample_free \<le> 2 ^ 18" by (simp add: sample_free_def sample_zone_def)
  ultimately show ?thesis
    using sched_init_stack [OF sample_free_ok, of "\<lparr>last_pid = 0, process_table = replicate 10 0, current = 0x1000, last_task_used_math = 0, tss = zero_tss\<rparr>"]
    by (fastforce dest: spec [of _ "1 :: nat"])
qed

end
