(* ===== verification/Serial.thy ===== *)
theory Serial
  imports Ports
begin

text \<open>
  The serial console (\<^verbatim>\<open>drivers/serial.c\<close>): the character output everything else in the kernel reports through,
  and \<open>printk\<close>.

  A string is the list of its bytes up to the end of the object that holds it; reading past the end is \<open>None\<close>.
  A C \<^verbatim>\<open>int\<close> is an \<open>int\<close>, and \<^verbatim>\<open>-num\<close> wraps as the machine instruction does.  The variable arguments of
  \<open>printk\<close> are a list of tagged values; fetching one of another kind, or one too many, is \<open>None\<close>.  The serial port is
  a parameter; the locale \<open>uart\<close> states how a 16550 port behaves, and \<open>com_io\<close> is a port that follows it.
\<close>

definition COM1 :: u16 where "COM1 = 0x3F8"

definition ascii :: "string \<Rightarrow> u8 list" where
  "ascii s = map of_char s"

definition neg32 :: "int \<Rightarrow> int" where
  "neg32 n = signed_take_bit 31 (- n)"

definition put_digit :: "nat \<Rightarrow> u8 list \<Rightarrow> u8 \<Rightarrow> u8 list option" where
  "put_digit n buf c = (if length buf < n then Some (buf @ [c]) else None)"

function digit_loop :: "nat \<Rightarrow> u8 list \<Rightarrow> int \<Rightarrow> u8 list option" where
  "digit_loop n buf num =
     (if num > 0 then do {
        buf \<leftarrow> put_digit n buf (0x30 + word_of_int (num mod 10));
        digit_loop n buf (num div 10)
      } else Some buf)"
  by pat_completeness auto
termination by (relation "measure (\<lambda>(n, buf, num). nat num)") auto

declare digit_loop.simps [simp del]

definition get_digits :: "nat \<Rightarrow> int \<Rightarrow> u8 list option" where
  "get_digits n num =
     (if num = 0 then put_digit n [] 0x30
      else do {
        let is_negative = num < 0;
        let num = (if is_negative then neg32 num else num);
        buf \<leftarrow> digit_loop n [] num;
        if is_negative then put_digit n buf 0x2D else Some buf
      })"

definition serial_init :: "'d io_ports \<Rightarrow> 'd \<Rightarrow> 'd" where
  "serial_init io d =
     (let d = outb io (COM1 + 1) 0x00 d;
          d = outb io (COM1 + 3) 0x80 d;
          d = outb io (COM1 + 0) 0x03 d;
          d = outb io (COM1 + 1) 0x00 d;
          d = outb io (COM1 + 3) 0x03 d;
          d = outb io (COM1 + 2) 0xC7 d
      in outb io (COM1 + 4) 0x0B d)"

partial_function (option) serial_wait :: "'d io_ports \<Rightarrow> 'd \<Rightarrow> 'd option" where
  "serial_wait io d =
     (let (status, d) = inb io (COM1 + 5) d
      in if status AND 0x20 = 0 then serial_wait io d else Some d)"

definition serial_writechar :: "'d io_ports \<Rightarrow> u8 \<Rightarrow> 'd \<Rightarrow> 'd option" where
  "serial_writechar io c d = do {
     d \<leftarrow> serial_wait io d;
     Some (outb io COM1 c d)
   }"

fun serial_writestring :: "'d io_ports \<Rightarrow> u8 list \<Rightarrow> 'd \<Rightarrow> 'd option" where
  "serial_writestring io [] d = None"
| "serial_writestring io (c # str) d =
     (if c = 0 then Some d
      else do {
        d \<leftarrow> serial_writechar io c d;
        serial_writestring io str d
      })"

primrec write_down :: "'d io_ports \<Rightarrow> u8 list \<Rightarrow> nat \<Rightarrow> 'd \<Rightarrow> 'd option" where
  "write_down io buf 0 d = Some d"
| "write_down io buf (Suc i) d = do {
     d \<leftarrow> serial_writechar io (buf ! i) d;
     write_down io buf i d
   }"

definition serial_writeint :: "'d io_ports \<Rightarrow> int \<Rightarrow> 'd \<Rightarrow> 'd option" where
  "serial_writeint io num d = do {
     buf \<leftarrow> get_digits 12 num;
     write_down io buf (length buf) d
   }"

definition hex_chars :: "u8 list" where
  "hex_chars = ascii ''0123456789ABCDEF''"

primrec hex_loop :: "'d io_ports \<Rightarrow> u32 \<Rightarrow> nat \<Rightarrow> 'd \<Rightarrow> 'd option" where
  "hex_loop io num 0 d = Some d"
| "hex_loop io num (Suc k) d = do {
     d \<leftarrow> serial_writechar io (hex_chars ! unat (drop_bit (4 * k) num AND 0xF)) d;
     hex_loop io num k d
   }"

definition serial_writehex :: "'d io_ports \<Rightarrow> u32 \<Rightarrow> 'd \<Rightarrow> 'd option" where
  "serial_writehex io num d = do {
     d \<leftarrow> serial_writestring io (ascii ''0x'' @ [0]) d;
     hex_loop io num 8 d
   }"

definition serial_writedec :: "'d io_ports \<Rightarrow> int \<Rightarrow> 'd \<Rightarrow> 'd option" where
  "serial_writedec io num d =
     (if num = 0 then serial_writestring io (ascii ''0'' @ [0]) d
      else do {
        (num, d) \<leftarrow> (if num < 0 then do {
            d \<leftarrow> serial_writestring io (ascii ''-'' @ [0]) d;
            Some (neg32 num, d)
          } else Some (num, d));
        buf \<leftarrow> digit_loop 16 [] num;
        write_down io buf (length buf) d
      })"

datatype va = VInt u32 | VStr "u8 list option"

fun va_int :: "va list \<Rightarrow> (u32 \<times> va list) option" where
  "va_int (VInt w # args) = Some (w, args)"
| "va_int _ = None"

fun va_str :: "va list \<Rightarrow> (u8 list option \<times> va list) option" where
  "va_str (VStr s # args) = Some (s, args)"
| "va_str _ = None"

definition printk_verb :: "'d io_ports \<Rightarrow> u8 \<Rightarrow> va list \<Rightarrow> 'd \<Rightarrow> (va list \<times> 'd) option" where
  "printk_verb io c args d =
     (if c = of_char CHR ''d'' \<or> c = of_char CHR ''u'' then do {
        (w, args) \<leftarrow> va_int args;
        d \<leftarrow> serial_writedec io (sint w) d;
        Some (args, d)
      } else if c = of_char CHR ''x'' then do {
        (w, args) \<leftarrow> va_int args;
        d \<leftarrow> serial_writehex io w d;
        Some (args, d)
      } else if c = of_char CHR ''p'' then do {
        d \<leftarrow> serial_writestring io (ascii ''0x'' @ [0]) d;
        (w, args) \<leftarrow> va_int args;
        d \<leftarrow> serial_writehex io w d;
        Some (args, d)
      } else if c = of_char CHR ''c'' then do {
        (w, args) \<leftarrow> va_int args;
        d \<leftarrow> serial_writechar io (ucast w) d;
        Some (args, d)
      } else if c = of_char CHR ''s'' then do {
        (s, args) \<leftarrow> va_str args;
        d \<leftarrow> (case s of Some s \<Rightarrow> serial_writestring io s d
              | None \<Rightarrow> serial_writestring io (ascii ''(null)'' @ [0]) d);
        Some (args, d)
      } else if c = of_char CHR ''%'' then do {
        d \<leftarrow> serial_writechar io (of_char CHR ''%'') d;
        Some (args, d)
      } else do {
        d \<leftarrow> serial_writechar io (of_char CHR ''%'') d;
        d \<leftarrow> serial_writechar io c d;
        Some (args, d)
      })"

definition printk_long :: "'d io_ports \<Rightarrow> u8 \<Rightarrow> va list \<Rightarrow> 'd \<Rightarrow> (va list \<times> 'd) option" where
  "printk_long io c args d =
     (if c = of_char CHR ''d'' \<or> c = of_char CHR ''u'' then do {
        (w, args) \<leftarrow> va_int args;
        d \<leftarrow> serial_writedec io (sint w) d;
        Some (args, d)
      } else do {
        d \<leftarrow> serial_writechar io (of_char CHR ''?'') d;
        Some (args, d)
      })"

fun printk :: "'d io_ports \<Rightarrow> u8 list \<Rightarrow> va list \<Rightarrow> 'd \<Rightarrow> 'd option" where
  "printk io [] args d = None"
| "printk io (c # format) args d =
     (if c = 0 then Some d
      else if c \<noteq> of_char CHR ''%'' then do {
        d \<leftarrow> serial_writechar io c d;
        printk io format args d
      } else (case format of
          [] \<Rightarrow> None
        | c # format \<Rightarrow>
            if c = of_char CHR ''l'' then (case format of
                [] \<Rightarrow> None
              | c # format \<Rightarrow> do {
                  (args, d) \<leftarrow> printk_long io c args d;
                  printk io format args d
                })
            else do {
              (args, d) \<leftarrow> printk_verb io c args d;
              printk io format args d
            }))"

section \<open>The 16550 serial port\<close>

text \<open>Bit 7 of the line control register selects what the first two ports mean: the divisor, or the transmitter and the
  interrupt enable register.  The line status register reports an empty transmitter in bit 5; \<open>delay\<close> bounds how often
  it must still be read before that.\<close>

record uart_regs =
  ier :: u8
  fcr :: u8
  lcr :: u8
  mcr :: u8
  dll :: u8
  dlm :: u8

definition uart_write :: "u16 \<Rightarrow> u8 \<Rightarrow> uart_regs \<Rightarrow> uart_regs" where
  "uart_write p v r =
     (if p = 0x3F8 then (if bit (lcr r) 7 then r\<lparr>dll := v\<rparr> else r)
      else if p = 0x3F9 then (if bit (lcr r) 7 then r\<lparr>dlm := v\<rparr> else r\<lparr>ier := v\<rparr>)
      else if p = 0x3FA then r\<lparr>fcr := v\<rparr>
      else if p = 0x3FB then r\<lparr>lcr := v\<rparr>
      else if p = 0x3FC then r\<lparr>mcr := v\<rparr>
      else r)"

locale uart =
  fixes io :: "'d io_ports"
    and regs :: "'d \<Rightarrow> uart_regs"
    and sent :: "'d \<Rightarrow> u8 list"
    and delay :: "'d \<Rightarrow> nat"
  assumes status_wait: "delay d > 0 \<Longrightarrow> \<exists>s d'. in8 io 0x3FD d = (s, d') \<and> s AND 0x20 = 0 \<and> delay d' < delay d
        \<and> sent d' = sent d \<and> regs d' = regs d"
    and status_ready: "delay d = 0 \<Longrightarrow> \<exists>s d'. in8 io 0x3FD d = (s, d') \<and> s AND 0x20 \<noteq> 0 \<and> delay d' = 0
        \<and> sent d' = sent d \<and> regs d' = regs d"
    and transmit: "\<not> bit (lcr (regs d)) 7 \<Longrightarrow> delay d = 0 \<Longrightarrow>
        sent (out8 io 0x3F8 c d) = sent d @ [c] \<and> regs (out8 io 0x3F8 c d) = regs d"
    and configure: "p \<in> {0x3F9, 0x3FA, 0x3FB, 0x3FC} \<or> p = 0x3F8 \<and> bit (lcr (regs d)) 7 \<Longrightarrow>
        sent (out8 io p v d) = sent d \<and> regs (out8 io p v d) = uart_write p v (regs d)"
begin

text \<open>\<open>prints f txt\<close>: from every state in which the port transmits, \<open>f\<close> ends and sends exactly \<open>txt\<close>.\<close>

definition line_open :: "'d \<Rightarrow> bool" where
  "line_open d \<longleftrightarrow> \<not> bit (lcr (regs d)) 7"

definition prints :: "('d \<Rightarrow> 'd option) \<Rightarrow> u8 list \<Rightarrow> bool" where
  "prints f txt \<longleftrightarrow> (\<forall>d. line_open d \<longrightarrow> (\<exists>d'. f d = Some d' \<and> sent d' = sent d @ txt \<and> regs d' = regs d))"

lemma wait_ends: "\<exists>d'. serial_wait io d = Some d' \<and> delay d' = 0 \<and> sent d' = sent d \<and> regs d' = regs d"
proof (induction "delay d" arbitrary: d rule: less_induct)
  case less
  show ?case
  proof (cases "delay d = 0")
    case True
    from status_ready [OF True] show ?thesis by (subst serial_wait.simps) (auto simp: inb_def COM1_def)
  next
    case False
    then obtain s d' where d': "in8 io 0x3FD d = (s, d')" "s AND 0x20 = 0" "delay d' < delay d"
      "sent d' = sent d" "regs d' = regs d"
      using status_wait [of d] by auto
    from less [OF d'(3)] d' show ?thesis by (subst serial_wait.simps) (auto simp: inb_def COM1_def)
  qed
qed

lemma prints_Some: "prints Some []"
  by (simp add: prints_def)

lemma prints_bind:
  assumes "prints f s" "\<And>d. prints g t" 
  shows "prints (\<lambda>d. f d \<bind> g) (s @ t)"
  unfolding prints_def
proof (intro allI impI)
  fix d assume "line_open d"
  with assms(1) obtain d1 where d1: "f d = Some d1" "sent d1 = sent d @ s" "regs d1 = regs d" unfolding prints_def by blast
  with \<open>line_open d\<close> have "line_open d1" by (simp add: line_open_def)
  with assms(2) obtain d2 where "g d1 = Some d2" "sent d2 = sent d1 @ t" "regs d2 = regs d1" unfolding prints_def by blast
  with d1 show "\<exists>d'. f d \<bind> g = Some d' \<and> sent d' = sent d @ s @ t \<and> regs d' = regs d" by simp
qed

lemma prints_writechar: "prints (serial_writechar io c) [c]"
  unfolding prints_def
proof (intro allI impI)
  fix d assume "line_open d"
  obtain d' where "serial_wait io d = Some d'" "delay d' = 0" "sent d' = sent d" "regs d' = regs d"
    using wait_ends by blast
  with \<open>line_open d\<close> transmit [of d' c]
  show "\<exists>d'. serial_writechar io c d = Some d' \<and> sent d' = sent d @ [c] \<and> regs d' = regs d"
    by (simp add: serial_writechar_def outb_def COM1_def line_open_def)
qed

lemma prints_string: "0 \<notin> set s \<Longrightarrow> prints (serial_writestring io (s @ 0 # r)) s"
proof (induction s)
  case Nil
  then show ?case by (simp add: prints_def)
next
  case (Cons c s)
  then have "prints (\<lambda>d. serial_writechar io c d \<bind> serial_writestring io (s @ 0 # r)) ([c] @ s)"
    by (intro prints_bind prints_writechar) auto
  with Cons.prems show ?case by auto
qed

lemma prints_down: "n \<le> length buf \<Longrightarrow> prints (write_down io buf n) (rev (take n buf))"
proof (induction n)
  case 0
  then show ?case by (simp add: prints_def)
next
  case (Suc n)
  then have "prints (\<lambda>d. serial_writechar io (buf ! n) d \<bind> write_down io buf n) ([buf ! n] @ rev (take n buf))"
    by (intro prints_bind prints_writechar) auto
  with Suc.prems show ?case by (simp add: take_Suc_conv_app_nth)
qed

end

section \<open>Numerals\<close>

fun dec_digits :: "nat \<Rightarrow> u8 list" where
  "dec_digits n = (if n < 10 then [0x30 + of_nat n] else dec_digits (n div 10) @ [0x30 + of_nat (n mod 10)])"

declare dec_digits.simps [simp del]

definition dec_text :: "int \<Rightarrow> u8 list" where
  "dec_text n = (if n < 0 then 0x2D # dec_digits (nat (- n)) else dec_digits (nat n))"

definition hex_text :: "u32 \<Rightarrow> u8 list" where
  "hex_text w = map (\<lambda>k. hex_chars ! (unat w div 16 ^ k mod 16)) (rev [0..<8])"

lemma length_dec_digits: "0 < m \<Longrightarrow> n < 10 ^ m \<Longrightarrow> length (dec_digits n) \<le> m"
proof (induction n arbitrary: m rule: dec_digits.induct)
  case (1 n)
  show ?case
  proof (cases "n < 10")
    case True
    then show ?thesis using "1.prems" by (simp add: dec_digits.simps)
  next
    case False
    with "1.prems" obtain k where m: "m = Suc k" by (cases m) auto
    with False "1.prems" have "0 < k" by (cases k) auto
    moreover have "n div 10 < 10 ^ k" using "1.prems" m by (simp add: less_mult_imp_div_less mult.commute)
    ultimately have "length (dec_digits (n div 10)) \<le> k" using "1.IH" [OF False] by blast
    then show ?thesis using False m by (simp add: dec_digits.simps [of n])
  qed
qed

lemma digit_loop_rev:
  assumes "0 < num" "length buf + length (dec_digits (nat num)) \<le> n"
  shows "digit_loop n buf num = Some (buf @ rev (dec_digits (nat num)))"
  using assms
proof (induction "nat num" arbitrary: buf num rule: dec_digits.induct)
  case 1
  have digit: "(word_of_int (num mod 10) :: u8) = of_nat (nat num mod 10)"
  proof -
    have "num mod 10 = int (nat num mod 10)" using "1.prems"(1) by (simp add: of_nat_mod)
    then show ?thesis by (simp only: of_int_of_nat_eq)
  qed
  show ?case
  proof (cases "nat num < 10")
    case True
    then have "num div 10 = 0" "num mod 10 = num" using "1.prems"(1) by auto
    moreover have "length buf < n" using "1.prems"(2) True by (simp add: dec_digits.simps)
    ultimately show ?thesis
      using "1.prems"(1) True digit by (simp add: digit_loop.simps put_digit_def dec_digits.simps)
  next
    case False
    have n10: "nat (num div 10) = nat num div 10" using "1.prems"(1) by (simp add: nat_div_distrib)
    have "digit_loop n (buf @ [0x30 + of_nat (nat num mod 10)]) (num div 10) =
        Some ((buf @ [0x30 + of_nat (nat num mod 10)]) @ rev (dec_digits (nat (num div 10))))"
    proof (rule "1.hyps" [OF False])
      show "nat num div 10 = nat (num div 10)" using n10 by simp
      show "0 < num div 10" using False by linarith
      show "length (buf @ [0x30 + of_nat (nat num mod 10)]) + length (dec_digits (nat (num div 10))) \<le> n"
        using "1.prems"(2) False by (simp add: dec_digits.simps [of "nat num"] n10)
    qed
    moreover have "length buf < n" using "1.prems"(2) False by (simp add: dec_digits.simps [of "nat num"])
    ultimately show ?thesis
      using "1.prems"(1) False digit
      by (simp add: digit_loop.simps [of n buf] put_digit_def dec_digits.simps [of "nat num"] n10)
  qed
qed

lemma neg32_eq: "- (2 ^ 31) < n \<Longrightarrow> n < 2 ^ 31 \<Longrightarrow> neg32 n = - n"
  unfolding neg32_def by (rule signed_take_bit_int_eq_self) simp_all

lemma neg32_min: "neg32 (- (2 ^ 31)) = - (2 ^ 31)"
  by (simp add: neg32_def signed_take_bit_int_eq_self_iff signed_take_bit_eq_take_bit_minus)

lemma digits_fit: "0 < n \<Longrightarrow> n < 2 ^ 31 \<Longrightarrow> length (dec_digits (nat n)) \<le> 10"
  by (rule length_dec_digits) auto

lemma get_digits_rev:
  assumes "- (2 ^ 31) < num" "num < 2 ^ 31"
  shows "get_digits 12 num = Some (rev (dec_text num))"
proof -
  consider "num = 0" | "0 < num" | "num < 0" by linarith
  then show ?thesis
  proof cases
    case 1
    then show ?thesis by (simp add: get_digits_def put_digit_def dec_text_def dec_digits.simps)
  next
    case 2
    then show ?thesis
      using digit_loop_rev [of num "[]" 12] digits_fit [of num] assms(2) by (simp add: get_digits_def dec_text_def)
  next
    case 3
    then show ?thesis
      using digit_loop_rev [of "- num" "[]" 12] digits_fit [of "- num"] neg32_eq [of num] assms
      by (simp add: get_digits_def dec_text_def put_digit_def)
  qed
qed

lemma hex_digit: "unat (drop_bit (4 * k) w AND 0xF) = unat w div 16 ^ k mod 16" for w :: u32
proof -
  have "(0xF :: u32) = mask 4" by (simp add: mask_eq_exp_minus_1)
  then show ?thesis
    using unsigned_less [of w, where 'a = nat]
    by (simp only: unat_and_mask unsigned_drop_bit_eq) (simp add: drop_bit_eq_div power_mult take_bit_nat_eq_self)
qed

context uart
begin

lemma prints_int: "- (2 ^ 31) < num \<Longrightarrow> num < 2 ^ 31 \<Longrightarrow> prints (serial_writeint io num) (dec_text num)"
  using prints_down [of "length (dec_text num)" "rev (dec_text num)"]
  by (simp add: serial_writeint_def [abs_def] get_digits_rev)

lemma prints_hex_loop: "prints (hex_loop io w n) (map (\<lambda>k. hex_chars ! (unat w div 16 ^ k mod 16)) (rev [0..<n]))"
proof (induction n)
  case 0
  then show ?case by (simp add: prints_def)
next
  case (Suc n)
  from prints_bind [OF prints_writechar Suc]
  show ?case by (simp add: hex_digit)
qed

lemma prints_hex: "prints (serial_writehex io w) (ascii ''0x'' @ hex_text w)"
  unfolding serial_writehex_def [abs_def] hex_text_def
  by (intro prints_bind prints_hex_loop prints_string) (auto simp: ascii_def)

lemma prints_dec:
  assumes "- (2 ^ 31) < num" "num < 2 ^ 31"
  shows "prints (serial_writedec io num) (dec_text num)"
proof -
  have pos: "prints (\<lambda>d. digit_loop 16 [] n \<bind> (\<lambda>buf. write_down io buf (length buf) d)) (dec_digits (nat n))"
    if "0 < n" "n < 2 ^ 31" for n
    using prints_down [of "length (dec_digits (nat n))" "rev (dec_digits (nat n))"]
      digit_loop_rev [of n "[]" 16] digits_fit [of n] that
    by simp
  consider "num = 0" | "0 < num" | "num < 0" by linarith
  then show ?thesis
  proof cases
    case 1
    then show ?thesis
      using prints_string [of "ascii ''0''" "[]"]
      by (simp add: serial_writedec_def [abs_def] dec_text_def dec_digits.simps ascii_def del: serial_writestring.simps)
  next
    case 2
    with pos [OF 2 assms(2)] show ?thesis by (simp add: serial_writedec_def [abs_def] dec_text_def)
  next
    case 3
    have "prints (\<lambda>d. serial_writestring io (ascii ''-'' @ [0]) d \<bind>
        (\<lambda>d. digit_loop 16 [] (- num) \<bind> (\<lambda>buf. write_down io buf (length buf) d))) (ascii ''-'' @ dec_digits (nat (- num)))"
      by (rule prints_bind [OF prints_string pos]) (use 3 assms in \<open>auto simp: ascii_def\<close>)
    with 3 assms show ?thesis
      by (simp add: serial_writedec_def [abs_def] dec_text_def neg32_eq ascii_def bind_assoc)
  qed
qed

end

section \<open>What \<open>printk\<close> sends\<close>

text \<open>A format is a sequence of pieces, each with the argument it uses: its spelling in the format string, its arguments
  and the text that stands for it in the output.\<close>

datatype piece = Lit u8 | Percent | Dec u32 | Udec u32 | Hex u32 | Ptr u32 | Chr u32 | Str "u8 list" | NullStr
  | LDec u32 | LUdec u32 | Unknown u8

fun fmt_of :: "piece \<Rightarrow> u8 list" where
  "fmt_of (Lit c) = [c]"
| "fmt_of Percent = ascii ''%%''"
| "fmt_of (Dec w) = ascii ''%d''"
| "fmt_of (Udec w) = ascii ''%u''"
| "fmt_of (Hex w) = ascii ''%x''"
| "fmt_of (Ptr w) = ascii ''%p''"
| "fmt_of (Chr w) = ascii ''%c''"
| "fmt_of (Str s) = ascii ''%s''"
| "fmt_of NullStr = ascii ''%s''"
| "fmt_of (LDec w) = ascii ''%ld''"
| "fmt_of (LUdec w) = ascii ''%lu''"
| "fmt_of (Unknown c) = ascii ''%'' @ [c]"

fun args_of :: "piece \<Rightarrow> va list" where
  "args_of (Dec w) = [VInt w]"
| "args_of (Udec w) = [VInt w]"
| "args_of (Hex w) = [VInt w]"
| "args_of (Ptr w) = [VInt w]"
| "args_of (Chr w) = [VInt w]"
| "args_of (Str s) = [VStr (Some (s @ [0]))]"
| "args_of NullStr = [VStr None]"
| "args_of (LDec w) = [VInt w]"
| "args_of (LUdec w) = [VInt w]"
| "args_of _ = []"

fun text_of :: "piece \<Rightarrow> u8 list" where
  "text_of (Lit c) = [c]"
| "text_of Percent = ascii ''%''"
| "text_of (Dec w) = dec_text (sint w)"
| "text_of (Udec w) = dec_text (uint w)"
| "text_of (Hex w) = ascii ''0x'' @ hex_text w"
| "text_of (Ptr w) = ascii ''0x0x'' @ hex_text w"
| "text_of (Chr w) = [ucast w]"
| "text_of (Str s) = s"
| "text_of NullStr = ascii ''(null)''"
| "text_of (LDec w) = dec_text (sint w)"
| "text_of (LUdec w) = dec_text (uint w)"
| "text_of (Unknown c) = ascii ''%'' @ [c]"

fun piece_ok :: "piece \<Rightarrow> bool" where
  "piece_ok (Lit c) \<longleftrightarrow> c \<noteq> 0 \<and> c \<noteq> of_char CHR ''%''"
| "piece_ok (Dec w) \<longleftrightarrow> w \<noteq> 0x80000000"
| "piece_ok (LDec w) \<longleftrightarrow> w \<noteq> 0x80000000"
| "piece_ok (Udec w) \<longleftrightarrow> w < 0x80000000"
| "piece_ok (LUdec w) \<longleftrightarrow> w < 0x80000000"
| "piece_ok (Str s) \<longleftrightarrow> 0 \<notin> set s"
| "piece_ok (Unknown c) \<longleftrightarrow> c \<notin> set (0 # ascii ''duxpcsl%'')"
| "piece_ok _ \<longleftrightarrow> True"

definition fmt :: "piece list \<Rightarrow> u8 list" where
  "fmt ps = concat (map fmt_of ps) @ [0]"

definition va_args :: "piece list \<Rightarrow> va list" where
  "va_args ps = concat (map args_of ps)"

definition text_output :: "piece list \<Rightarrow> u8 list" where
  "text_output ps = concat (map text_of ps)"

fun emit :: "'d io_ports \<Rightarrow> piece \<Rightarrow> 'd \<Rightarrow> 'd option" where
  "emit io (Lit c) = serial_writechar io c"
| "emit io Percent = serial_writechar io (of_char CHR ''%'')"
| "emit io (Dec w) = serial_writedec io (sint w)"
| "emit io (Udec w) = serial_writedec io (sint w)"
| "emit io (LDec w) = serial_writedec io (sint w)"
| "emit io (LUdec w) = serial_writedec io (sint w)"
| "emit io (Hex w) = serial_writehex io w"
| "emit io (Ptr w) = (\<lambda>d. serial_writestring io (ascii ''0x'' @ [0]) d \<bind> serial_writehex io w)"
| "emit io (Chr w) = serial_writechar io (ucast w)"
| "emit io (Str s) = serial_writestring io (s @ [0])"
| "emit io (Unknown c) = (\<lambda>d. serial_writechar io (of_char CHR ''%'') d \<bind> serial_writechar io c)"
| "emit io NullStr = serial_writestring io (ascii ''(null)'' @ [0])"

lemma printk_piece:
  assumes "piece_ok p"
  shows "printk io (fmt_of p @ f) (args_of p @ args) d = emit io p d \<bind> printk io f args"
  using assms by (cases p) (simp_all add: ascii_def printk_verb_def printk_long_def bind_assoc del: serial_writestring.simps)

lemma sint_u32_range: "w \<noteq> 0x80000000 \<Longrightarrow> - (2 ^ 31) < sint w \<and> sint w < 2 ^ 31" for w :: u32
proof -
  have "sint w \<noteq> - (2 ^ 31)" if "w \<noteq> 0x80000000"
  proof
    assume "sint w = - (2 ^ 31)"
    then have "(word_of_int (sint w) :: u32) = word_of_int (- (2 ^ 31))" by simp
    with that show False by simp
  qed
  then show "w \<noteq> 0x80000000 \<Longrightarrow> - (2 ^ 31) < sint w \<and> sint w < 2 ^ 31"
    using sint_range_size [of w] by (auto simp: word_size order_le_less)
qed

lemma sint_small: "w < 0x80000000 \<Longrightarrow> sint w = uint w" for w :: u32
proof -
  assume "w < 0x80000000"
  then have "uint w < 2 ^ 31" by (simp add: word_less_def)
  then show "sint w = uint w" by (simp add: sint_uint signed_take_bit_int_eq_self order_trans [OF _ uint_ge_0])
qed

context uart
begin

lemma prints_signed: "w \<noteq> 0x80000000 \<Longrightarrow> prints (serial_writedec io (sint w)) (dec_text (sint w))" for w :: u32
  using sint_u32_range [of w] by (intro prints_dec) auto

lemma prints_unsigned: "w < 0x80000000 \<Longrightarrow> prints (serial_writedec io (sint w)) (dec_text (uint w))" for w :: u32
  using prints_signed [of w] by (auto simp: sint_small)

lemma prints_piece: "piece_ok p \<Longrightarrow> prints (emit io p) (text_of p)"
proof (cases p)
  case (Ptr w)
  have "prints (emit io p) (ascii ''0x'' @ ascii ''0x'' @ hex_text w)"
    unfolding Ptr emit.simps by (rule prints_bind [OF prints_string prints_hex]) (simp add: ascii_def)
  then show ?thesis by (simp add: Ptr ascii_def)
next
  case NullStr
  then show ?thesis using prints_string [of "ascii ''(null)''" "[]"] by (simp add: ascii_def del: serial_writestring.simps)
next
  case (Unknown c)
  then show ?thesis using prints_bind [OF prints_writechar prints_writechar] by (simp add: ascii_def)
next
  case Percent
  then show ?thesis using prints_writechar [of "of_char CHR ''%''"] by (simp add: ascii_def)
qed (auto simp: prints_writechar prints_signed prints_unsigned prints_hex prints_string)

lemma prints_printk: "\<forall>p \<in> set ps. piece_ok p \<Longrightarrow> prints (printk io (fmt ps) (va_args ps @ extra)) (text_output ps)"
proof (induction ps)
  case Nil
  then show ?case by (simp add: prints_def fmt_def text_output_def)
next
  case (Cons p ps)
  then have "prints (\<lambda>d. emit io p d \<bind> printk io (fmt ps) (va_args ps @ extra)) (text_of p @ text_output ps)"
    by (intro prints_bind prints_piece) auto
  moreover have "printk io (fmt (p # ps)) (va_args (p # ps) @ extra) = (\<lambda>d. emit io p d \<bind> printk io (fmt ps) (va_args ps @ extra))"
    using Cons.prems printk_piece [of p io "fmt ps" "va_args ps @ extra"] by (simp add: fmt_def va_args_def fun_eq_iff)
  ultimately show ?case by (simp add: text_output_def)
qed

end

section \<open>A serial port\<close>

record com_port =
  com_regs :: uart_regs
  com_sent :: "u8 list"
  com_delay :: nat

definition com_in8 :: "u16 \<Rightarrow> com_port \<Rightarrow> u8 \<times> com_port" where
  "com_in8 p d =
     (if p = 0x3FD then (if com_delay d = 0 then (0x60, d) else (0x40, d\<lparr>com_delay := com_delay d - 1\<rparr>))
      else (0, d))"

definition com_out8 :: "u16 \<Rightarrow> u8 \<Rightarrow> com_port \<Rightarrow> com_port" where
  "com_out8 p v d =
     (if p = 0x3F8 \<and> \<not> bit (lcr (com_regs d)) 7 then d\<lparr>com_sent := com_sent d @ [v], com_delay := 2\<rparr>
      else d\<lparr>com_regs := uart_write p v (com_regs d)\<rparr>)"

definition com_io :: "com_port io_ports" where
  "com_io = \<lparr>in8 = com_in8, out8 = com_out8, in16 = \<lambda>p d. (0, d), out16 = \<lambda>p w d. d\<rparr>"

interpretation com: uart com_io com_regs com_sent com_delay
  by unfold_locales (auto simp: com_io_def com_in8_def com_out8_def)

section \<open>Properties\<close>

context uart
begin

lemma serial_init_sets:
  "regs (serial_init io d) = \<lparr>ier = (if bit (lcr (regs d)) 7 then ier (regs d) else 0), fcr = 0xC7, lcr = 3, mcr = 0x0B,
     dll = 3, dlm = 0\<rparr> \<and> sent (serial_init io d) = sent d"
  by (simp add: serial_init_def Let_def outb_def COM1_def configure uart_write_def)

lemma prints_after_init:
  assumes "prints f txt"
  shows "\<exists>d'. f (serial_init io d) = Some d' \<and> sent d' = sent d @ txt \<and> regs d' = regs (serial_init io d)"
proof -
  have "line_open (serial_init io d)" using serial_init_sets [of d] by (simp add: line_open_def)
  with assms show ?thesis using serial_init_sets [of d] unfolding prints_def by fastforce
qed

lemma prints_int_min: "prints (printk io (ascii ''%d'' @ [0]) [VInt 0x80000000]) (ascii ''-'')"
proof -
  have "sint (0x80000000 :: u32) = - (2 ^ 31)" by simp
  then have "serial_writedec io (sint (0x80000000 :: u32)) d = serial_writestring io (ascii ''-'' @ [0]) d" for d
    using neg32_min by (simp add: serial_writedec_def digit_loop.simps del: serial_writestring.simps)
  then have "printk io (ascii ''%d'' @ [0]) [VInt 0x80000000] d = serial_writestring io (ascii ''-'' @ [0]) d" for d
    by (cases "serial_writestring io (ascii ''-'' @ [0]) d") (simp_all add: ascii_def printk_verb_def)
  then show ?thesis using prints_string [of "ascii ''-''" "[]"] by (simp add: prints_def ascii_def)
qed

lemma prints_large_unsigned:
  assumes "0x80000000 < w"
  shows "prints (printk io (ascii ''%u'' @ [0]) [VInt w]) (dec_text (uint w - 2 ^ 32))"
proof -
  have "2 ^ 31 \<le> uint w" using assms by (simp add: word_less_def)
  moreover have "uint w < 2 ^ 32" using uint_bounded [of w] by simp
  ultimately have "(uint w - 2 ^ 31 + 2 ^ 32) mod 2 ^ 32 = uint w - 2 ^ 31"
    by (simp only: mod_add_self2) (simp add: mod_pos_pos_trivial)
  then have "sint w = uint w - 2 ^ 32"
    by (simp add: sint_uint signed_take_bit_eq_take_bit_shift take_bit_eq_mod add.commute)
  moreover have "prints (serial_writedec io (sint w)) (dec_text (sint w))" using assms by (intro prints_signed) auto
  moreover have "printk io (ascii ''%u'' @ [0]) [VInt w] d = serial_writedec io (sint w) d" for d
    by (cases "serial_writedec io (sint w) d") (simp_all add: ascii_def printk_verb_def)
  ultimately show ?thesis by (simp add: prints_def)
qed

end

text \<open>C25: on a port that follows the 16550 protocol, \<open>serial_init\<close> sends nothing and programs the divisor 3, 8 data bits
  and no parity; \<open>printk\<close> then ends and sends the format with every directive replaced by the text of its argument.  The
  directive \<open>%u\<close> prints a number above \<open>2 ^ 31\<close> as a negative one, and \<open>%d\<close> prints the least integer as a lone minus sign.\<close>

theorem printk_sends_text:
  assumes "uart io regs sent delay" "\<forall>p \<in> set ps. piece_ok p"
  shows "let d1 = serial_init io d in
    regs d1 = \<lparr>ier = (if bit (lcr (regs d)) 7 then ier (regs d) else 0), fcr = 0xC7, lcr = 3, mcr = 0x0B, dll = 3, dlm = 0\<rparr>
    \<and> sent d1 = sent d
    \<and> (\<exists>d'. printk io (fmt ps) (va_args ps) d1 = Some d' \<and> sent d' = sent d @ text_output ps \<and> regs d' = regs d1)
    \<and> (\<forall>w. 0x80000000 < w \<longrightarrow> (\<exists>d'. printk io (ascii ''%u'' @ [0]) [VInt w] d1 = Some d'
         \<and> sent d' = sent d @ dec_text (uint w - 2 ^ 32)))
    \<and> (\<exists>d'. printk io (ascii ''%d'' @ [0]) [VInt 0x80000000] d1 = Some d' \<and> sent d' = sent d @ ascii ''-'')"
  using uart.serial_init_sets [OF assms(1), of d] uart.prints_after_init [OF assms(1) uart.prints_printk [OF assms, of "[]"], of d]
    uart.prints_after_init [OF assms(1) uart.prints_large_unsigned [OF assms(1)], of _ d]
    uart.prints_after_init [OF assms(1) uart.prints_int_min [OF assms(1)], of d]
  unfolding Let_def append_Nil2 by blast

theorem printk_sends_text_witness:
  "\<exists>d'. printk com_io (ascii ''n=%d %x'' @ [0]) [VInt (- 42), VInt 0xBEEF]
      (serial_init com_io \<lparr>com_regs = \<lparr>ier = 1, fcr = 0, lcr = 0, mcr = 0, dll = 0, dlm = 0\<rparr>, com_sent = [], com_delay = 3\<rparr>) = Some d'
    \<and> com_sent d' = ascii ''n=-42 0x0000BEEF''"
proof -
  let ?ps = "[Lit (of_char CHR ''n''), Lit (of_char CHR ''=''), Dec (- 42), Lit (of_char CHR '' ''), Hex 0xBEEF]"
  have "fmt ?ps = ascii ''n=%d %x'' @ [0]" "va_args ?ps = [VInt (- 42), VInt 0xBEEF]"
    by (simp_all add: fmt_def va_args_def ascii_def)
  moreover have "text_output ?ps = ascii ''n=-42 0x0000BEEF''"
    by (simp add: text_output_def ascii_def dec_text_def dec_digits.simps hex_text_def hex_chars_def upt_rec)
  moreover have "\<forall>p \<in> set ?ps. piece_ok p" by simp
  ultimately show ?thesis
    using printk_sends_text [OF com.uart_axioms, of ?ps "\<lparr>com_regs = \<lparr>ier = 1, fcr = 0, lcr = 0, mcr = 0, dll = 0, dlm = 0\<rparr>, com_sent = [], com_delay = 3\<rparr>"]
    by (auto simp: Let_def)
qed

end
