(* ===== verification/Descriptors.thy ===== *)
theory Descriptors
  imports Serial
begin

text \<open>
  The processor's descriptor tables: segments (\<^verbatim>\<open>kernel/gdt/gdt.c\<close>), interrupt gates and the reports of the trap
  handlers (\<^verbatim>\<open>kernel/idt/idt.c\<close>).

  A table is the list of its entries.  The addresses of the tables, of the task state segment and of the assembly stubs
  are chosen by the linker and are parameters.  Loading a table register is an assignment to the state.  A trap
  handler gets the words of the stack frame at its pointer argument as a list.
\<close>

section \<open>Segments\<close>

record gdt_entry =
  limit_low :: u16
  base_low :: u16
  base_middle :: u8
  access :: u8
  granularity :: u8
  base_high :: u8

record table_ptr =
  tp_limit :: u16
  tp_base :: u32

definition GDT_SIZE :: nat where "GDT_SIZE = 6"

definition sizeof_tss :: u32 where
  "sizeof_tss = 26 * 4 + (7 + 20) * 4"

record gdt_state =
  gdt :: "gdt_entry list"
  gdt_ptr :: table_ptr
  gdtr :: "table_ptr option"
  code_segment :: u16
  data_segments :: u16

definition set_gdt_entry :: "nat \<Rightarrow> u32 \<Rightarrow> u32 \<Rightarrow> u8 \<Rightarrow> u8 \<Rightarrow> gdt_state \<Rightarrow> gdt_state" where
  "set_gdt_entry index base limit acc gran G =
     G\<lparr>gdt := (gdt G)[index :=
       \<lparr>limit_low = ucast (limit AND 0xFFFF),
        base_low = ucast (base AND 0xFFFF),
        base_middle = ucast (drop_bit 16 base AND 0xFF),
        access = acc,
        granularity = ucast (drop_bit 16 limit AND 0x0F) OR push_bit 4 gran,
        base_high = ucast (drop_bit 24 base AND 0xFF)\<rparr>]\<rparr>"

definition fill_gdt :: "u32 \<Rightarrow> gdt_state \<Rightarrow> gdt_state" where
  "fill_gdt tss_addr G =
     (let G = set_gdt_entry 0 0 0 0 0 G;
          G = set_gdt_entry 1 0 0xFFFFF 0x9A 0xC G;
          G = set_gdt_entry 2 0 0xFFFFF 0x92 0xC G;
          G = set_gdt_entry 3 0 0xFFFFF 0xFA 0xC G;
          G = set_gdt_entry 4 0 0xFFFFF 0xF2 0xC G
      in set_gdt_entry 5 tss_addr (sizeof_tss - 1) 0x89 0x0 G)"

definition load_gdt :: "gdt_state \<Rightarrow> gdt_state" where
  "load_gdt G = G\<lparr>gdtr := Some (gdt_ptr G)\<rparr>"

definition gdt_flush :: "gdt_state \<Rightarrow> gdt_state" where
  "gdt_flush G = G\<lparr>code_segment := 0x08, data_segments := 0x10\<rparr>"

definition gdt_initialize :: "u32 \<Rightarrow> u32 \<Rightarrow> gdt_state \<Rightarrow> gdt_state" where
  "gdt_initialize tss_addr gdt_addr G =
     (let G = fill_gdt tss_addr G;
          G = G\<lparr>gdt_ptr := \<lparr>tp_limit = of_nat (8 * GDT_SIZE) - 1, tp_base = gdt_addr\<rparr>\<rparr>
      in gdt_flush (load_gdt G))"

section \<open>Interrupt gates\<close>

record idt_entry =
  isr_low :: u16
  kernel_cs :: u16
  idt_reserved :: u8
  attributes :: u8
  isr_high :: u16

definition IDT_MAX_DESCRIPTORS :: nat where "IDT_MAX_DESCRIPTORS = 256"
definition KERNEL_CS :: u16 where "KERNEL_CS = 0x08"

record idt_state =
  idt :: "idt_entry list"
  idtr :: table_ptr
  idt_register :: "table_ptr option"

datatype trap_stub = Divide_error | Debug | Nmi | Int3 | Overflow | Bounds | Invalid_op | Device_not_available
  | Double_fault | Coprocessor_segment_overrun | Invalid_TSS | Segment_not_present | Stack_segment
  | General_protection | Coprocessor_error | Reserved

definition set_gate :: "nat \<Rightarrow> u32 \<Rightarrow> u8 \<Rightarrow> u8 \<Rightarrow> idt_state \<Rightarrow> idt_state" where
  "set_gate n addr type dpl I =
     I\<lparr>idt := (idt I)[n :=
       \<lparr>isr_low = ucast (addr AND 0xFFFF),
        kernel_cs = KERNEL_CS,
        idt_reserved = 0,
        attributes = 0x80 OR push_bit 5 dpl OR type,
        isr_high = ucast (drop_bit 16 addr AND 0xFFFF)\<rparr>]\<rparr>"

definition set_trap_gate :: "nat \<Rightarrow> u32 \<Rightarrow> idt_state \<Rightarrow> idt_state" where
  "set_trap_gate n addr I = set_gate n addr 0xF 0 I"

definition set_system_gate :: "nat \<Rightarrow> u32 \<Rightarrow> idt_state \<Rightarrow> idt_state" where
  "set_system_gate n addr I = set_gate n addr 0xF 3 I"

definition trap_init :: "(trap_stub \<Rightarrow> u32) \<Rightarrow> idt_state \<Rightarrow> idt_state" where
  "trap_init stub I =
     (let I = set_trap_gate 0 (stub Divide_error) I;
          I = set_trap_gate 1 (stub Debug) I;
          I = set_trap_gate 2 (stub Nmi) I;
          I = set_system_gate 3 (stub Int3) I;
          I = set_system_gate 4 (stub Overflow) I;
          I = set_system_gate 5 (stub Bounds) I;
          I = set_trap_gate 6 (stub Invalid_op) I;
          I = set_trap_gate 7 (stub Device_not_available) I;
          I = set_trap_gate 8 (stub Double_fault) I;
          I = set_trap_gate 9 (stub Coprocessor_segment_overrun) I;
          I = set_trap_gate 10 (stub Invalid_TSS) I;
          I = set_trap_gate 11 (stub Segment_not_present) I;
          I = set_trap_gate 12 (stub Stack_segment) I;
          I = set_trap_gate 13 (stub General_protection) I;
          I = set_trap_gate 15 (stub Reserved) I;
          I = set_trap_gate 16 (stub Coprocessor_error) I
      in fold (\<lambda>i. set_trap_gate i (stub Reserved)) [17..<32] I)"

definition load_idt :: "idt_state \<Rightarrow> idt_state" where
  "load_idt I = I\<lparr>idt_register := Some (idtr I)\<rparr>"

definition initialize_idt :: "u32 \<Rightarrow> idt_state \<Rightarrow> idt_state" where
  "initialize_idt idt_addr I =
     load_idt (I\<lparr>idtr := \<lparr>tp_limit = of_nat (8 * IDT_MAX_DESCRIPTORS) - 1, tp_base = idt_addr\<rparr>\<rparr>)"

section \<open>Trap reports\<close>

definition die :: "'d io_ports \<Rightarrow> string \<Rightarrow> u32 list \<Rightarrow> u32 \<Rightarrow> 'd \<Rightarrow> 'd option" where
  "die io str esp nr d =
     (if length esp < 5 then None
      else do {
        d \<leftarrow> printk io (ascii ''%s: %04x'' @ [10, 13, 0]) [VStr (Some (ascii str @ [0])), VInt (nr AND 0xffff)] d;
        printk io (ascii ''EIP:'' @ [9] @ ascii ''%04x:%p'' @ [10] @ ascii ''EFLAGS:'' @ [9] @ ascii ''%p'' @ [10] @ ascii ''ESP:'' @ [9]
            @ ascii ''%04x:%p'' @ [10, 0])
          [VInt (esp ! 1), VInt (esp ! 0), VInt (esp ! 2), VInt (esp ! 4), VInt (esp ! 3)] d
      })"

definition do_double_fault :: "'d io_ports \<Rightarrow> u32 list \<Rightarrow> u32 \<Rightarrow> 'd \<Rightarrow> 'd option" where
  "do_double_fault io esp error_code d = die io ''double fault'' esp error_code d"

definition do_general_protection :: "'d io_ports \<Rightarrow> u32 list \<Rightarrow> u32 \<Rightarrow> 'd \<Rightarrow> 'd option" where
  "do_general_protection io esp error_code d = die io ''general protection'' esp error_code d"

definition do_divide_error :: "'d io_ports \<Rightarrow> u32 list \<Rightarrow> u32 \<Rightarrow> 'd \<Rightarrow> 'd option" where
  "do_divide_error io esp error_code d = die io ''divide error'' esp error_code d"

text \<open>The registers come in the order of the C parameters \<open>fs, es, ds, ebp, esi, edi, edx, ecx, ebx, eax\<close>; \<open>tr\<close> is the
  task register and \<open>esp_ptr\<close> the pointer whose words are \<open>esp\<close>.\<close>

definition int3_formats :: "u8 list list" where
  "int3_formats =
     [ascii ''eax'' @ [9, 9] @ ascii ''ebx'' @ [9, 9] @ ascii ''ecx'' @ [9, 9] @ ascii ''edx'' @ [10, 13]
        @ ascii ''%8x'' @ [9] @ ascii ''%8x'' @ [9] @ ascii ''%8x'' @ [9] @ ascii ''%8x'' @ [10, 13],
      ascii ''esi'' @ [9, 9] @ ascii ''edi'' @ [9, 9] @ ascii ''ebp'' @ [9, 9] @ ascii ''esp'' @ [10, 13]
        @ ascii ''%8x'' @ [9] @ ascii ''%8x'' @ [9] @ ascii ''%8x'' @ [9] @ ascii ''%8x'' @ [10, 13],
      [10, 13] @ ascii ''ds'' @ [9] @ ascii ''es'' @ [9] @ ascii ''fs'' @ [9] @ ascii ''tr'' @ [10, 13]
        @ ascii ''%4x'' @ [9] @ ascii ''%4x'' @ [9] @ ascii ''%4x'' @ [9] @ ascii ''%4x'' @ [10, 13],
      ascii ''EIP: %8x   CS: %4x  EFLAGS: %8x'' @ [10, 13]]"

definition do_int3 :: "'d io_ports \<Rightarrow> u32 \<Rightarrow> u32 list \<Rightarrow> u32 \<Rightarrow> u32 \<Rightarrow> u32 \<Rightarrow> u32 \<Rightarrow> u32 \<Rightarrow> u32 \<Rightarrow> u32 \<Rightarrow> u32 \<Rightarrow> u32 \<Rightarrow> u32 \<Rightarrow> u32 \<Rightarrow> 'd \<Rightarrow> 'd option" where
  "do_int3 io esp_ptr esp tr fs es ds ebp esi edi edx ecx ebx eax d =
     (if length esp < 3 then None
      else do {
        d \<leftarrow> printk io (int3_formats ! 0 @ [0]) [VInt eax, VInt ebx, VInt ecx, VInt edx] d;
        d \<leftarrow> printk io (int3_formats ! 1 @ [0]) [VInt esi, VInt edi, VInt ebp, VInt esp_ptr] d;
        d \<leftarrow> printk io (int3_formats ! 2 @ [0]) [VInt ds, VInt es, VInt fs, VInt tr] d;
        printk io (int3_formats ! 3 @ [0]) [VInt (esp ! 0), VInt (esp ! 1), VInt (esp ! 2)] d
      })"

definition do_nmi :: "'d io_ports \<Rightarrow> u32 list \<Rightarrow> u32 \<Rightarrow> 'd \<Rightarrow> 'd option" where
  "do_nmi io esp error_code d = die io ''nmi'' esp error_code d"

definition do_debug :: "'d io_ports \<Rightarrow> u32 list \<Rightarrow> u32 \<Rightarrow> 'd \<Rightarrow> 'd option" where
  "do_debug io esp error_code d = die io ''debug'' esp error_code d"

definition do_overflow :: "'d io_ports \<Rightarrow> u32 list \<Rightarrow> u32 \<Rightarrow> 'd \<Rightarrow> 'd option" where
  "do_overflow io esp error_code d = die io ''overflow'' esp error_code d"

definition do_bounds :: "'d io_ports \<Rightarrow> u32 list \<Rightarrow> u32 \<Rightarrow> 'd \<Rightarrow> 'd option" where
  "do_bounds io esp error_code d = die io ''bounds'' esp error_code d"

definition do_invalid_op :: "'d io_ports \<Rightarrow> u32 list \<Rightarrow> u32 \<Rightarrow> 'd \<Rightarrow> 'd option" where
  "do_invalid_op io esp error_code d = die io ''invalid operand'' esp error_code d"

definition do_device_not_available :: "'d io_ports \<Rightarrow> u32 list \<Rightarrow> u32 \<Rightarrow> 'd \<Rightarrow> 'd option" where
  "do_device_not_available io esp error_code d = die io ''device not available'' esp error_code d"

definition do_coprocessor_segment_overrun :: "'d io_ports \<Rightarrow> u32 list \<Rightarrow> u32 \<Rightarrow> 'd \<Rightarrow> 'd option" where
  "do_coprocessor_segment_overrun io esp error_code d = die io ''coprocessor segment overrun'' esp error_code d"

definition do_invalid_TSS :: "'d io_ports \<Rightarrow> u32 list \<Rightarrow> u32 \<Rightarrow> 'd \<Rightarrow> 'd option" where
  "do_invalid_TSS io esp error_code d = die io ''invalid TSS'' esp error_code d"

definition do_segment_not_present :: "'d io_ports \<Rightarrow> u32 list \<Rightarrow> u32 \<Rightarrow> 'd \<Rightarrow> 'd option" where
  "do_segment_not_present io esp error_code d = die io ''segment not present'' esp error_code d"

definition do_stack_segment :: "'d io_ports \<Rightarrow> u32 list \<Rightarrow> u32 \<Rightarrow> 'd \<Rightarrow> 'd option" where
  "do_stack_segment io esp error_code d = die io ''stack segment'' esp error_code d"

definition do_coprocessor_error :: "'d io_ports \<Rightarrow> u32 list \<Rightarrow> u32 \<Rightarrow> 'd \<Rightarrow> 'd option" where
  "do_coprocessor_error io esp error_code d = die io ''coprocessor error'' esp error_code d"

definition do_reserved :: "'d io_ports \<Rightarrow> u32 list \<Rightarrow> u32 \<Rightarrow> 'd \<Rightarrow> 'd option" where
  "do_reserved io esp error_code d = die io ''reserved (15,17-31) error'' esp error_code d"

section \<open>What the processor reads\<close>

definition seg_base :: "gdt_entry \<Rightarrow> u32" where
  "seg_base e = ucast (base_low e) OR push_bit 16 (ucast (base_middle e)) OR push_bit 24 (ucast (base_high e))"

definition seg_limit :: "gdt_entry \<Rightarrow> u32" where
  "seg_limit e = ucast (limit_low e) OR push_bit 16 (ucast (granularity e AND 0x0F))"

definition seg_flags :: "gdt_entry \<Rightarrow> u8" where
  "seg_flags e = drop_bit 4 (granularity e)"

definition gate_addr :: "idt_entry \<Rightarrow> u32" where
  "gate_addr e = ucast (isr_low e) OR push_bit 16 (ucast (isr_high e))"

definition gate_present :: "idt_entry \<Rightarrow> bool" where
  "gate_present e \<longleftrightarrow> bit (attributes e) 7"

definition gate_dpl :: "idt_entry \<Rightarrow> u8" where
  "gate_dpl e = drop_bit 5 (attributes e) AND 3"

definition zero_gate :: idt_entry where
  "zero_gate = \<lparr>isr_low = 0, kernel_cs = 0, idt_reserved = 0, attributes = 0, isr_high = 0\<rparr>"

definition stub_of :: "nat \<Rightarrow> trap_stub" where
  "stub_of v = (if v < 17 then [Divide_error, Debug, Nmi, Int3, Overflow, Bounds, Invalid_op, Device_not_available, Double_fault,
      Coprocessor_segment_overrun, Invalid_TSS, Segment_not_present, Stack_segment, General_protection, Reserved, Reserved,
      Coprocessor_error] ! v else Reserved)"

definition segment_table :: "u32 \<Rightarrow> (u32 \<times> u32 \<times> u8 \<times> u8) list" where
  "segment_table tss_addr = [(0, 0, 0, 0), (0, 0xFFFFF, 0x9A, 0xC), (0, 0xFFFFF, 0x92, 0xC), (0, 0xFFFFF, 0xFA, 0xC),
     (0, 0xFFFFF, 0xF2, 0xC), (tss_addr, 211, 0x89, 0)]"

definition segment :: "gdt_entry \<Rightarrow> u32 \<times> u32 \<times> u8 \<times> u8" where
  "segment e = (seg_base e, seg_limit e, access e, seg_flags e)"

lemma low_masks: "v AND 0xFFFF = take_bit 16 v" "v AND 0xFF = take_bit 8 v" "v AND 0x0F = take_bit 4 v" for v :: u32
  by (simp_all add: take_bit_eq_mask mask_eq_exp_minus_1)

lemma low_mask8: "v AND 0x0F = take_bit 4 v" for v :: u8
  by (simp add: take_bit_eq_mask mask_eq_exp_minus_1)

lemma bit_small: "unat v < 2 ^ k \<Longrightarrow> bit v n \<Longrightarrow> n < k" for v :: "'a::len word"
  by (metis bit_take_bit_iff bit_unsigned_iff possible_bit_nat take_bit_nat_eq_self)

lemma set_gdt_entry_decodes:
  assumes "unat limit < 2 ^ 20" "unat gran < 2 ^ 4" "index < length (gdt G)"
  shows "segment (gdt (set_gdt_entry index base limit acc gran G) ! index) = (base, limit, acc, gran)"
proof -
  let ?e = "gdt (set_gdt_entry index base limit acc gran G) ! index"
  note e = set_gdt_entry_def low_masks low_mask8 bit_simps
  have "seg_base ?e = base"
    using assms(3) by (intro bit_word_eqI, case_tac "n < 24") (auto simp: seg_base_def e)
  moreover have "seg_limit ?e = limit"
    using assms(3) by (intro bit_word_eqI) (auto simp: seg_limit_def e dest: bit_small [OF assms(1)])
  moreover have "seg_flags ?e = gran"
    using assms(3) by (intro bit_word_eqI) (auto simp: seg_flags_def e dest: bit_small [OF assms(2)])
  moreover have "access ?e = acc" using assms(3) by (simp add: set_gdt_entry_def)
  ultimately show ?thesis by (simp add: segment_def)
qed

lemma set_gdt_entry_other: "i \<noteq> index \<Longrightarrow> gdt (set_gdt_entry index base limit acc gran G) ! i = gdt G ! i"
  "length (gdt (set_gdt_entry index base limit acc gran G)) = length (gdt G)"
  by (simp_all add: set_gdt_entry_def)

lemma fill_gdt_segments:
  assumes "length (gdt G) = 6"
  shows "map segment (gdt (fill_gdt tss_addr G)) = segment_table tss_addr"
proof -
  have "segment (gdt (fill_gdt tss_addr G) ! i) = segment_table tss_addr ! i" if "i < 6" for i
  proof -
    consider "i = 0" | "i = 1" | "i = 2" | "i = 3" | "i = 4" | "i = 5" using \<open>i < 6\<close> by linarith
    then show ?thesis
      by cases (use assms in \<open>simp_all add: fill_gdt_def Let_def set_gdt_entry_other set_gdt_entry_decodes segment_table_def
        sizeof_tss_def\<close>)
  qed
  moreover have "length (gdt (fill_gdt tss_addr G)) = 6" using assms by (simp add: fill_gdt_def Let_def set_gdt_entry_other)
  ultimately show ?thesis by (intro nth_equalityI) (auto simp: segment_table_def)
qed

definition mk_gate :: "u32 \<Rightarrow> u8 \<Rightarrow> idt_entry" where
  "mk_gate addr dpl = \<lparr>isr_low = ucast (addr AND 0xFFFF), kernel_cs = KERNEL_CS, idt_reserved = 0,
     attributes = 0x80 OR push_bit 5 dpl OR 0xF, isr_high = ucast (drop_bit 16 addr AND 0xFFFF)\<rparr>"

lemma idt_set_gates:
  "idt (set_trap_gate n addr I) = (idt I)[n := mk_gate addr 0]"
  "idt (set_system_gate n addr I) = (idt I)[n := mk_gate addr 3]"
  by (simp_all add: set_trap_gate_def set_system_gate_def set_gate_def mk_gate_def)

lemma mk_gate_decodes:
  "gate_addr (mk_gate addr dpl) = addr" "gate_present (mk_gate addr dpl)" "kernel_cs (mk_gate addr dpl) = 8"
  "dpl \<in> {0, 3} \<Longrightarrow> gate_dpl (mk_gate addr dpl) = dpl"
proof -
  show "gate_addr (mk_gate addr dpl) = addr"
    by (intro bit_word_eqI) (auto simp: gate_addr_def mk_gate_def low_masks bit_simps)
qed (auto simp: gate_present_def gate_dpl_def mk_gate_def KERNEL_CS_def bit_simps)

lemma fold_gates:
  "length (idt (fold (\<lambda>i. set_trap_gate i a) [m..<n] I)) = length (idt I)"
  "n \<le> length (idt I) \<Longrightarrow> v < length (idt I) \<Longrightarrow>
     idt (fold (\<lambda>i. set_trap_gate i a) [m..<n] I) ! v = (if m \<le> v \<and> v < n then mk_gate a 0 else idt I ! v)"
  by (induction n) (auto simp: idt_set_gates nth_list_update less_Suc_eq)

lemma trap_init_gate:
  assumes "length (idt I) = 256" "v < 256"
  shows "idt (trap_init stub I) ! v =
    (if v < 32 \<and> v \<noteq> 14 then mk_gate (stub (stub_of v)) (if v \<in> {3, 4, 5} then 3 else 0) else idt I ! v)"
proof (cases "v < 17")
  case True
  then have "v \<in> {0, 1, 2, 3, 4, 5, 6, 7, 8, 9, 10, 11, 12, 13, 14, 15, 16}" by (simp add: less_Suc_eq numeral_eq_Suc)
  then show ?thesis
    by (elim insertE emptyE) (use assms in \<open>simp_all add: trap_init_def Let_def fold_gates idt_set_gates stub_of_def\<close>)
next
  case False
  with assms show ?thesis by (simp add: trap_init_def Let_def fold_gates idt_set_gates stub_of_def del: upt_rec_numeral)
qed

section \<open>What a trap reports\<close>

definition lits :: "u8 list \<Rightarrow> piece list" where
  "lits s = map Lit s"

text \<open>\<open>printk\<close> knows no field width: \<^verbatim>\<open>%0\<close>, \<^verbatim>\<open>%4\<close> and \<^verbatim>\<open>%8\<close> are printed as they stand, and use no argument.\<close>

definition die_pieces :: "string \<Rightarrow> piece list" where
  "die_pieces str = Str (ascii str) # lits (ascii '': '') @ Unknown (of_char CHR ''0'') # lits (ascii ''4x'' @ [10, 13])"

definition frame_pieces :: "u32 list \<Rightarrow> piece list" where
  "frame_pieces esp = lits (ascii ''EIP:'' @ [9]) @ Unknown (of_char CHR ''0'') # lits (ascii ''4x:'') @ Ptr (esp ! 1)
     # lits ([10] @ ascii ''EFLAGS:'' @ [9]) @ Ptr (esp ! 0) # lits ([10] @ ascii ''ESP:'' @ [9]) @ Unknown (of_char CHR ''0'')
     # lits (ascii ''4x:'') @ Ptr (esp ! 2) # lits [10]"

definition die_report :: "string \<Rightarrow> u32 list \<Rightarrow> u8 list" where
  "die_report str esp = ascii str @ ascii '': %04x'' @ [10, 13] @ ascii ''EIP:'' @ [9] @ ascii ''%04x:0x0x'' @ hex_text (esp ! 1)
     @ [10] @ ascii ''EFLAGS:'' @ [9] @ ascii ''0x0x'' @ hex_text (esp ! 0)
     @ [10] @ ascii ''ESP:'' @ [9] @ ascii ''%04x:0x0x'' @ hex_text (esp ! 2) @ [10]"

fun pieces_of :: "u8 list \<Rightarrow> piece list" where
  "pieces_of [] = []"
| "pieces_of [c] = [Lit c]"
| "pieces_of (c # k # s) = (if c = of_char CHR ''%'' then Unknown k # pieces_of s else Lit c # pieces_of (k # s))"

lemma pieces_of_self: "fmt (pieces_of s) = s @ [0]" "va_args (pieces_of s) = []" "text_output (pieces_of s) = s"
  by (induction s rule: pieces_of.induct) (auto simp: fmt_def va_args_def text_output_def ascii_def)

context uart
begin

lemma prints_die:
  assumes "0 \<notin> set (ascii str)" "length esp \<ge> 5"
  shows "prints (die io str esp nr) (die_report str esp)"
proof -
  have "prints (printk io (fmt (die_pieces str)) (va_args (die_pieces str) @ [VInt (nr AND 0xffff)])) (text_output (die_pieces str))"
    using assms(1) by (intro prints_printk) (simp add: die_pieces_def lits_def ascii_def)
  moreover have "prints (printk io (fmt (frame_pieces esp)) (va_args (frame_pieces esp) @ [VInt (esp ! 4), VInt (esp ! 3)]))
      (text_output (frame_pieces esp))"
    by (intro prints_printk) (simp add: frame_pieces_def lits_def ascii_def)
  ultimately have "prints (\<lambda>d. printk io (fmt (die_pieces str)) (va_args (die_pieces str) @ [VInt (nr AND 0xffff)]) d \<bind>
      printk io (fmt (frame_pieces esp)) (va_args (frame_pieces esp) @ [VInt (esp ! 4), VInt (esp ! 3)]))
      (text_output (die_pieces str) @ text_output (frame_pieces esp))"
    by (rule prints_bind)
  moreover have "text_output (die_pieces str) @ text_output (frame_pieces esp) = die_report str esp"
    by (simp add: text_output_def die_pieces_def frame_pieces_def lits_def die_report_def ascii_def)
  moreover have "die io str esp nr = (\<lambda>d. printk io (fmt (die_pieces str)) (va_args (die_pieces str) @ [VInt (nr AND 0xffff)]) d \<bind>
      printk io (fmt (frame_pieces esp)) (va_args (frame_pieces esp) @ [VInt (esp ! 4), VInt (esp ! 3)]))"
    using assms(2)
    by (simp add: die_def fun_eq_iff fmt_def va_args_def die_pieces_def frame_pieces_def lits_def ascii_def del: printk.simps)
  ultimately show ?thesis by simp
qed

lemma prints_plain: "\<forall>p \<in> set (pieces_of s). piece_ok p \<Longrightarrow> prints (printk io (s @ [0]) args) s"
  using prints_printk [of "pieces_of s" args] by (simp add: pieces_of_self)

lemma prints_int3:
  assumes "length esp \<ge> 3"
  shows "prints (do_int3 io esp_ptr esp tr fs es ds ebp esi edi edx ecx ebx eax) (concat int3_formats)"
proof -
  have ok: "\<forall>p \<in> set (pieces_of (int3_formats ! i)). piece_ok p" if "i < 4" for i
  proof -
    consider "i = 0" | "i = 1" | "i = 2" | "i = 3" using \<open>i < 4\<close> by linarith
    then show ?thesis by cases (simp_all add: int3_formats_def ascii_def)
  qed
  have "concat int3_formats = int3_formats ! 0 @ int3_formats ! 1 @ int3_formats ! 2 @ int3_formats ! 3"
    by (simp add: int3_formats_def)
  then show ?thesis
    using assms unfolding do_int3_def [abs_def]
    by (simp only: if_False not_less [symmetric] not_not) (intro prints_bind prints_plain ok; simp)
qed

end

section \<open>Properties\<close>

text \<open>C29: after \<open>gdt_initialize\<close> the six segments decode to the null segment, flat kernel and user segments and the task
  state segment, and the table register covers exactly the table.  After \<open>trap_init\<close> and \<open>initialize_idt\<close> the vectors
  below 32 other than 14 have a present kernel gate to their stub, reachable from user mode for 3 to 5 only; the page
  fault vector 14 and the hardware interrupt vectors from 32 on have none.\<close>

theorem descriptor_tables:
  assumes "length (gdt G) = 6" "idt I = replicate 256 zero_gate"
  shows "let G' = gdt_initialize tss_addr gdt_addr G; I' = initialize_idt idt_addr (trap_init stub I) in
    map segment (gdt G') = segment_table tss_addr \<and> gdtr G' = Some \<lparr>tp_limit = 47, tp_base = gdt_addr\<rparr>
    \<and> code_segment G' = 8 \<and> data_segments G' = 16
    \<and> idt_register I' = Some \<lparr>tp_limit = 2047, tp_base = idt_addr\<rparr>
    \<and> (\<forall>v < 256. gate_present (idt I' ! v) \<longleftrightarrow> v < 32 \<and> v \<noteq> 14)
    \<and> (\<forall>v < 32. v \<noteq> 14 \<longrightarrow> gate_addr (idt I' ! v) = stub (stub_of v) \<and> kernel_cs (idt I' ! v) = 8
         \<and> gate_dpl (idt I' ! v) = (if v \<in> {3, 4, 5} then 3 else 0))"
proof -
  have "\<not> gate_present zero_gate" by (simp add: gate_present_def zero_gate_def)
  then show ?thesis
    using assms fill_gdt_segments [OF assms(1), of tss_addr] trap_init_gate [of I _ stub]
    by (auto simp: Let_def gdt_initialize_def gdt_flush_def load_gdt_def GDT_SIZE_def initialize_idt_def load_idt_def
        IDT_MAX_DESCRIPTORS_def mk_gate_decodes)
qed

theorem descriptor_tables_witness:
  "let G = \<lparr>gdt = replicate 6 \<lparr>limit_low = 1, base_low = 2, base_middle = 3, access = 4, granularity = 5, base_high = 6\<rparr>,
         gdt_ptr = \<lparr>tp_limit = 0, tp_base = 0\<rparr>, gdtr = None, code_segment = 0, data_segments = 0\<rparr>;
       I = \<lparr>idt = replicate 256 zero_gate, idtr = \<lparr>tp_limit = 0, tp_base = 0\<rparr>, idt_register = None\<rparr>;
       I' = initialize_idt 0x5000 (trap_init (\<lambda>t. if t = Int3 then 0xC0101234 else 0) I)
   in map segment (gdt (gdt_initialize 0xC0123456 0x4000 G)) = segment_table 0xC0123456
      \<and> gate_addr (idt I' ! 3) = 0xC0101234 \<and> gate_dpl (idt I' ! 3) = 3 \<and> \<not> gate_present (idt I' ! 33)"
  using descriptor_tables [of "\<lparr>gdt = replicate 6 \<lparr>limit_low = 1, base_low = 2, base_middle = 3, access = 4, granularity = 5, base_high = 6\<rparr>,
         gdt_ptr = \<lparr>tp_limit = 0, tp_base = 0\<rparr>, gdtr = None, code_segment = 0, data_segments = 0\<rparr>"
      "\<lparr>idt = replicate 256 zero_gate, idtr = \<lparr>tp_limit = 0, tp_base = 0\<rparr>, idt_register = None\<rparr>"
      "0xC0123456" "0x4000" "0x5000" "\<lambda>t. if t = Int3 then 0xC0101234 else 0"]
  by (simp add: Let_def stub_of_def)

text \<open>The trap reports name the wrong registers.  \<open>die\<close> prints the code segment as the instruction pointer, the
  instruction pointer as the flags and the flags as the stack pointer, with the field widths printed literally and no
  error code; \<open>do_int3\<close> prints its formats as they stand, whatever the registers hold.\<close>

theorem trap_reports:
  assumes "uart io regs sent delay" "\<not> bit (lcr (regs d)) 7" "length esp \<ge> 5"
  shows "(\<exists>d'. do_general_protection io esp nr d = Some d' \<and> sent d' = sent d @ die_report ''general protection'' esp)
    \<and> (\<exists>d'. do_int3 io esp_ptr esp tr fs es ds ebp esi edi edx ecx ebx eax d = Some d' \<and> sent d' = sent d @ concat int3_formats)"
proof -
  have "uart.line_open regs d" using assms(2) by (simp add: uart.line_open_def [OF assms(1)])
  moreover have "uart.prints regs sent (die io ''general protection'' esp nr) (die_report ''general protection'' esp)"
    by (rule uart.prints_die [OF assms(1)]) (use assms(3) in \<open>auto simp: ascii_def\<close>)
  moreover have "uart.prints regs sent (do_int3 io esp_ptr esp tr fs es ds ebp esi edi edx ecx ebx eax) (concat int3_formats)"
    by (rule uart.prints_int3 [OF assms(1)]) (use assms(3) in simp)
  ultimately show ?thesis
    unfolding uart.prints_def [OF assms(1)] do_general_protection_def by blast
qed

theorem trap_reports_witness:
  "\<exists>d'. do_general_protection com_io [0xC0101234, 8, 0x202, 0xC0200000, 16] 0
      \<lparr>com_regs = \<lparr>ier = 0, fcr = 0, lcr = 3, mcr = 0, dll = 3, dlm = 0\<rparr>, com_sent = [], com_delay = 0\<rparr> = Some d'
    \<and> take 48 (com_sent d') = ascii ''general protection: %04x'' @ [10, 13] @ ascii ''EIP:'' @ [9] @ ascii ''%04x:0x0x00000008''"
proof -
  have "take 48 (die_report ''general protection'' [0xC0101234, 8, 0x202, 0xC0200000, 16]) =
      ascii ''general protection: %04x'' @ [10, 13] @ ascii ''EIP:'' @ [9] @ ascii ''%04x:0x0x00000008''"
    by (simp add: die_report_def hex_text_def hex_chars_def ascii_def upt_rec)
  then show ?thesis
    using trap_reports [OF com.uart_axioms, of "\<lparr>com_regs = \<lparr>ier = 0, fcr = 0, lcr = 3, mcr = 0, dll = 3, dlm = 0\<rparr>, com_sent = [], com_delay = 0\<rparr>"
        "[0xC0101234, 8, 0x202, 0xC0200000, 16]" 0 0 0 0 0 0 0 0 0 0 0 0 0]
    by auto
qed

end
