(* ===== verification/Console.thy ===== *)
theory Console
  imports Strings Ports Serial
begin

text \<open>
  The text screen (\<^verbatim>\<open>kernel/display/vga_display.c\<close>) and the keyboard driver that echoes on it
  (\<^verbatim>\<open>drivers/keyboard.c\<close>).

  The state is the cursor, the colour and the video memory, a map from addresses to 16-bit cells.  The property says what
  the 25 x 80 cells show after any text has been written: output starts again at the top when the screen is full.
\<close>

definition VGA_WIDTH :: nat where "VGA_WIDTH = 80"
definition VGA_HEIGHT :: nat where "VGA_HEIGHT = 25"
definition VGA_MEMORY :: u32 where "VGA_MEMORY = 0xB8000"

datatype vga_color = VGA_COLOR_BLACK | VGA_COLOR_BLUE | VGA_COLOR_GREEN | VGA_COLOR_CYAN | VGA_COLOR_RED
  | VGA_COLOR_MAGENTA | VGA_COLOR_BROWN | VGA_COLOR_LIGHT_GREY | VGA_COLOR_DARK_GREY | VGA_COLOR_LIGHT_BLUE
  | VGA_COLOR_LIGHT_GREEN | VGA_COLOR_LIGHT_CYAN | VGA_COLOR_LIGHT_RED | VGA_COLOR_LIGHT_MAGENTA
  | VGA_COLOR_LIGHT_BROWN | VGA_COLOR_WHITE

primrec color_code :: "vga_color \<Rightarrow> u8" where
  "color_code VGA_COLOR_BLACK = 0"
| "color_code VGA_COLOR_BLUE = 1"
| "color_code VGA_COLOR_GREEN = 2"
| "color_code VGA_COLOR_CYAN = 3"
| "color_code VGA_COLOR_RED = 4"
| "color_code VGA_COLOR_MAGENTA = 5"
| "color_code VGA_COLOR_BROWN = 6"
| "color_code VGA_COLOR_LIGHT_GREY = 7"
| "color_code VGA_COLOR_DARK_GREY = 8"
| "color_code VGA_COLOR_LIGHT_BLUE = 9"
| "color_code VGA_COLOR_LIGHT_GREEN = 10"
| "color_code VGA_COLOR_LIGHT_CYAN = 11"
| "color_code VGA_COLOR_LIGHT_RED = 12"
| "color_code VGA_COLOR_LIGHT_MAGENTA = 13"
| "color_code VGA_COLOR_LIGHT_BROWN = 14"
| "color_code VGA_COLOR_WHITE = 15"

record terminal =
  terminal_row :: u32
  terminal_column :: u32
  terminal_color :: u8
  terminal_buffer :: u32
  vram :: "u32 \<Rightarrow> u16"

definition vga_entry_color :: "vga_color \<Rightarrow> vga_color \<Rightarrow> u8" where
  "vga_entry_color fg bg = color_code fg OR push_bit 4 (color_code bg)"

definition vga_entry :: "u8 \<Rightarrow> u8 \<Rightarrow> u16" where
  "vga_entry uc color = ucast uc OR push_bit 8 (ucast color)"

definition cell_addr :: "u32 \<Rightarrow> u32 \<Rightarrow> u32" where
  "cell_addr buf index = buf + 2 * index"

primrec clear_row :: "u32 \<Rightarrow> nat \<Rightarrow> terminal \<Rightarrow> terminal" where
  "clear_row y 0 T = T"
| "clear_row y (Suc x) T =
     (let T = clear_row y x T;
          index = y * of_nat VGA_WIDTH + of_nat x
      in T\<lparr>vram := (vram T)(cell_addr (terminal_buffer T) index := vga_entry (of_char CHR '' '') (terminal_color T))\<rparr>)"

primrec clear_rows :: "nat \<Rightarrow> terminal \<Rightarrow> terminal" where
  "clear_rows 0 T = T"
| "clear_rows (Suc y) T = clear_row (of_nat y) VGA_WIDTH (clear_rows y T)"

definition terminal_initialize :: "terminal \<Rightarrow> terminal" where
  "terminal_initialize T =
     clear_rows VGA_HEIGHT (T\<lparr>terminal_row := 0, terminal_column := 0,
       terminal_color := vga_entry_color VGA_COLOR_LIGHT_GREY VGA_COLOR_BLACK, terminal_buffer := VGA_MEMORY\<rparr>)"

definition terminal_setcolor :: "u8 \<Rightarrow> terminal \<Rightarrow> terminal" where
  "terminal_setcolor color T = T\<lparr>terminal_color := color\<rparr>"

definition terminal_putentryat :: "u8 \<Rightarrow> u8 \<Rightarrow> u32 \<Rightarrow> u32 \<Rightarrow> terminal \<Rightarrow> terminal" where
  "terminal_putentryat c color x y T =
     (let index = y * of_nat VGA_WIDTH + x
      in T\<lparr>vram := (vram T)(cell_addr (terminal_buffer T) index := vga_entry c color)\<rparr>)"

definition terminal_putchar :: "u8 \<Rightarrow> terminal \<Rightarrow> terminal" where
  "terminal_putchar c T =
     (let T = terminal_putentryat c (terminal_color T) (terminal_column T) (terminal_row T) T;
          T = T\<lparr>terminal_column := terminal_column T + 1\<rparr>
      in if terminal_column T = of_nat VGA_WIDTH then
           (let T = T\<lparr>terminal_column := 0, terminal_row := terminal_row T + 1\<rparr>
            in if terminal_row T = of_nat VGA_HEIGHT then T\<lparr>terminal_row := 0\<rparr> else T)
         else T)"

fun terminal_write :: "u8 list \<Rightarrow> nat \<Rightarrow> terminal \<Rightarrow> terminal option" where
  "terminal_write data 0 T = Some T"
| "terminal_write (c # data) (Suc n) T = terminal_write data n (terminal_putchar c T)"
| "terminal_write [] (Suc n) T = None"

definition terminal_writestring :: "u8 list \<Rightarrow> terminal \<Rightarrow> terminal option" where
  "terminal_writestring data T = do {
     n \<leftarrow> strlen data;
     terminal_write data n T
   }"

definition kbdus :: "u8 list" where
  "kbdus =
     [0, 27] @ ascii ''1234567890-='' @ [8, 9] @ ascii ''qwertyuiop[]'' @ [10, 0] @ ascii ''asdfghjkl;'' @ [39, 96, 0, 92]
     @ ascii ''zxcvbnm,./'' @ [0] @ ascii ''*'' @ [0] @ ascii '' '' @ replicate 16 0 @ ascii ''-'' @ replicate 3 0 @ ascii ''+''
     @ replicate 49 0"

text \<open>The table is read before a release code is rejected, so the index may lie past its 128 entries; \<open>past\<close> stands for
  the bytes that follow the table in memory.\<close>

definition keyboard_driver :: "'d io_ports \<Rightarrow> (u8 \<Rightarrow> u8) \<Rightarrow> 'd \<times> terminal \<Rightarrow> ('d \<times> terminal) option" where
  "keyboard_driver io past S = do {
     let (d, T) = S;
     let (scancode, d) = inb io 0x60 d;
     let key = (if unat scancode < length kbdus then kbdus ! unat scancode else past scancode);
     if scancode AND 0x80 \<noteq> 0 then Some (d, T)
     else if key \<noteq> 0 then Some (d, terminal_putchar key T)
     else do {
       T \<leftarrow> terminal_writestring (ascii ''[UNK]'' @ [0]) T;
       Some (d, T)
     }
   }"

section \<open>What the screen shows\<close>

definition blank_cell :: u16 where
  "blank_cell = vga_entry (of_char CHR '' '') (vga_entry_color VGA_COLOR_LIGHT_GREY VGA_COLOR_BLACK)"

definition text_cell :: "u8 \<Rightarrow> u16" where
  "text_cell c = vga_entry c (vga_entry_color VGA_COLOR_LIGHT_GREY VGA_COLOR_BLACK)"

text \<open>\<open>shown s i\<close> is cell \<open>i\<close> after the text \<open>s\<close>: the last character whose position is \<open>i\<close> modulo the screen size.\<close>

definition shown :: "u8 list \<Rightarrow> nat \<Rightarrow> u16" where
  "shown s i = (if i < length s then text_cell (s ! (i + 2000 * ((length s - 1 - i) div 2000))) else blank_cell)"

definition cell :: "nat \<Rightarrow> u32" where
  "cell i = cell_addr VGA_MEMORY (of_nat i)"

definition cursor_at :: "terminal \<Rightarrow> nat \<Rightarrow> bool" where
  "cursor_at T p \<longleftrightarrow> terminal_row T = of_nat (p div 80) \<and> terminal_column T = of_nat (p mod 80)
     \<and> terminal_color T = vga_entry_color VGA_COLOR_LIGHT_GREY VGA_COLOR_BLACK \<and> terminal_buffer T = VGA_MEMORY"

lemma kbdus_length: "length kbdus = 128"
proof -
  have "length (ascii s) = length s" for s by (simp add: ascii_def)
  then show ?thesis by (simp add: kbdus_def)
qed

lemma cell_inj: "i < 2000 \<Longrightarrow> j < 2000 \<Longrightarrow> cell i = cell j \<longleftrightarrow> i = j"
proof -
  assume ij: "i < 2000" "j < 2000"
  have c: "cell k = of_nat (0xB8000 + 2 * k)" for k
    by (simp add: cell_def cell_addr_def VGA_MEMORY_def)
  show ?thesis unfolding c using ij by (subst of_nat_u32_inj) auto
qed

lemma putchar_at:
  assumes "cursor_at T p" "p < 2000"
  shows "cursor_at (terminal_putchar c T) (Suc p mod 2000)" (is ?cursor)
    and "vram (terminal_putchar c T) = (vram T)(cell p := text_cell c)" (is ?mem)
proof -
  have p: "p = p div 80 * 80 + p mod 80" by simp
  have col: "(of_nat (p mod 80) :: u32) + 1 = 80 \<longleftrightarrow> p mod 80 = 79"
    using of_nat_u32_inj [of "p mod 80 + 1" 80] by auto
  have row: "(of_nat (p div 80) :: u32) + 1 = 25 \<longleftrightarrow> p div 80 = 24"
    using of_nat_u32_inj [of "p div 80 + 1" 25] assms(2) by auto
  have idx: "(of_nat (p div 80) :: u32) * 80 + of_nat (p mod 80) = of_nat p"
    by (subst (3) p) (simp only: of_nat_add of_nat_mult of_nat_numeral)
  show ?mem
    using assms idx
    by (simp add: terminal_putchar_def terminal_putentryat_def Let_def cursor_at_def VGA_WIDTH_def VGA_HEIGHT_def cell_def
        text_cell_def)
  have step: "Suc p mod 2000 = Suc p" if "p mod 80 \<noteq> 79 \<or> p div 80 \<noteq> 24"
    using that assms(2) by (cases "p = 1999") auto
  consider "p mod 80 \<noteq> 79" | "p mod 80 = 79" "p div 80 \<noteq> 24" | "p mod 80 = 79" "p div 80 = 24" by blast
  then show ?cursor
  proof cases
    case 1
    then have "Suc p mod 2000 = Suc p" "Suc p div 80 = p div 80" "Suc p mod 80 = Suc (p mod 80)"
      using step by (simp_all add: mod_Suc div_Suc)
    then show ?thesis using assms 1 col
      by (simp add: terminal_putchar_def terminal_putentryat_def Let_def cursor_at_def VGA_WIDTH_def VGA_HEIGHT_def add.commute)
  next
    case 2
    then have "Suc p mod 2000 = Suc p" "Suc p div 80 = Suc (p div 80)" "Suc p mod 80 = 0"
      using step by (simp_all add: mod_Suc div_Suc)
    then show ?thesis using assms 2 col row
      by (simp add: terminal_putchar_def terminal_putentryat_def Let_def cursor_at_def VGA_WIDTH_def VGA_HEIGHT_def add.commute)
  next
    case 3
    then have "Suc p mod 2000 = 0" using p by simp
    then show ?thesis using assms 3 col row
      by (simp add: terminal_putchar_def terminal_putentryat_def Let_def cursor_at_def VGA_WIDTH_def VGA_HEIGHT_def)
  qed
qed

lemma clear_row_fields:
  "terminal_row (clear_row y n T) = terminal_row T" "terminal_column (clear_row y n T) = terminal_column T"
  "terminal_color (clear_row y n T) = terminal_color T" "terminal_buffer (clear_row y n T) = terminal_buffer T"
  by (induction n) (simp_all add: Let_def)

lemma clear_rows_fields:
  "terminal_row (clear_rows n T) = terminal_row T" "terminal_column (clear_rows n T) = terminal_column T"
  "terminal_color (clear_rows n T) = terminal_color T" "terminal_buffer (clear_rows n T) = terminal_buffer T"
  by (induction n) (simp_all add: clear_row_fields)

lemma clear_row_mem:
  assumes "cursor_at T p"
  shows "vram (clear_row (of_nat y) n T) a = (if a \<in> cell ` {80 * y..<80 * y + n} then blank_cell else vram T a)"
proof (induction n)
  case (Suc n)
  have "cell_addr VGA_MEMORY (of_nat y * of_nat VGA_WIDTH + of_nat n) = cell (80 * y + n)"
    by (simp add: cell_def VGA_WIDTH_def mult.commute)
  with Suc assms show ?case
    by (auto simp: Let_def cursor_at_def clear_row_fields blank_cell_def atLeastLessThanSuc)
qed simp

lemma clear_rows_mem:
  assumes "cursor_at T p"
  shows "vram (clear_rows n T) a = (if a \<in> cell ` {..<80 * n} then blank_cell else vram T a)"
proof (induction n)
  case (Suc n)
  have split: "{..<80 * Suc n} = {..<80 * n} \<union> {80 * n..<80 * n + 80}" by auto
  have "cursor_at (clear_rows n T) p" using assms by (simp add: cursor_at_def clear_rows_fields)
  from clear_row_mem [OF this, of n 80 a] Suc show ?case
    unfolding split image_Un by (simp add: VGA_WIDTH_def)
qed simp

lemma initialize_at: "cursor_at (terminal_initialize T) 0"
  by (simp add: terminal_initialize_def cursor_at_def clear_rows_fields)

lemma initialize_mem: "vram (terminal_initialize T) a = (if a \<in> cell ` {..<2000} then blank_cell else vram T a)"
proof -
  let ?T = "T\<lparr>terminal_row := 0, terminal_column := 0,
    terminal_color := vga_entry_color VGA_COLOR_LIGHT_GREY VGA_COLOR_BLACK, terminal_buffer := VGA_MEMORY\<rparr>"
  have "cursor_at ?T 0" by (simp add: cursor_at_def)
  from clear_rows_mem [OF this, of 25 a] show ?thesis by (simp add: terminal_initialize_def VGA_HEIGHT_def)
qed

lemma shown_snoc:
  assumes "i < 2000"
  shows "shown (s @ [c]) i = (if i = length s mod 2000 then text_cell c else shown s i)"
proof -
  let ?n = "length s"
  consider "i = ?n mod 2000" | "i \<noteq> ?n mod 2000" "i < ?n" | "i \<noteq> ?n mod 2000" "?n \<le> i" by linarith
  then show ?thesis
  proof cases
    case 1
    then have "i + 2000 * ((?n - i) div 2000) = ?n" by (simp add: minus_mod_eq_mult_div)
    moreover have "i \<le> ?n" using 1 by simp
    ultimately show ?thesis using 1 by (simp add: shown_def nth_append less_Suc_eq_le)
  next
    case 2
    then have "(?n - i) mod 2000 \<noteq> 0" using assms mod_eq_iff_dvd_symdiff_nat
      by (metis (no_types, lifting) mod_eq_dvd_iff_nat mod_less less_imp_le_nat mod_0_imp_dvd)
    then have "(?n - 1 - i) div 2000 = (?n - i) div 2000"
      using 2 div_Suc [of "?n - 1 - i" 2000] by (simp add: Suc_diff_Suc)
    moreover have "i + 2000 * ((?n - 1 - i) div 2000) < ?n"
      using 2 div_times_less_eq_dividend [of "?n - 1 - i" 2000] by (simp add: mult.commute)
    ultimately show ?thesis using 2 by (simp add: shown_def nth_append)
  next
    case 3
    then have "?n < i" using assms by (cases "?n = i") auto
    then show ?thesis using 3 by (simp add: shown_def)
  qed
qed

lemma write_fold: "terminal_write (s @ r) (length s) T = Some (fold terminal_putchar s T)"
  by (induction s arbitrary: T) simp_all

lemma fold_shows:
  assumes "cursor_at T 0" "\<forall>i < 2000. vram T (cell i) = blank_cell"
  shows "cursor_at (fold terminal_putchar s T) (length s mod 2000)
    \<and> (\<forall>i < 2000. vram (fold terminal_putchar s T) (cell i) = shown s i)
    \<and> (\<forall>a. a \<notin> cell ` {..<2000} \<longrightarrow> vram (fold terminal_putchar s T) a = vram T a)"
proof (induction s rule: rev_induct)
  case Nil
  then show ?case using assms by (simp add: shown_def)
next
  case (snoc c s)
  let ?p = "length s mod 2000"
  have at: "cursor_at (fold terminal_putchar s T) ?p" "?p < 2000" using snoc by simp_all
  have "Suc ?p mod 2000 = length (s @ [c]) mod 2000" by (simp add: mod_Suc_eq)
  with putchar_at [OF at, of c] snoc show ?case
    by (auto simp: shown_snoc cell_inj)
qed

section \<open>Properties\<close>

text \<open>C26: after \<open>terminal_initialize\<close> and \<open>terminal_writestring\<close> of any text, cell \<open>i\<close> of the screen shows the last
  character whose position is \<open>i\<close> modulo 2000, or a blank; the cursor is at the position after the text, modulo 2000;
  and no memory outside the 2000 cells has changed.\<close>

theorem terminal_shows_text:
  assumes "0 \<notin> set s"
  shows "\<exists>T'. terminal_writestring (s @ 0 # r) (terminal_initialize T) = Some T' \<and> cursor_at T' (length s mod 2000)
    \<and> (\<forall>i < 2000. vram T' (cell i) = shown s i) \<and> (\<forall>a. a \<notin> cell ` {..<2000} \<longrightarrow> vram T' a = vram T a)"
  using fold_shows [OF initialize_at, of T s] assms
  by (simp add: terminal_writestring_def strlen_str write_fold initialize_mem)

theorem terminal_shows_text_witness:
  "\<exists>T'. terminal_writestring (replicate 2001 65 @ [0])
      (terminal_initialize \<lparr>terminal_row = 7, terminal_column = 7, terminal_color = 0, terminal_buffer = 0, vram = \<lambda>a. 0\<rparr>) = Some T'
    \<and> cursor_at T' 1 \<and> vram T' 0xB8000 = 0x0741"
proof -
  have "cell 0 = 0xB8000" by (simp add: cell_def cell_addr_def VGA_MEMORY_def)
  moreover have "shown (replicate 2001 65) 0 = 0x0741"
    by (simp add: shown_def text_cell_def vga_entry_def vga_entry_color_def nth_append)
  ultimately show ?thesis
    using terminal_shows_text [of "replicate 2001 65" "[]"
        "\<lparr>terminal_row = 7, terminal_column = 7, terminal_color = 0, terminal_buffer = 0, vram = \<lambda>a. 0\<rparr>"]
    by (auto simp del: replicate.simps dest!: spec [of _ 0])
qed

end
