(* ===== verification/Interrupts.thy ===== *)
theory Interrupts
  imports Console "HOL-Library.Signed_Division"
begin

text \<open>
  Interrupts: the two interrupt controllers (\<^verbatim>\<open>kernel/idt/pic/pic.c\<close>), the interval timer
  (\<^verbatim>\<open>drivers/pit/pit.c\<close>, \<^verbatim>\<open>drivers/timer.c\<close>), the exception handler
  (\<^verbatim>\<open>kernel/idt/isr/exceptions.c\<close>) and the dispatch of hardware interrupts to the drivers
  (\<^verbatim>\<open>kernel/idt/irq/irq.c\<close>).

  The controllers, the timer, the keyboard and the serial port are parts of the one machine behind the I/O ports; the
  locale \<open>pc_ports\<close> states how each answers on its ports and that it leaves the others alone, and \<open>pc_io\<close> is a
  machine that follows it.  A handler in the table \<open>irq_handlers\<close> is a value of \<open>irq_fn\<close>, null is \<open>None\<close>.
\<close>

section \<open>Interrupt controller\<close>

definition PIC_EOI :: u8 where "PIC_EOI = 0x20"
definition PIC1_COMMAND :: u16 where "PIC1_COMMAND = 0x20"
definition PIC1_DATA :: u16 where "PIC1_DATA = 0x20 + 1"
definition PIC2_COMMAND :: u16 where "PIC2_COMMAND = 0xA0"
definition PIC2_DATA :: u16 where "PIC2_DATA = 0xA0 + 1"
definition ICW1_ICW4 :: u8 where "ICW1_ICW4 = 0x01"
definition ICW1_INIT :: u8 where "ICW1_INIT = 0x10"
definition ICW4_8086 :: u8 where "ICW4_8086 = 0x01"
definition PIC_READ_IRR :: u8 where "PIC_READ_IRR = 0x0a"
definition PIC_READ_ISR :: u8 where "PIC_READ_ISR = 0x0b"

lemmas pic_consts = PIC_EOI_def PIC1_COMMAND_def PIC1_DATA_def PIC2_COMMAND_def PIC2_DATA_def ICW1_ICW4_def ICW1_INIT_def
  ICW4_8086_def PIC_READ_IRR_def PIC_READ_ISR_def

definition mask_port :: "u8 \<Rightarrow> u16 \<times> u8" where
  "mask_port IRQline = (if IRQline < 8 then (PIC1_DATA, IRQline) else (PIC2_DATA, IRQline - 8))"

text \<open>\<^verbatim>\<open>1 << IRQline\<close> is an \<^verbatim>\<open>int\<close> shift, whose count the processor takes modulo 32.\<close>

definition irq_bit :: "u8 \<Rightarrow> u8" where
  "irq_bit line = ucast (push_bit (unat line mod 32) (1 :: u32))"

definition IRQ_set_mask :: "'d io_ports \<Rightarrow> u8 \<Rightarrow> 'd \<Rightarrow> 'd" where
  "IRQ_set_mask io IRQline d =
     (let (port, line) = mask_port IRQline;
          (m, d) = inb io port d;
          value = m OR irq_bit line
      in outb io port value d)"

definition IRQ_clear_mask :: "'d io_ports \<Rightarrow> u8 \<Rightarrow> 'd \<Rightarrow> 'd" where
  "IRQ_clear_mask io IRQline d =
     (let (port, line) = mask_port IRQline;
          (m, d) = inb io port d;
          value = m AND NOT (irq_bit line)
      in outb io port value d)"

definition remap_pic :: "'d io_ports \<Rightarrow> int \<Rightarrow> int \<Rightarrow> 'd \<Rightarrow> 'd" where
  "remap_pic io offset1 offset2 d =
     (let d = outb io PIC1_COMMAND (ICW1_INIT OR ICW1_ICW4) d;
          d = io_wait io d;
          d = outb io PIC2_COMMAND (ICW1_INIT OR ICW1_ICW4) d;
          d = io_wait io d;
          d = outb io PIC1_DATA (word_of_int offset1) d;
          d = io_wait io d;
          d = outb io PIC2_DATA (word_of_int offset2) d;
          d = io_wait io d;
          d = outb io PIC1_DATA 4 d;
          d = io_wait io d;
          d = outb io PIC2_DATA 2 d;
          d = io_wait io d;
          d = outb io PIC1_DATA ICW4_8086 d;
          d = io_wait io d;
          d = outb io PIC2_DATA ICW4_8086 d;
          d = io_wait io d;
          d = outb io PIC1_DATA 0 d;
          d = outb io PIC2_DATA 0 d;
          d = IRQ_clear_mask io 0 d
      in IRQ_clear_mask io 1 d)"

definition send_EOI :: "'d io_ports \<Rightarrow> u8 \<Rightarrow> 'd \<Rightarrow> 'd" where
  "send_EOI io irq d =
     (let d = (if irq \<ge> 8 then outb io PIC2_COMMAND PIC_EOI d else d)
      in outb io PIC1_COMMAND PIC_EOI d)"

definition pic_get_irq_reg :: "'d io_ports \<Rightarrow> u8 \<Rightarrow> 'd \<Rightarrow> u16 \<times> 'd" where
  "pic_get_irq_reg io ocw3 d =
     (let d = outb io PIC1_COMMAND ocw3 d;
          d = outb io PIC2_COMMAND ocw3 d;
          (hi, d) = inb io PIC2_COMMAND d;
          (lo, d) = inb io PIC1_COMMAND d
      in (push_bit 8 (ucast hi) OR ucast lo, d))"

definition pic_get_irr :: "'d io_ports \<Rightarrow> 'd \<Rightarrow> u16 \<times> 'd" where
  "pic_get_irr io d = pic_get_irq_reg io PIC_READ_IRR d"

definition pic_get_isr :: "'d io_ports \<Rightarrow> 'd \<Rightarrow> u16 \<times> 'd" where
  "pic_get_isr io d = pic_get_irq_reg io PIC_READ_ISR d"

section \<open>Interval timer\<close>

definition PIT_COMMAND_REG :: u16 where "PIT_COMMAND_REG = 0x43"
definition PIT_CHANNEL_0_DATA_REG :: u16 where "PIT_CHANNEL_0_DATA_REG = 0x40"
definition CHANNEL0 :: u8 where "CHANNEL0 = 0x0"
definition ACCESS_LSB_MSB :: u8 where "ACCESS_LSB_MSB = 0x3"
definition MODE_SQUARE_WAVE_GENERATOR :: u8 where "MODE_SQUARE_WAVE_GENERATOR = 0x3"
definition BINARY_MODE :: u8 where "BINARY_MODE = 0x0"

definition init_timer :: "'d io_ports \<Rightarrow> int \<Rightarrow> 'd \<Rightarrow> 'd option" where
  "init_timer io frequency d =
     (if frequency = 0 then None
      else let divisor = (word_of_int (1193180 sdiv frequency) :: u16);
               command = push_bit 6 CHANNEL0 OR push_bit 4 ACCESS_LSB_MSB OR push_bit 1 MODE_SQUARE_WAVE_GENERATOR OR BINARY_MODE;
               d = outb io PIT_COMMAND_REG command d;
               d = io_wait io d;
               d = outb io PIT_CHANNEL_0_DATA_REG (ucast (divisor AND 0xFF)) d
           in Some (outb io PIT_CHANNEL_0_DATA_REG (ucast (drop_bit 8 divisor AND 0xFF)) d))"

definition timer_driver :: "'d io_ports \<Rightarrow> int \<times> 'd \<Rightarrow> (int \<times> 'd) option" where
  "timer_driver io S = do {
     let (timer_ticks, d) = S;
     let timer_ticks = signed_take_bit 31 (timer_ticks + 1);
     if timer_ticks mod 100 = 0 then do {
       d \<leftarrow> serial_writestring io (ascii ''Timer tick: '' @ [0]) d;
       d \<leftarrow> serial_writeint io timer_ticks d;
       d \<leftarrow> serial_writestring io [10, 0] d;
       Some (timer_ticks, d)
     } else Some (timer_ticks, d)
   }"

section \<open>Exceptions\<close>

record registers =
  r_ds :: u32
  r_es :: u32
  r_fs :: u32
  r_gs :: u32
  r_edi :: u32
  r_esi :: u32
  r_ebp :: u32
  r_esp :: u32
  r_ebx :: u32
  r_edx :: u32
  r_ecx :: u32
  r_eax :: u32
  int_no :: u32
  err_code :: u32

definition exception_messages :: "string list" where
  "exception_messages =
     [''Division By Zero'', ''Debug'', ''Non Maskable Interrupt'', ''Breakpoint'', ''Overflow'', ''Bound Range Exceeded'',
      ''Invalid Opcode'', ''Device Not Available'', ''Double Fault'', ''Coprocessor Segment Overrun'', ''Invalid TSS'',
      ''Segment Not Present'', ''Stack-Segment Fault'', ''General Protection Fault'', ''Page Fault'', ''Reserved'',
      ''x87 Floating-Point Exception'', ''Alignment Check'', ''Machine Check'', ''SIMD Floating-Point Exception'',
      ''Virtualization Exception'', ''Control Protection Exception''] @ replicate 10 ''Reserved''"

definition report_reg :: "'d io_ports \<Rightarrow> string \<Rightarrow> u32 \<Rightarrow> 'd \<Rightarrow> 'd option" where
  "report_reg io name v d = do {
     d \<leftarrow> serial_writestring io (10 # ascii name @ [0]) d;
     serial_writehex io v d
   }"

text \<open>The handler never returns; the result is the machine at the moment it halts.\<close>

definition exception_handler :: "'d io_ports \<Rightarrow> registers \<Rightarrow> 'd \<Rightarrow> 'd option" where
  "exception_handler io regs d =
     (if unat (int_no regs) \<ge> length exception_messages then None
      else do {
        let message = exception_messages ! unat (int_no regs);
        d \<leftarrow> serial_writestring io (ascii ''Exception: '' @ [0]) d;
        d \<leftarrow> serial_writestring io (ascii message @ [0]) d;
        d \<leftarrow> serial_writestring io (10 # ascii ''Interrupt Number: '' @ [0]) d;
        d \<leftarrow> serial_writeint io (sint (int_no regs)) d;
        d \<leftarrow> report_reg io ''EAX: '' (r_eax regs) d;
        d \<leftarrow> report_reg io ''EBX: '' (r_ebx regs) d;
        d \<leftarrow> report_reg io ''ECX: '' (r_ecx regs) d;
        d \<leftarrow> report_reg io ''EDX: '' (r_edx regs) d;
        d \<leftarrow> report_reg io ''ESI: '' (r_esi regs) d;
        d \<leftarrow> report_reg io ''EDI: '' (r_edi regs) d;
        d \<leftarrow> report_reg io ''EBP: '' (r_ebp regs) d;
        report_reg io ''DS: '' (r_ds regs) d
      })"

section \<open>Hardware interrupts\<close>

datatype irq_fn = Timer_driver | Keyboard_driver

record 'd irq_state =
  dev :: 'd
  screen :: terminal
  ticks :: int
  irq_handlers :: "irq_fn option list"

definition install_handlers :: "'d irq_state \<Rightarrow> 'd irq_state" where
  "install_handlers S = S\<lparr>irq_handlers := (irq_handlers S)[0 := Some Timer_driver, 1 := Some Keyboard_driver]\<rparr>"

definition call_handler :: "'d io_ports \<Rightarrow> (u8 \<Rightarrow> u8) \<Rightarrow> irq_fn \<Rightarrow> 'd irq_state \<Rightarrow> 'd irq_state option" where
  "call_handler io past f S = (case f of
     Timer_driver \<Rightarrow> do {
       (t, d) \<leftarrow> timer_driver io (ticks S, dev S);
       Some (S\<lparr>ticks := t, dev := d\<rparr>)
     }
   | Keyboard_driver \<Rightarrow> do {
       (d, T) \<leftarrow> keyboard_driver io past (dev S, screen S);
       Some (S\<lparr>dev := d, screen := T\<rparr>)
     })"

definition irq_handler :: "'d io_ports \<Rightarrow> (u8 \<Rightarrow> u8) \<Rightarrow> registers \<Rightarrow> 'd irq_state \<Rightarrow> 'd irq_state option" where
  "irq_handler io past regs S = do {
     d \<leftarrow> serial_writestring io (ascii ''RAW int_no: '' @ [0]) (dev S);
     d \<leftarrow> serial_writeint io (sint (int_no regs)) d;
     d \<leftarrow> serial_writestring io [10, 0] d;
     let irq = (ucast (int_no regs - 32) :: u8);
     d \<leftarrow> serial_writestring io (ascii ''IRQ#: '' @ [0]) d;
     d \<leftarrow> serial_writeint io (uint irq) d;
     d \<leftarrow> serial_writestring io (ascii '' hit'' @ [10, 0]) d;
     let S = S\<lparr>dev := d\<rparr>;
     if unat irq \<ge> length (irq_handlers S) then None
     else do {
       S \<leftarrow> (case irq_handlers S ! unat irq of Some f \<Rightarrow> call_handler io past f S | None \<Rightarrow> Some S);
       Some (S\<lparr>dev := send_EOI io irq (dev S)\<rparr>)
     }
   }"

section \<open>The machine behind the ports\<close>

text \<open>An 8259 controller takes its initialisation words in order after a command with bit 4 set; afterwards its data port
  is the interrupt mask.  A non-specific end of interrupt clears the lowest bit that is in service.  The 8254 timer takes
  the low and the high byte of a reload value after a command that asks for both.\<close>

record pic8259 =
  pic_icw1 :: u8
  pic_step :: nat
  pic_vector :: u8
  pic_cascade :: u8
  pic_mode :: u8
  pic_mask :: u8
  pic_irr :: u8
  pic_isr :: u8
  pic_reads_isr :: bool

definition pic_command :: "u8 \<Rightarrow> pic8259 \<Rightarrow> pic8259" where
  "pic_command v P =
     (if bit v 4 then P\<lparr>pic_icw1 := v, pic_step := 1, pic_mask := 0, pic_reads_isr := False\<rparr>
      else if bit v 3 then (if bit v 1 then P\<lparr>pic_reads_isr := bit v 0\<rparr> else P)
      else if v AND 0xE0 = 0x20 then P\<lparr>pic_isr := pic_isr P AND (pic_isr P - 1)\<rparr>
      else P)"

definition pic_data :: "u8 \<Rightarrow> pic8259 \<Rightarrow> pic8259" where
  "pic_data v P =
     (let last_step = (if bit (pic_icw1 P) 0 then 3 else 0)
      in if pic_step P = 1 then P\<lparr>pic_vector := v AND 0xF8, pic_step := (if bit (pic_icw1 P) 1 then last_step else 2)\<rparr>
         else if pic_step P = 2 then P\<lparr>pic_cascade := v, pic_step := last_step\<rparr>
         else if pic_step P = 3 then P\<lparr>pic_mode := v, pic_step := 0\<rparr>
         else P\<lparr>pic_mask := v\<rparr>)"

record pit8254 =
  pit_control :: u8
  pit_low :: "u8 option"
  pit_reload :: u16

definition pit_command :: "u8 \<Rightarrow> pit8254 \<Rightarrow> pit8254" where
  "pit_command v P = P\<lparr>pit_control := v, pit_low := None\<rparr>"

definition pit_data :: "u8 \<Rightarrow> pit8254 \<Rightarrow> pit8254" where
  "pit_data v P = (case pit_low P of
     None \<Rightarrow> P\<lparr>pit_low := Some v\<rparr>
   | Some lo \<Rightarrow> P\<lparr>pit_low := None, pit_reload := word_of_bytes lo v\<rparr>)"

record pc_chips =
  pic1 :: pic8259
  pic2 :: pic8259
  pit :: pit8254
  scan_code :: u8

definition chips_write :: "u16 \<Rightarrow> u8 \<Rightarrow> pc_chips \<Rightarrow> pc_chips" where
  "chips_write p v C =
     (if p = 0x20 then C\<lparr>pic1 := pic_command v (pic1 C)\<rparr>
      else if p = 0x21 then C\<lparr>pic1 := pic_data v (pic1 C)\<rparr>
      else if p = 0xA0 then C\<lparr>pic2 := pic_command v (pic2 C)\<rparr>
      else if p = 0xA1 then C\<lparr>pic2 := pic_data v (pic2 C)\<rparr>
      else if p = 0x43 then C\<lparr>pit := pit_command v (pit C)\<rparr>
      else if p = 0x40 then C\<lparr>pit := pit_data v (pit C)\<rparr>
      else C)"

definition pic_status :: "pic8259 \<Rightarrow> u8" where
  "pic_status P = (if pic_reads_isr P then pic_isr P else pic_irr P)"

definition chips_read :: "u16 \<Rightarrow> pc_chips \<Rightarrow> u8" where
  "chips_read p C =
     (if p = 0x20 then pic_status (pic1 C)
      else if p = 0x21 then pic_mask (pic1 C)
      else if p = 0xA0 then pic_status (pic2 C)
      else if p = 0xA1 then pic_mask (pic2 C)
      else scan_code C)"

definition pic_programmed :: "u8 \<Rightarrow> u8 \<Rightarrow> pic8259 \<Rightarrow> pic8259" where
  "pic_programmed v c P = P\<lparr>pic_icw1 := 0x11, pic_step := 0, pic_vector := v AND 0xF8, pic_cascade := c, pic_mode := 1,
     pic_mask := 0, pic_reads_isr := False\<rparr>"

text \<open>Both masks as one word, bit \<open>k\<close> for interrupt line \<open>k\<close>.\<close>

definition irq_masks :: "pc_chips \<Rightarrow> u16" where
  "irq_masks C = word_of_bytes (pic_mask (pic1 C)) (pic_mask (pic2 C))"

lemma bit_irq_bit: "bit (irq_bit l) n \<longleftrightarrow> n < 8 \<and> n = unat l mod 32"
  by (auto simp: irq_bit_def bit_simps)

lemma word_of_split: "word_of_bytes (ucast (w AND 0xFF)) (ucast (drop_bit 8 w AND 0xFF)) = w" for w :: u16
proof -
  have low: "v AND 0xFF = take_bit 8 v" for v :: u16 by (simp add: take_bit_eq_mask mask_eq_exp_minus_1)
  show ?thesis
    unfolding word_of_bytes_def low by (intro bit_word_eqI) (auto simp: bit_simps)
qed

lemma masks_upd:
  fixes C :: pc_chips
  assumes "k < 16"
  defines "P1 \<equiv> pic_mask (pic1 C)" and "P2 \<equiv> pic_mask (pic2 C)"
  shows "(if k < 8 then word_of_bytes (P1 OR irq_bit k) P2 else word_of_bytes P1 (P2 OR irq_bit (k - 8))) =
      irq_masks C OR push_bit (unat k) 1"
    and "(if k < 8 then word_of_bytes (P1 AND NOT (irq_bit k)) P2 else word_of_bytes P1 (P2 AND NOT (irq_bit (k - 8)))) =
      irq_masks C AND NOT (push_bit (unat k) 1)"
proof -
  have k: "unat k < 16" using assms(1) by (simp add: word_less_nat_alt)
  have sub: "unat (k - 8) = unat k - 8" if "\<not> k < 8" using that by (simp add: unat_sub word_le_nat_alt not_less)
  have lt: "k < 8 \<longleftrightarrow> unat k < 8" by (simp add: word_less_nat_alt)
  show "(if k < 8 then word_of_bytes (P1 OR irq_bit k) P2 else word_of_bytes P1 (P2 OR irq_bit (k - 8))) =
      irq_masks C OR push_bit (unat k) 1"
    unfolding irq_masks_def word_of_bytes_def P1_def P2_def
    by (rule bit_word_eqI) (use k sub lt in \<open>auto simp: bit_simps bit_irq_bit\<close>)
  show "(if k < 8 then word_of_bytes (P1 AND NOT (irq_bit k)) P2 else word_of_bytes P1 (P2 AND NOT (irq_bit (k - 8)))) =
      irq_masks C AND NOT (push_bit (unat k) 1)"
    unfolding irq_masks_def word_of_bytes_def P1_def P2_def
    by (rule bit_word_eqI) (use k sub lt in \<open>auto simp: bit_simps bit_irq_bit dest: bit_imp_le_length\<close>)
qed

text \<open>What a scan code does to the screen.\<close>

definition echo :: "u8 \<Rightarrow> terminal \<Rightarrow> terminal" where
  "echo sc T =
     (if bit sc 7 then T
      else if kbdus ! unat sc \<noteq> 0 then terminal_putchar (kbdus ! unat sc) T
      else fold terminal_putchar (ascii ''[UNK]'') T)"

definition irq_log :: "u32 \<Rightarrow> u8 list" where
  "irq_log n = ascii ''RAW int_no: '' @ dec_text (uint n) @ [10] @ ascii ''IRQ#: '' @ dec_text (uint n - 32) @ ascii '' hit'' @ [10]"

definition ack :: "nat \<Rightarrow> pc_chips \<Rightarrow> pc_chips" where
  "ack k C = C\<lparr>pic1 := pic_command 0x20 (pic1 C), pic2 := (if k \<ge> 8 then pic_command 0x20 (pic2 C) else pic2 C)\<rparr>"

lemma scan_code_range: "\<not> bit sc 7 \<Longrightarrow> unat sc < 128" for sc :: u8
proof -
  assume "\<not> bit sc 7"
  then have "take_bit 7 sc = sc" by (intro bit_word_eqI) (auto simp: bit_simps less_Suc_eq numeral_eq_Suc)
  then have "unat sc = unat sc mod 2 ^ 7" by (metis unsigned_take_bit_eq take_bit_eq_mod)
  also have "\<dots> < 2 ^ 7" by (rule mod_less_divisor) simp
  finally show "unat sc < 128" by simp
qed

lemma wrap_tick_range: "- (2 ^ 31) \<le> signed_take_bit 31 t \<and> signed_take_bit 31 t < 2 ^ 31" for t :: int
  using signed_take_bit_int_greater_eq_minus_exp [of 31 t] signed_take_bit_int_less_exp [of 31 t] by simp

definition irq_table :: "irq_fn option list" where
  "irq_table = Some Timer_driver # Some Keyboard_driver # replicate 14 None"

lemma irq_table_nth: "k < 16 \<Longrightarrow> irq_table ! k = (if k = 0 then Some Timer_driver else if k = 1 then Some Keyboard_driver else None)"
  by (auto simp: irq_table_def nth_Cons split: nat.splits)

lemma irq_number:
  fixes n :: u32
  assumes "k < 16" "n = 32 + of_nat k"
  shows "(ucast (n - 32) :: u8) = of_nat k" "unat (of_nat k :: u8) = k" "sint n = 32 + int k" "uint n = 32 + int k"
    "uint (of_nat k :: u8) = int k"
proof -
  show "(ucast (n - 32) :: u8) = of_nat k"
    using assms by (simp add: unsigned_of_nat take_bit_nat_eq_self)
  show u8: "unat (of_nat k :: u8) = k" using assms(1) by (simp add: unsigned_of_nat take_bit_nat_eq_self)
  then show "uint (of_nat k :: u8) = int k" by (metis uint_nat)
  have "n = of_nat (32 + k)" using assms(2) by simp
  then have "unat n = 32 + k" using assms(1) unat_of_nat_u32 [of "32 + k"] by simp
  then show "uint n = 32 + int k" by (simp add: uint_nat)
  then show "sint n = 32 + int k" using assms(1) sint_small [of n] by (simp add: word_less_def)
qed

lemma bind_None [simp]: "x \<bind> (\<lambda>_. None) = None" for x :: "'a option"
  by (cases x) simp_all

locale pc_ports = uart io regs sent delay
  for io :: "'d io_ports" and regs :: "'d \<Rightarrow> uart_regs" and sent :: "'d \<Rightarrow> u8 list" and delay :: "'d \<Rightarrow> nat" +
  fixes chips :: "'d \<Rightarrow> pc_chips"
  assumes chip_out: "p \<in> {0x20, 0x21, 0xA0, 0xA1, 0x40, 0x43, 0x80} \<Longrightarrow>
      chips (out8 io p v d) = chips_write p v (chips d) \<and> sent (out8 io p v d) = sent d \<and> regs (out8 io p v d) = regs d"
    and chip_in: "p \<in> {0x20, 0x21, 0xA0, 0xA1, 0x60} \<Longrightarrow>
      \<exists>d'. in8 io p d = (chips_read p (chips d), d') \<and> chips d' = chips d \<and> sent d' = sent d \<and> regs d' = regs d"
    and uart_out: "p \<in> {0x3F8, 0x3F9, 0x3FA, 0x3FB, 0x3FC} \<Longrightarrow> chips (out8 io p v d) = chips d"
    and uart_in: "chips (snd (in8 io 0x3FD d)) = chips d"
begin

text \<open>Printing leaves the other chips alone.\<close>

definition keeps :: "('d \<Rightarrow> 'd option) \<Rightarrow> bool" where
  "keeps f \<longleftrightarrow> (\<forall>d d'. f d = Some d' \<longrightarrow> chips d' = chips d)"

lemma keeps_bind: "keeps f \<Longrightarrow> keeps g \<Longrightarrow> keeps (\<lambda>d. f d \<bind> g)"
  unfolding keeps_def by (metis bind_eq_Some_conv)

lemma keeps_wait: "keeps (serial_wait io)"
proof -
  have "chips d' = chips d" if "serial_wait io d = Some d'" for d d'
    using that
    by (rule serial_wait.raw_induct [rotated, where P = "\<lambda>io' d y. io' = io \<longrightarrow> chips y = chips d", THEN mp])
      (use uart_in in \<open>auto split: if_splits prod.splits simp: inb_def COM1_def, (metis snd_conv)+\<close>)
  then show ?thesis by (simp add: keeps_def)
qed

lemma keeps_writechar: "keeps (serial_writechar io c)"
proof -
  have "keeps (\<lambda>d. Some (outb io COM1 c d))" by (simp add: keeps_def outb_def COM1_def uart_out)
  then show ?thesis unfolding serial_writechar_def [abs_def] by (rule keeps_bind [OF keeps_wait])
qed

lemma keeps_string: "keeps (serial_writestring io s)"
proof (induction s)
  case (Cons c s)
  have "keeps (\<lambda>d. serial_writechar io c d \<bind> serial_writestring io s)" by (rule keeps_bind [OF keeps_writechar Cons])
  then show ?case by (auto simp: keeps_def)
qed (simp add: keeps_def)

lemma keeps_down: "keeps (write_down io buf n)"
proof (induction n)
  case (Suc n)
  from keeps_bind [OF keeps_writechar this] show ?case by (simp add: keeps_def)
qed (simp add: keeps_def)

lemma keeps_int: "keeps (serial_writeint io n)"
  using keeps_down by (auto simp: keeps_def serial_writeint_def split: bind_splits)

text \<open>\<open>logs f txt\<close>: \<open>f\<close> ends, sends exactly \<open>txt\<close> and changes nothing else.\<close>

definition logs :: "('d \<Rightarrow> 'd option) \<Rightarrow> u8 list \<Rightarrow> bool" where
  "logs f txt \<longleftrightarrow> prints f txt \<and> keeps f"

lemma logs_bind: "logs f s \<Longrightarrow> logs g t \<Longrightarrow> logs (\<lambda>d. f d \<bind> g) (s @ t)"
  unfolding logs_def by (blast intro: prints_bind keeps_bind)

lemma logs_string: "0 \<notin> set s \<Longrightarrow> logs (serial_writestring io (s @ [0])) s"
  unfolding logs_def by (blast intro: prints_string keeps_string)

lemma logs_int: "- (2 ^ 31) < n \<Longrightarrow> n < 2 ^ 31 \<Longrightarrow> logs (serial_writeint io n) (dec_text n)"
  unfolding logs_def by (blast intro: prints_int keeps_int)

lemma logs_Some: "logs Some []"
  unfolding logs_def by (simp add: prints_def keeps_def)

lemma logsD:
  assumes "logs f txt" "line_open d"
  obtains d' where "f d = Some d'" "sent d' = sent d @ txt" "regs d' = regs d" "chips d' = chips d" "line_open d'"
  using assms unfolding logs_def prints_def keeps_def line_open_def by metis

section \<open>Programming the chips\<close>

lemma inb_chip:
  assumes "p \<in> {0x20, 0x21, 0xA0, 0xA1, 0x60}"
  shows "fst (inb io p d) = chips_read p (chips d)" "chips (snd (inb io p d)) = chips d"
    "sent (snd (inb io p d)) = sent d" "regs (snd (inb io p d)) = regs d"
  using chip_in [OF assms, of d] by (auto simp: inb_def)

lemma outb_chip:
  assumes "p \<in> {0x20, 0x21, 0xA0, 0xA1, 0x40, 0x43, 0x80}"
  shows "chips (outb io p v d) = chips_write p v (chips d)" "sent (outb io p v d) = sent d" "regs (outb io p v d) = regs d"
  using chip_out [OF assms, of v d] by (auto simp: outb_def)

lemma io_wait_chip: "chips (io_wait io d) = chips d" "sent (io_wait io d) = sent d" "regs (io_wait io d) = regs d"
  using outb_chip [of "0x80"] by (simp_all add: io_wait_def chips_write_def)

lemma mask_op_chips:
  "chips (IRQ_clear_mask io k d) =
     (if k < 8 then (chips d)\<lparr>pic1 := pic_data (pic_mask (pic1 (chips d)) AND NOT (irq_bit k)) (pic1 (chips d))\<rparr>
      else (chips d)\<lparr>pic2 := pic_data (pic_mask (pic2 (chips d)) AND NOT (irq_bit (k - 8))) (pic2 (chips d))\<rparr>)"
  "chips (IRQ_set_mask io k d) =
     (if k < 8 then (chips d)\<lparr>pic1 := pic_data (pic_mask (pic1 (chips d)) OR irq_bit k) (pic1 (chips d))\<rparr>
      else (chips d)\<lparr>pic2 := pic_data (pic_mask (pic2 (chips d)) OR irq_bit (k - 8)) (pic2 (chips d))\<rparr>)"
  "sent (IRQ_clear_mask io k d) = sent d" "regs (IRQ_clear_mask io k d) = regs d"
  using inb_chip [of "0x21" d] inb_chip [of "0xA1" d]
  by (simp_all add: IRQ_clear_mask_def IRQ_set_mask_def mask_port_def pic_consts outb_chip chips_write_def chips_read_def
      split_beta)

lemma remap_chips:
  "chips (remap_pic io o1 o2 d) =
     (chips d)\<lparr>pic1 := pic_programmed (word_of_int o1) 4 (pic1 (chips d)),
       pic2 := pic_programmed (word_of_int o2) 2 (pic2 (chips d))\<rparr>"
  "sent (remap_pic io o1 o2 d) = sent d"
  by (simp_all add: remap_pic_def Let_def pic_consts outb_chip io_wait_chip mask_op_chips chips_write_def pic_command_def
      pic_data_def pic_programmed_def)

lemma timer_chips:
  assumes "f \<noteq> 0"
  shows "\<exists>d'. init_timer io f d = Some d' \<and> sent d' = sent d \<and>
    chips d' = (chips d)\<lparr>pit := (pit (chips d))\<lparr>pit_control := 0x36, pit_low := None, pit_reload := word_of_int (1193180 sdiv f)\<rparr>\<rparr>"
  using assms
  by (simp add: init_timer_def Let_def PIT_COMMAND_REG_def PIT_CHANNEL_0_DATA_REG_def CHANNEL0_def ACCESS_LSB_MSB_def
      MODE_SQUARE_WAVE_GENERATOR_def BINARY_MODE_def outb_chip io_wait_chip chips_write_def pit_command_def pit_data_def
      word_of_split)

section \<open>Handling an interrupt\<close>

lemma sent_line_open: "regs d' = regs d \<Longrightarrow> line_open d' = line_open d"
  by (simp add: line_open_def)

lemma timer_ok:
  assumes "line_open d"
  shows "\<exists>d'. timer_driver io (t, d) = Some (signed_take_bit 31 (t + 1), d') \<and> chips d' = chips d \<and> line_open d'"
proof (cases "signed_take_bit 31 (t + 1) mod 100 = 0")
  case True
  let ?t = "signed_take_bit 31 (t + 1)"
  have "?t \<noteq> - (2 ^ 31)" using True by auto
  then have "logs (serial_writeint io ?t) (dec_text ?t)"
    using wrap_tick_range [of "t + 1"] by (intro logs_int) auto
  then have "logs (\<lambda>d. serial_writestring io (ascii ''Timer tick: '' @ [0]) d \<bind> (\<lambda>d. serial_writeint io ?t d \<bind>
      serial_writestring io ([10] @ [0]))) (ascii ''Timer tick: '' @ dec_text ?t @ [10])"
    by (intro logs_bind logs_string) (auto simp: ascii_def)
  from logsD [OF this assms] obtain d' where "serial_writestring io (ascii ''Timer tick: '' @ [0]) d \<bind> (\<lambda>d. serial_writeint io ?t d \<bind>
      serial_writestring io ([10] @ [0])) = Some d'" "chips d' = chips d" "line_open d'" by blast
  with True show ?thesis
    by (auto simp: timer_driver_def Let_def bind_eq_Some_conv simp del: serial_writestring.simps)
next
  case False
  with assms show ?thesis by (simp add: timer_driver_def Let_def)
qed

lemma keyboard_ok:
  "\<exists>d'. keyboard_driver io past (d, T) = Some (d', echo (scan_code (chips d)) T) \<and> chips d' = chips d \<and> regs d' = regs d"
proof -
  let ?sc = "scan_code (chips d)"
  obtain d' where d': "inb io 0x60 d = (?sc, d')" "chips d' = chips d" "regs d' = regs d"
    using inb_chip [of "0x60" d] by (cases "inb io 0x60 d") (auto simp: chips_read_def)
  have b: "?sc AND 0x80 \<noteq> 0 \<longleftrightarrow> bit ?sc 7"
    by (simp add: bit_iff_and_push_bit_not_eq_0)
  have "terminal_writestring (ascii ''[UNK]'' @ [0]) T = Some (fold terminal_putchar (ascii ''[UNK]'') T)"
    using write_fold [of "ascii ''[UNK]''" "[0]" T] by (simp add: terminal_writestring_def ascii_def)
  then show ?thesis
    using d' scan_code_range [of ?sc] by (auto simp: keyboard_driver_def echo_def b kbdus_length)
qed

lemma EOI_chips: "chips (send_EOI io k d) = ack (unat k) (chips d)" "regs (send_EOI io k d) = regs d"
  by (simp_all add: send_EOI_def ack_def pic_consts outb_chip chips_write_def word_le_nat_alt)

definition log_irq :: "u32 \<Rightarrow> 'd \<Rightarrow> 'd option" where
  "log_irq n d = serial_writestring io (ascii ''RAW int_no: '' @ [0]) d \<bind> (\<lambda>d. serial_writeint io (sint n) d \<bind>
     (\<lambda>d. serial_writestring io ([10] @ [0]) d \<bind> (\<lambda>d. serial_writestring io (ascii ''IRQ#: '' @ [0]) d \<bind>
     (\<lambda>d. serial_writeint io (uint (ucast (n - 32) :: u8)) d \<bind> serial_writestring io ((ascii '' hit'' @ [10]) @ [0])))))"

lemma logs_irq: "k < 16 \<Longrightarrow> n = 32 + of_nat k \<Longrightarrow> logs (log_irq n) (irq_log n)"
  unfolding log_irq_def [abs_def] irq_log_def
  by (simp only: irq_number) (intro logs_bind logs_string logs_int; simp add: ascii_def irq_number logs_int)

lemma irq_handler_log:
  "irq_handler io past r S = log_irq (int_no r) (dev S) \<bind> (\<lambda>d.
     let S = S\<lparr>dev := d\<rparr>; irq = ucast (int_no r - 32) in
     if unat irq \<ge> length (irq_handlers S) then None
     else (case irq_handlers S ! unat irq of Some f \<Rightarrow> call_handler io past f S | None \<Rightarrow> Some S) \<bind>
       (\<lambda>S. Some (S\<lparr>dev := send_EOI io irq (dev S)\<rparr>)))"
  by (simp add: irq_handler_def log_irq_def bind_assoc Let_def del: serial_writestring.simps)

lemma irq_handler_ok:
  assumes "line_open (dev S)" "k < 16" "int_no r = 32 + of_nat k" "irq_handlers S = irq_table"
  shows "\<exists>S'. irq_handler io past r S = Some S' \<and> chips (dev S') = ack k (chips (dev S)) \<and> line_open (dev S')
    \<and> screen S' = (if k = 1 then echo (scan_code (chips (dev S))) (screen S) else screen S)
    \<and> ticks S' = (if k = 0 then signed_take_bit 31 (ticks S + 1) else ticks S) \<and> irq_handlers S' = irq_handlers S"
proof -
  obtain d where d: "log_irq (int_no r) (dev S) = Some d" "chips d = chips (dev S)" "line_open d"
    using logsD [OF logs_irq [OF assms(2,3)] assms(1)] by metis
  obtain d0 where d0: "timer_driver io (ticks S, d) = Some (signed_take_bit 31 (ticks S + 1), d0)"
    "chips d0 = chips d" "line_open d0" using timer_ok [OF d(3)] by blast
  obtain d1 where d1: "keyboard_driver io past (d, screen S) = Some (d1, echo (scan_code (chips d)) (screen S))"
    "chips d1 = chips d" "regs d1 = regs d" using keyboard_ok by blast
  have len: "length irq_table = 16" by (simp add: irq_table_def)
  consider "k = 0" | "k = 1" | "k \<noteq> 0" "k \<noteq> 1" by blast
  then show ?thesis
    by cases (use d d0 d1 assms len irq_number [OF assms(2,3)] in \<open>auto simp: irq_handler_log irq_table_nth call_handler_def Let_def
      EOI_chips line_open_def\<close>)
qed

end

section \<open>A machine\<close>

record pc =
  pc_com :: com_port
  pc_chip :: pc_chips

definition pc_in8 :: "u16 \<Rightarrow> pc \<Rightarrow> u8 \<times> pc" where
  "pc_in8 p d =
     (if p \<in> {0x20, 0x21, 0xA0, 0xA1, 0x60} then (chips_read p (pc_chip d), d)
      else let (v, c) = com_in8 p (pc_com d) in (v, d\<lparr>pc_com := c\<rparr>))"

definition pc_out8 :: "u16 \<Rightarrow> u8 \<Rightarrow> pc \<Rightarrow> pc" where
  "pc_out8 p v d =
     (if p \<in> {0x20, 0x21, 0xA0, 0xA1, 0x40, 0x43, 0x80} then d\<lparr>pc_chip := chips_write p v (pc_chip d)\<rparr>
      else d\<lparr>pc_com := com_out8 p v (pc_com d)\<rparr>)"

definition pc_io :: "pc io_ports" where
  "pc_io = \<lparr>in8 = pc_in8, out8 = pc_out8, in16 = \<lambda>p d. (0, d), out16 = \<lambda>p w d. d\<rparr>"

lemma pc_chip_ports:
  "p \<in> {0x20, 0x21, 0xA0, 0xA1, 0x40, 0x43, 0x80} \<Longrightarrow> pc_out8 p v d = d\<lparr>pc_chip := chips_write p v (pc_chip d)\<rparr>"
  "p \<in> {0x20, 0x21, 0xA0, 0xA1, 0x60} \<Longrightarrow> pc_in8 p d = (chips_read p (pc_chip d), d)"
  by (simp_all add: pc_out8_def pc_in8_def)

lemma pc_com_ports:
  "p \<in> {0x3F8, 0x3F9, 0x3FA, 0x3FB, 0x3FC} \<Longrightarrow> pc_out8 p v d = d\<lparr>pc_com := com_out8 p v (pc_com d)\<rparr>"
  "pc_in8 0x3FD d = (fst (com_in8 0x3FD (pc_com d)), d\<lparr>pc_com := snd (com_in8 0x3FD (pc_com d))\<rparr>)"
  by (auto simp: pc_out8_def pc_in8_def split_beta)

interpretation pc: pc_ports pc_io "\<lambda>d. com_regs (pc_com d)" "\<lambda>d. com_sent (pc_com d)" "\<lambda>d. com_delay (pc_com d)" pc_chip
proof unfold_locales
  fix d :: pc and p :: u16 and v :: u8
  show "0 < com_delay (pc_com d) \<Longrightarrow> \<exists>s d'. in8 pc_io 0x3FD d = (s, d') \<and> s AND 0x20 = 0 \<and> com_delay (pc_com d') < com_delay (pc_com d)
      \<and> com_sent (pc_com d') = com_sent (pc_com d) \<and> com_regs (pc_com d') = com_regs (pc_com d)"
    using com.status_wait [of "pc_com d"] by (simp add: pc_io_def pc_com_ports com_io_def) fastforce
  show "com_delay (pc_com d) = 0 \<Longrightarrow> \<exists>s d'. in8 pc_io 0x3FD d = (s, d') \<and> s AND 0x20 \<noteq> 0 \<and> com_delay (pc_com d') = 0
      \<and> com_sent (pc_com d') = com_sent (pc_com d) \<and> com_regs (pc_com d') = com_regs (pc_com d)"
    using com.status_ready [of "pc_com d"] by (simp add: pc_io_def pc_com_ports com_io_def) fastforce
  show "\<not> bit (lcr (com_regs (pc_com d))) 7 \<Longrightarrow> com_delay (pc_com d) = 0 \<Longrightarrow>
      com_sent (pc_com (out8 pc_io 0x3F8 v d)) = com_sent (pc_com d) @ [v] \<and> com_regs (pc_com (out8 pc_io 0x3F8 v d)) = com_regs (pc_com d)"
    using com.transmit [of "pc_com d" v] by (simp add: pc_io_def pc_com_ports com_io_def)
  show "p \<in> {0x3F9, 0x3FA, 0x3FB, 0x3FC} \<or> p = 0x3F8 \<and> bit (lcr (com_regs (pc_com d))) 7 \<Longrightarrow>
      com_sent (pc_com (out8 pc_io p v d)) = com_sent (pc_com d) \<and>
      com_regs (pc_com (out8 pc_io p v d)) = uart_write p v (com_regs (pc_com d))"
    using com.configure [of p "pc_com d" v] pc_com_ports(1) [of p v d] by (auto simp: pc_io_def com_io_def)
qed (auto simp: pc_io_def pc_chip_ports pc_com_ports)

section \<open>Properties\<close>




definition sample_pc :: "pc irq_state" where
  "sample_pc =
     (let P = \<lparr>pic_icw1 = 0x11, pic_step = 0, pic_vector = 0x20, pic_cascade = 4, pic_mode = 1, pic_mask = 0, pic_irr = 0,
           pic_isr = 2, pic_reads_isr = False\<rparr>
      in \<lparr>dev = \<lparr>pc_com = \<lparr>com_regs = \<lparr>ier = 0, fcr = 0, lcr = 3, mcr = 0, dll = 0, dlm = 0\<rparr>, com_sent = [], com_delay = 1\<rparr>,
             pc_chip = \<lparr>pic1 = P, pic2 = P, pit = \<lparr>pit_control = 0, pit_low = None, pit_reload = 0\<rparr>, scan_code = 0x1E\<rparr>\<rparr>,
          screen = \<lparr>terminal_row = 0, terminal_column = 0, terminal_color = 7, terminal_buffer = VGA_MEMORY, vram = \<lambda>a. 0\<rparr>,
          ticks = 0, irq_handlers = irq_table\<rparr>)"

definition sample_regs :: registers where
  "sample_regs = \<lparr>r_ds = 16, r_es = 16, r_fs = 16, r_gs = 16, r_edi = 0, r_esi = 0, r_ebp = 0, r_esp = 0, r_ebx = 0, r_edx = 0,
     r_ecx = 0, r_eax = 0, int_no = 33, err_code = 0\<rparr>"


end
