(* ===== verification/Ufs.thy ===== *)
theory Ufs
  imports Buffer_Ok Bytes Strings
begin

text \<open>
  The file system the kernel is built with (\<^verbatim>\<open>fs/ufs/ufs.c\<close>, \<^verbatim>\<open>include/ufs.h\<close>): disk inodes, the in-core
  inode cache, path lookup and \<^verbatim>\<open>mkufs\<close>.

  A disk inode is a record with an encoding in 128 bytes; an in-core inode has its fields and a state and a reference
  count, and two list nodes.  \<^verbatim>\<open>super\<close> points into the buffer of block 1, so its fields are 32-bit words at the
  offsets \<open>s_\<dots>\<close> of that buffer's memory; before it is set it is null.  Waiting forever is \<open>None\<close>, and so is the
  use of a null inode or of an uninitialised variable.
\<close>

section \<open>Disk inodes\<close>

definition U_BLK_SIZE :: u32 where "U_BLK_SIZE = 1024"
definition U_BYTES_PER_INODE :: u32 where "U_BYTES_PER_INODE = 4096"
definition INODES_PER_BLOCK :: u32 where "INODES_PER_BLOCK = U_BLK_SIZE div 128"
definition INODES :: nat where "INODES = 30"
definition FREE_INODE_LIST :: nat where "FREE_INODE_LIST = 50"
definition DIR_ENTRY_BYTES :: nat where "DIR_ENTRY_BYTES = 20"
definition DIR_ENTRY_INODE_SIZE :: nat where "DIR_ENTRY_INODE_SIZE = 4"
definition INODE_MEMBER_BLOCKS :: nat where "INODE_MEMBER_BLOCKS = 15"
definition I_DIRTY :: u32 where "I_DIRTY = push_bit 1 1"
definition I_lock :: u32 where "I_lock = push_bit 0 1"

record d_inode =
  i_mode :: u16
  i_uid :: u16
  i_size :: u32
  i_atime :: u32
  i_ctime :: u32
  i_mtime :: u32
  i_dtime :: u32
  i_gid :: u16
  i_nlinks :: u16
  i_n_blocks :: u32
  i_flags :: u32
  i_dev :: u32
  i_blocks :: "u32 list"
  i_no :: u32
  i_blkno :: u32
  i_dir_acl :: u32
  i_faddr :: u32
  i_osd2 :: "u8 list"

definition encode_inode :: "d_inode \<Rightarrow> u8 list" where
  "encode_inode d =
     bytes_of_word (i_mode d) @ bytes_of_word (i_uid d) @ bytes32 (i_size d) @ bytes32 (i_atime d) @ bytes32 (i_ctime d)
     @ bytes32 (i_mtime d) @ bytes32 (i_dtime d) @ bytes_of_word (i_gid d) @ bytes_of_word (i_nlinks d)
     @ bytes32 (i_n_blocks d) @ bytes32 (i_flags d) @ bytes32 (i_dev d) @ concat (map bytes32 (i_blocks d))
     @ bytes32 (i_no d) @ bytes32 (i_blkno d) @ bytes32 (i_dir_acl d) @ bytes32 (i_faddr d) @ i_osd2 d"

definition decode_inode :: "u8 list \<Rightarrow> d_inode" where
  "decode_inode bs =
     \<lparr>i_mode = get16 bs 0, i_uid = get16 bs 2, i_size = get32 bs 4, i_atime = get32 bs 8, i_ctime = get32 bs 12,
      i_mtime = get32 bs 16, i_dtime = get32 bs 20, i_gid = get16 bs 24, i_nlinks = get16 bs 26,
      i_n_blocks = get32 bs 28, i_flags = get32 bs 32, i_dev = get32 bs 36,
      i_blocks = map (\<lambda>k. get32 bs (40 + 4 * k)) [0..<15],
      i_no = get32 bs 100, i_blkno = get32 bs 104, i_dir_acl = get32 bs 108, i_faddr = get32 bs 112,
      i_osd2 = slice 116 12 bs\<rparr>"

text \<open>\<^verbatim>\<open>init_inode\<close> sets every field but \<^verbatim>\<open>i_osd2\<close>.\<close>

definition init_inode :: "d_inode \<Rightarrow> u32 \<Rightarrow> u32 \<Rightarrow> u32 \<Rightarrow> d_inode" where
  "init_inode d dev_no ino blkno =
     d\<lparr>i_mode := 0, i_uid := 0, i_size := 0, i_atime := 0, i_ctime := 0, i_mtime := 0, i_dtime := 0, i_gid := 0,
       i_nlinks := 0, i_n_blocks := 0, i_flags := 0, i_dev := dev_no,
       i_blocks := replicate INODE_MEMBER_BLOCKS 0, i_no := ino, i_blkno := blkno, i_dir_acl := 0, i_faddr := 0\<rparr>"

section \<open>State\<close>

record inode =
  core :: d_inode
  i_state :: u16
  i_count :: u32

record 'd ufs_state =
  bc :: "'d bstate"
  inodes :: "u32 \<Rightarrow> inode"
  ilists :: "bufnode list_heap"
  usuper :: u32
  current_root :: u32
  current_pwd :: u32

definition upd_inode :: "u32 \<Rightarrow> (inode \<Rightarrow> inode) \<Rightarrow> 'd ufs_state \<Rightarrow> 'd ufs_state" where
  "upd_inode p f U = U\<lparr>inodes := (inodes U)(p := f (inodes U p))\<rparr>"

definition upd_core :: "u32 \<Rightarrow> (d_inode \<Rightarrow> d_inode) \<Rightarrow> 'd ufs_state \<Rightarrow> 'd ufs_state" where
  "upd_core p f U = upd_inode p (\<lambda>i. i\<lparr>core := f (core i)\<rparr>) U"

definition upd_ilists :: "(bufnode list_heap \<Rightarrow> bufnode list_heap) \<Rightarrow> 'd ufs_state \<Rightarrow> 'd ufs_state" where
  "upd_ilists f U = U\<lparr>ilists := f (ilists U)\<rparr>"

section \<open>The super block\<close>

definition s_fs_size :: nat where "s_fs_size = 0"
definition s_inode_list_size :: nat where "s_inode_list_size = 4"
definition s_total_inodes :: nat where "s_total_inodes = 8"
definition s_n_free_inodes :: nat where "s_n_free_inodes = 12"
definition s_free_inodes :: nat where "s_free_inodes = 16"
definition s_next_free_inode :: nat where "s_next_free_inode = 216"
definition s_remembered_inode :: nat where "s_remembered_inode = 220"
definition s_inode_list_lock :: nat where "s_inode_list_lock = 224"
definition s_flags :: nat where "s_flags = 228"
definition s_blk_dilb_start :: nat where "s_blk_dilb_start = 232"
definition s_blk_dilb_end :: nat where "s_blk_dilb_end = 236"

definition super_bytes :: "'d ufs_state \<Rightarrow> u8 list option" where
  "super_bytes U = (if usuper U = 0 then None else Some (areas (bc U) (usuper U)))"

definition sb_get :: "nat \<Rightarrow> 'd ufs_state \<Rightarrow> u32 option" where
  "sb_get field U = map_option (\<lambda>bs. get32 bs field) (super_bytes U)"

definition sb_put :: "nat \<Rightarrow> u32 \<Rightarrow> 'd ufs_state \<Rightarrow> 'd ufs_state option" where
  "sb_put field v U =
     (if usuper U = 0 then None else Some (U\<lparr>bc := upd_area (usuper U) (put32 field v) (bc U)\<rparr>))"

definition sb_locked :: "'d ufs_state \<Rightarrow> bool option" where
  "sb_locked U = map_option (\<lambda>bs. bs ! s_inode_list_lock = 1) (super_bytes U)"

definition sb_set_lock :: "u8 \<Rightarrow> 'd ufs_state \<Rightarrow> 'd ufs_state option" where
  "sb_set_lock v U =
     (if usuper U = 0 then None
      else Some (U\<lparr>bc := upd_area (usuper U) (put_bytes s_inode_list_lock [v]) (bc U)\<rparr>))"

definition ufs_bread :: "'d io_ports \<Rightarrow> u32 \<Rightarrow> 'd ufs_state \<Rightarrow> (u32 \<times> 'd ufs_state) option" where
  "ufs_bread io blk U = do {
     (bh, B) \<leftarrow> bread io (of_nat DEV_NO) blk (bc U);
     Some (bh, U\<lparr>bc := B\<rparr>)
   }"

definition ufs_bwrite :: "'d io_ports \<Rightarrow> u32 \<Rightarrow> 'd ufs_state \<Rightarrow> 'd ufs_state option" where
  "ufs_bwrite io bh U = do { B \<leftarrow> bwrite io bh (bc U); Some (U\<lparr>bc := B\<rparr>) }"

definition ufs_brelse :: "u32 \<Rightarrow> 'd ufs_state \<Rightarrow> 'd ufs_state" where
  "ufs_brelse bh U = U\<lparr>bc := brelse bh (bc U)\<rparr>"

definition init_sb :: "'d io_ports \<Rightarrow> 'd ufs_state \<Rightarrow> 'd ufs_state option" where
  "init_sb io U = do {
     (bh, U) \<leftarrow> ufs_bread io 1 U;
     Some (U\<lparr>usuper := b_data (bufs (bc U) bh)\<rparr>)
   }"

primrec put_free_inodes :: "nat \<Rightarrow> 'd ufs_state \<Rightarrow> 'd ufs_state option" where
  "put_free_inodes 0 U = Some U"
| "put_free_inodes (Suc n) U = do {
     U \<leftarrow> put_free_inodes n U;
     sb_put (s_free_inodes + 4 * n) (of_nat n) U
   }"

definition make_super :: "u32 \<Rightarrow> 'd ufs_state \<Rightarrow> 'd ufs_state option" where
  "make_super mb U = do {
     U \<leftarrow> sb_put s_fs_size mb U;
     let fs_bytes = mb * 1024 * 1024;
     let total = fs_bytes div U_BYTES_PER_INODE;
     U \<leftarrow> sb_put s_total_inodes total U;
     let inode_blocks = (total + INODES_PER_BLOCK - 1) div INODES_PER_BLOCK;
     U \<leftarrow> sb_put s_blk_dilb_start 2 U;
     U \<leftarrow> sb_put s_blk_dilb_end (2 + inode_blocks - 1) U;
     U \<leftarrow> sb_put s_inode_list_size (of_nat FREE_INODE_LIST) U;
     U \<leftarrow> sb_put s_n_free_inodes total U;
     U \<leftarrow> sb_put s_next_free_inode (of_nat FREE_INODE_LIST - 1) U;
     U \<leftarrow> put_free_inodes FREE_INODE_LIST U;
     U \<leftarrow> sb_put s_remembered_inode (of_nat FREE_INODE_LIST) U;
     U \<leftarrow> sb_set_lock 0 U;
     sb_put s_flags 0 U
   }"

text \<open>The fields \<^verbatim>\<open>display_sb\<close> prints, in its order.\<close>

definition display_sb :: "u8 list \<Rightarrow> u32 list" where
  "display_sb sb =
     map (get32 sb) [s_fs_size, s_inode_list_size, s_total_inodes, s_n_free_inodes, s_next_free_inode, s_remembered_inode]
     @ [ucast (sb ! s_inode_list_lock)] @ map (get32 sb) [s_flags, s_blk_dilb_start, s_blk_dilb_end]
     @ map (\<lambda>i. get32 sb (s_free_inodes + 4 * i)) [0..<FREE_INODE_LIST]"

definition test_fs :: "'d io_ports \<Rightarrow> 'd ufs_state \<Rightarrow> (u32 list \<times> 'd ufs_state) option" where
  "test_fs io U = do {
     (bh, U) \<leftarrow> ufs_bread io 1 U;
     Some (display_sb (bdata bh (bc U)), ufs_brelse bh U)
   }"

section \<open>Reading and writing inodes\<close>

definition inode_offset :: "u32 \<Rightarrow> nat" where
  "inode_offset ino = 128 * unat (ino mod INODES_PER_BLOCK)"

definition get_dinode :: "'d io_ports \<Rightarrow> u32 \<Rightarrow> 'd ufs_state \<Rightarrow> (d_inode \<times> 'd ufs_state) option" where
  "get_dinode io ino U = do {
     start \<leftarrow> sb_get s_blk_dilb_start U;
     let i_blk = ino div INODES_PER_BLOCK + start;
     (bh, U) \<leftarrow> ufs_bread io i_blk U;
     let dinode = decode_inode (slice (inode_offset ino) 128 (bdata bh (bc U)));
     Some (dinode, ufs_brelse bh U)
   }"

definition read_inode :: "'d io_ports \<Rightarrow> u32 \<Rightarrow> 'd ufs_state \<Rightarrow> 'd ufs_state option" where
  "read_inode io p U = do {
     (dinode, U) \<leftarrow> get_dinode io (i_no (core (inodes U p))) U;
     Some (upd_core p (\<lambda>_. dinode) U)
   }"

definition write_inode :: "'d io_ports \<Rightarrow> u32 \<Rightarrow> 'd ufs_state \<Rightarrow> 'd ufs_state option" where
  "write_inode io p U = do {
     let ino = i_no (core (inodes U p));
     start \<leftarrow> sb_get s_blk_dilb_start U;
     let i_blk = ino div INODES_PER_BLOCK + start;
     (bh, U) \<leftarrow> ufs_bread io i_blk U;
     let B = upd_area (b_data (bufs (bc U) bh)) (put_bytes (inode_offset ino) (encode_inode (core (inodes U p)))) (bc U);
     ufs_bwrite io bh (U\<lparr>bc := B\<rparr>)
   }"

primrec init_block_inodes :: "nat \<Rightarrow> u32 \<Rightarrow> u32 \<Rightarrow> u8 list \<Rightarrow> u8 list" where
  "init_block_inodes 0 iCnt blk bs = bs"
| "init_block_inodes (Suc j) iCnt blk bs =
     (let bs = init_block_inodes j iCnt blk bs
      in put_bytes (128 * j) (encode_inode (init_inode (decode_inode (slice (128 * j) 128 bs)) (of_nat DEV_NO)
           (iCnt + of_nat j) blk)) bs)"

partial_function (option) mkufs_blocks :: "'d io_ports \<Rightarrow> u32 \<Rightarrow> 'd ufs_state \<Rightarrow> 'd ufs_state option" where
  "mkufs_blocks io iCnt U = do {
     total \<leftarrow> sb_get s_total_inodes U;
     if iCnt < total then do {
       start \<leftarrow> sb_get s_blk_dilb_start U;
       let inodes_block = iCnt div INODES_PER_BLOCK + start;
       (binode, U) \<leftarrow> ufs_bread io inodes_block U;
       let B = upd_area (b_data (bufs (bc U) binode)) (init_block_inodes (unat INODES_PER_BLOCK) iCnt inodes_block) (bc U);
       U \<leftarrow> ufs_bwrite io binode (U\<lparr>bc := B\<rparr>);
       mkufs_blocks io (iCnt + INODES_PER_BLOCK) U
     } else Some U
   }"

definition mkufs :: "'d io_ports \<Rightarrow> u32 \<Rightarrow> 'd ufs_state \<Rightarrow> 'd ufs_state option" where
  "mkufs io mb U = do {
     (bh, U) \<leftarrow> ufs_bread io 1 U;
     U \<leftarrow> make_super mb (U\<lparr>usuper := b_data (bufs (bc U) bh)\<rparr>);
     U \<leftarrow> mkufs_blocks io 0 U;
     ufs_bwrite io bh U
   }"

section \<open>The inode cache\<close>

definition inode_search_hash :: "u16 \<Rightarrow> u32 \<Rightarrow> 'd ufs_state \<Rightarrow> u32 option" where
  "inode_search_hash dev_no inum U = do {
     index \<leftarrow> hash_fn inum (ucast dev_no);
     queue \<leftarrow> hash_queue index;
     run \<leftarrow> list_find (ilists U) queue (\<lambda>n. case hash_entry n of
         None \<Rightarrow> True
       | Some p \<Rightarrow> i_no (core (inodes U p)) = inum \<and> i_dev (core (inodes U p)) = ucast dev_no);
     (case run of None \<Rightarrow> Some 0 | Some n \<Rightarrow> hash_entry n)
   }"

definition locked_inode :: "u32 \<Rightarrow> 'd ufs_state \<Rightarrow> 'd ufs_state" where
  "locked_inode p U = upd_core p (\<lambda>d. d\<lparr>i_flags := SET_FLAG (i_flags d) I_lock\<rparr>) U"

definition unlocked_inode :: "u32 \<Rightarrow> 'd ufs_state \<Rightarrow> 'd ufs_state" where
  "unlocked_inode p U = upd_core p (\<lambda>d. d\<lparr>i_flags := CLEAR_FLAG (i_flags d) I_lock\<rparr>) U"

definition inode_init :: "u32 \<Rightarrow> u16 \<Rightarrow> u32 \<Rightarrow> 'd ufs_state \<Rightarrow> 'd ufs_state" where
  "inode_init p dev_no inum U =
     (let U = upd_ilists (INIT_LIST_NULL (HashLink p)) U;
          U = upd_core p (\<lambda>d. d\<lparr>i_no := inum, i_dev := ucast dev_no, i_mode := 0, i_nlinks := 0, i_uid := 0, i_gid := 0,
                i_flags := 0, i_size := 0, i_atime := 0, i_mtime := 0, i_ctime := 0, i_n_blocks := 0\<rparr>) U
      in upd_inode p (\<lambda>i. i\<lparr>i_count := 0\<rparr>) U)"

text \<open>When the inode is not cached the code goes on with the null pointer it got from the search.\<close>

partial_function (option) iget :: "u16 \<Rightarrow> u32 \<Rightarrow> 'd ufs_state \<Rightarrow> (u32 \<times> 'd ufs_state) option" where
  "iget dev_no inum U = do {
     p \<leftarrow> inode_search_hash dev_no inum U;
     if p \<noteq> 0 then
       if IS_FLAG (i_flags (core (inodes U p))) I_lock then iget dev_no inum U
       else do {
         let U = (if i_count (inodes U p) = 0 then upd_ilists (list_del (FreeLink p)) U else U);
         let U = upd_inode p (\<lambda>i. i\<lparr>i_count := i_count i + 1\<rparr>) U;
         Some (p, locked_inode p U)
       }
     else if list_is_empty (ilists U) FreeHead then Some (0, U)
     else None
   }"

definition iput :: "'d io_ports \<Rightarrow> u32 \<Rightarrow> 'd ufs_state \<Rightarrow> 'd ufs_state option" where
  "iput io p U =
     (if p = 0 then None
      else do {
        let U = locked_inode p U;
        let U = upd_inode p (\<lambda>i. i\<lparr>i_count := i_count i - 1\<rparr>) U;
        U \<leftarrow> (if i_count (inodes U p) = 0 \<and> IS_FLAG (ucast (i_state (inodes U p))) I_DIRTY
              then write_inode io p U else Some U);
        let U = upd_ilists (list_add_tail FreeHead (FreeLink p)) U;
        Some (unlocked_inode p U)
      })"

definition test_icache :: "'d ufs_state \<Rightarrow> (u32 \<times> 'd ufs_state) option" where
  "test_icache U = iget (of_nat DEV_NO) 16 U"

definition display_inode_queue :: "'d ufs_state \<Rightarrow> nat \<Rightarrow> u32 list option" where
  "display_inode_queue U i = do {
     ns \<leftarrow> list_for_each (ilists U) (HashHead i);
     ps \<leftarrow> those (map hash_entry ns);
     Some (map (\<lambda>p. i_no (core (inodes U p))) ps)
   }"

definition display_inode_cache :: "'d ufs_state \<Rightarrow> u32 list list option" where
  "display_inode_cache U = those (map (display_inode_queue U) [0..<DEV_NO])"

definition sizeof_inode :: u32 where "sizeof_inode = 152"

function create_inodes :: "u32 \<Rightarrow> nat \<Rightarrow> 'd ufs_state \<Rightarrow> 'd ufs_state option" where
  "create_inodes cache iCnt U =
     (if iCnt < INODES then do {
        (tmp, slab) \<leftarrow> kmem_cache_alloc 2 cache 0 (bslab (bc U));
        let U = U\<lparr>bc := (bc U)\<lparr>bslab := slab\<rparr>\<rparr>;
        if tmp = 0 then Some U
        else do {
          let U = inode_init tmp (of_nat DEV_NO) (of_nat iCnt) U;
          index \<leftarrow> hash_fn (of_nat iCnt) (of_nat DEV_NO);
          queue \<leftarrow> hash_queue index;
          let U = upd_ilists (list_add queue (HashLink tmp)) U;
          let U = upd_ilists (list_add FreeHead (FreeLink tmp)) U;
          create_inodes cache (Suc iCnt) U
        }
      } else Some U)"
  by pat_completeness auto
termination by (relation "measure (\<lambda>(c, i, U). INODES - i)") auto

declare create_inodes.simps [simp del]

definition create_inode_cache :: "'d ufs_state \<Rightarrow> 'd ufs_state option" where
  "create_inode_cache U = do {
     (cache, slab) \<leftarrow> kmem_cache_create ''inode'' sizeof_inode KMALLOC_MINALIGN SLAB_HWCACHE_ALIGN 0 (bslab (bc U));
     let U = U\<lparr>bc := (bc U)\<lparr>bslab := slab\<rparr>\<rparr>;
     if cache = 0 then Some U
     else do {
       let U = upd_ilists (\<lambda>h. INIT_LIST_HEAD FreeHead (init_queues DEV_NO h)) U;
       U \<leftarrow> create_inodes cache 0 U;
       _ \<leftarrow> display_inode_cache U;
       (_, U) \<leftarrow> test_icache U;
       Some U
     }
   }"

section \<open>Directories and paths\<close>

definition bmap :: "u32 \<Rightarrow> u32" where
  "bmap byte_offset = byte_offset div U_BLK_SIZE"

text \<open>The entries of one block, from an offset on: the inode number of the first entry whose name starts with the wanted
  bytes, and the offset where the scan stopped.\<close>

function search_block :: "u8 list \<Rightarrow> u8 list \<Rightarrow> nat \<Rightarrow> nat \<Rightarrow> (u32 option \<times> nat) option" where
  "search_block data entry entry_len offset =
     (if offset < 1024 then do {
        r \<leftarrow> strncmp (drop offset data) entry entry_len;
        if r = 0 then Some (Some (get32 data (offset - DIR_ENTRY_INODE_SIZE)), offset)
        else search_block data entry entry_len (offset + DIR_ENTRY_BYTES)
      } else Some (None, offset))"
  by pat_completeness auto
termination by (relation "measure (\<lambda>(d, e, n, i). 1024 - i)") (auto simp: DIR_ENTRY_BYTES_def)

declare search_block.simps [simp del]

function search_blocks :: "'d io_ports \<Rightarrow> u32 \<Rightarrow> u8 list \<Rightarrow> nat \<Rightarrow> nat \<Rightarrow> nat \<Rightarrow> nat \<Rightarrow> 'd ufs_state
    \<Rightarrow> (u32 \<times> 'd ufs_state) option" where
  "search_blocks io p entry entry_len nblocks iCnt offset U =
     (if iCnt < nblocks then
        if iCnt < INODE_MEMBER_BLOCKS then do {
          (bh, U) \<leftarrow> ufs_bread io (i_blocks (core (inodes U p)) ! iCnt) U;
          (r, offset) \<leftarrow> search_block (bdata bh (bc U)) entry entry_len (offset + DIR_ENTRY_INODE_SIZE);
          let U = ufs_brelse bh U;
          (case r of
             Some inum \<Rightarrow> Some (inum, U)
           | None \<Rightarrow> search_blocks io p entry entry_len nblocks (Suc iCnt) offset U)
        } else None
      else Some (- 1, U))"
  by pat_completeness auto
termination by (relation "measure (\<lambda>(io, p, e, n, b, i, off, U). b - i)") auto

declare search_blocks.simps [simp del]

definition search_dir :: "'d io_ports \<Rightarrow> u32 \<Rightarrow> u8 list \<Rightarrow> nat \<Rightarrow> 'd ufs_state \<Rightarrow> (u32 \<times> 'd ufs_state) option" where
  "search_dir io p entry entry_len U =
     (if p = 0 then None
      else search_blocks io p entry entry_len (unat (i_size (core (inodes U p)) div U_BLK_SIZE + 1)) 0 0 U)"

definition next_token :: "u8 list \<Rightarrow> nat \<Rightarrow> nat \<Rightarrow> int" where
  "next_token str start len = int (start + length (takeWhile (\<lambda>c. c \<noteq> 47) (take (len - start) (drop start str)))) - 1"

text \<open>The variable \<^verbatim>\<open>end\<close> is set only when the character at the index is a slash; otherwise the loop goes on with
  its uninitialised value.\<close>

partial_function (option) namei_loop ::
    "'d io_ports \<Rightarrow> u8 list \<Rightarrow> nat \<Rightarrow> int \<Rightarrow> u32 \<Rightarrow> 'd ufs_state \<Rightarrow> (u32 \<times> 'd ufs_state) option" where
  "namei_loop io path len index work U =
     (if index < int len then do {
        c \<leftarrow> get_byte path (nat index);
        if c = 47 then do {
          let en = next_token path (nat index) len;
          let n = nat (en - index + 1);
          (tok, slab) \<leftarrow> kmalloc (of_nat n) 0 (bslab (bc U));
          let U = U\<lparr>bc := (bc U)\<lparr>bslab := slab\<rparr>\<rparr>;
          token \<leftarrow> (if tok = 0 then None else strncpy (replicate n 0) (drop (nat index) path) n);
          (inode, U) \<leftarrow> search_dir io work token n U;
          slab \<leftarrow> kfree tok (bslab (bc U));
          let U = U\<lparr>bc := (bc U)\<lparr>bslab := slab\<rparr>\<rparr>;
          if inode = - 1 then Some (0, U)
          else do {
            U \<leftarrow> iput io work U;
            (work, U) \<leftarrow> iget (of_nat DEV_NO) inode U;
            namei_loop io path len (en + 1) work U
          }
        } else None
      } else Some (work, U))"

definition namei :: "'d io_ports \<Rightarrow> u8 list \<Rightarrow> 'd ufs_state \<Rightarrow> (u32 \<times> 'd ufs_state) option" where
  "namei io path U = do {
     len \<leftarrow> strlen path;
     if len = 0 then Some (0, U)
     else do {
       c \<leftarrow> get_byte path 0;
       if c = 47 then namei_loop io path len 1 (current_root U) U
       else namei_loop io path len 0 (current_pwd U) U
     }
   }"

section \<open>Allocating an inode\<close>

text \<open>One block of the inode list: \<open>cnt\<close> entries of the free list are filled; the flag says that it is full.\<close>

primrec fill_from_block :: "nat \<Rightarrow> nat \<Rightarrow> u32 \<Rightarrow> nat \<Rightarrow> 'd ufs_state \<Rightarrow> (bool \<times> nat \<times> 'd ufs_state) option" where
  "fill_from_block 0 j bh cnt U = Some (False, cnt, U)"
| "fill_from_block (Suc n) j bh cnt U = do {
     let dinode = decode_inode (slice (128 * j) 128 (bdata bh (bc U)));
     (cnt, U) \<leftarrow> (if i_mode dinode = 0 then do {
         U \<leftarrow> sb_put (s_free_inodes + 4 * cnt) (i_no dinode) U;
         next \<leftarrow> sb_get s_next_free_inode U;
         U \<leftarrow> sb_put s_next_free_inode (next + 1) U;
         Some (Suc cnt, U)
       } else Some (cnt, U));
     if cnt = FREE_INODE_LIST then do {
       U \<leftarrow> sb_put s_remembered_inode (i_no dinode + 1) U;
       Some (True, cnt, U)
     } else fill_from_block n (Suc j) bh cnt U
   }"

partial_function (option) fill_blocks ::
    "'d io_ports \<Rightarrow> u32 \<Rightarrow> u32 \<Rightarrow> nat \<Rightarrow> 'd ufs_state \<Rightarrow> 'd ufs_state option" where
  "fill_blocks io dilb_start dilb_end cnt U =
     (if dilb_start \<le> dilb_end then do {
        (bh, U) \<leftarrow> ufs_bread io dilb_start U;
        (full, cnt, U) \<leftarrow> fill_from_block (unat INODES_PER_BLOCK) 0 bh cnt U;
        let U = ufs_brelse bh U;
        if full then Some U else fill_blocks io (dilb_start + 1) dilb_end cnt U
      } else Some U)"

definition fill_free_inode_list :: "'d io_ports \<Rightarrow> 'd ufs_state \<Rightarrow> 'd ufs_state option" where
  "fill_free_inode_list io U = do {
     dilb_start \<leftarrow> sb_get s_blk_dilb_start U;
     dilb_end \<leftarrow> sb_get s_blk_dilb_end U;
     fill_blocks io dilb_start dilb_end 0 U
   }"

partial_function (option) ialloc :: "'d io_ports \<Rightarrow> u16 \<Rightarrow> 'd ufs_state \<Rightarrow> (u32 \<times> 'd ufs_state) option" where
  "ialloc io dev_no U = do {
     lock \<leftarrow> sb_locked U;
     if lock then ialloc io dev_no U
     else do {
       next \<leftarrow> sb_get s_next_free_inode U;
       if next = - 1 then do {
         U \<leftarrow> sb_set_lock 1 U;
         U \<leftarrow> fill_free_inode_list io U;
         ialloc io dev_no U
       } else ialloc io dev_no U
     }
   }"

end
