(* ===== verification/Ufs_Ok.thy ===== *)
theory Ufs_Ok
  imports Ufs
begin

text \<open>
  What the file system guarantees (\<^verbatim>\<open>fs/ufs/ufs.c\<close>): inodes survive the trip to their block and back, and the inode
  cache hands out and takes back cached inodes consistently; what does not work: path lookup and inode allocation.
\<close>

section \<open>Encoding\<close>

definition wf_inode :: "d_inode \<Rightarrow> bool" where
  "wf_inode d \<longleftrightarrow> length (i_blocks d) = 15 \<and> length (i_osd2 d) = 12"

lemma length_encode [simp]: "wf_inode d \<Longrightarrow> length (encode_inode d) = 128"
  by (simp add: encode_inode_def wf_inode_def)

lemma decode_encode [simp]:
  assumes "wf_inode d"
  shows "decode_inode (encode_inode d) = d"
proof -
  have len: "length (i_blocks d) = 15" "length (i_osd2 d) = 12" using assms by (auto simp: wf_inode_def)
  have "get32 (encode_inode d) (40 + 4 * k) = i_blocks d ! k" if "k < 15" for k
    using get32_words [of k "i_blocks d"] that len by (simp add: encode_inode_def get32_skip)
  then have "map (\<lambda>k. get32 (encode_inode d) (40 + 4 * k)) [0..<15] = i_blocks d"
    using len by (intro nth_equalityI) simp_all
  moreover have "slice 116 12 (encode_inode d) = i_osd2 d"
    using len by (simp add: slice_def encode_inode_def)
  ultimately show ?thesis
    unfolding decode_inode_def by (simp add: encode_inode_def get32_skip get16_skip len)
qed

lemma wf_decode: "wf_inode (decode_inode (slice (128 * j) 128 bs))" if "128 * j + 128 \<le> length bs"
  using that by (simp add: wf_inode_def decode_inode_def)

section \<open>Writing an inode and reading it back\<close>

text \<open>The super block is in the buffer \<open>s\<close>, and the block of inode \<open>ino\<close> in the free buffer \<open>b\<close>.\<close>

definition inode_block :: "u32 \<Rightarrow> u8 list \<Rightarrow> u32" where
  "inode_block ino sb = ino div INODES_PER_BLOCK + get32 sb s_blk_dilb_start"

definition inode_cached :: "u32 set \<Rightarrow> u32 \<Rightarrow> u32 \<Rightarrow> u32 \<Rightarrow> 'd ufs_state \<Rightarrow> bool" where
  "inode_cached B s b ino U \<longleftrightarrow> bcache_ok B (bc U) \<and> s \<in> B \<and> b \<in> B \<and> b \<noteq> s \<and> usuper U \<noteq> 0
     \<and> usuper U = b_data (bufs (bc U) s) \<and> \<not> BH_FLAG b (bc U) BH_lock \<and> \<not> BH_FLAG b (bc U) BH_dirty
     \<and> b_blocknr (bufs (bc U) b) = inode_block ino (bdata s (bc U))
     \<and> unat (inode_block ino (bdata s (bc U))) + 2 \<le> 2 ^ 24"

lemma sb_get_buffer:
  "usuper U = b_data (bufs (bc U) s) \<Longrightarrow> usuper U \<noteq> 0 \<Longrightarrow> sb_get f U = Some (get32 (bdata s (bc U)) f)"
  by (simp add: sb_get_def super_bytes_def bdata_def)

lemma inode_offset_bound: "inode_offset ino + 128 \<le> 1024"
proof -
  have "unat (ino mod 8) < 8" by (simp add: unat_mod)
  then show ?thesis by (simp add: inode_offset_def INODES_PER_BLOCK_def U_BLK_SIZE_def)
qed

lemma bdata_upd_area:
  assumes "bcache_ok B S" "b \<in> B" "c \<in> B"
  shows "bdata c (upd_area (b_data (bufs S b)) f S) = (if c = b then f (bdata b S) else bdata c S)"
  using assms by (auto simp: upd_area_def bdata_def bcache_ok_def bufs_ok_def inj_on_def)

context ata_drive
begin

lemma write_then_get_inode:
  assumes C: "inode_cached B s b ino U" and idle: "phase (drive (bc U)) = Idle"
    and p: "i_no (core (inodes U p)) = ino" "wf_inode (core (inodes U p))"
  defines "old \<equiv> sec (drive (bc U)) (inode_block ino (bdata s (bc U))) @ drop 512 (bdata b (bc U))"
  shows "\<exists>U1 U2. write_inode io p U = Some U1 \<and> get_dinode io ino U1 = Some (core (inodes U p), U2)
    \<and> bcache_ok B (bc U1) \<and> bcache_ok B (bc U2)
    \<and> bdata b (bc U2) = put_bytes (inode_offset ino) (encode_inode (core (inodes U p))) old"
proof -
  define blk where "blk = inode_block ino (bdata s (bc U))"
  let ?e = "encode_inode (core (inodes U p))"
  have ok: "bcache_ok B (bc U)" and s: "s \<in> B" "b \<noteq> s" "usuper U = b_data (bufs (bc U) s)" "usuper U \<noteq> 0"
    and b: "b \<in> B" "b_blocknr (bufs (bc U) b) = blk" "\<not> BH_FLAG b (bc U) BH_lock" "\<not> BH_FLAG b (bc U) BH_dirty"
    and bound: "unat blk + 2 \<le> 2 ^ 24" using C by (auto simp: inode_cached_def blk_def)
  have blk28: "blk < 2 ^ 28" using bound by (simp add: word_less_nat_alt)
  obtain S1 where S1: "bread io 4 blk (bc U) = Some (b, S1)" "bcache_ok B S1" "phase (drive S1) = Idle"
    "bdata b S1 = old" "BH_FLAG b S1 BH_lock" "same_ids (bc U) S1" "\<forall>c\<in>B. c \<noteq> b \<longrightarrow> bdata c S1 = bdata c (bc U)"
    using bread_cached [OF ok b(1-3) idle blk28 b(4)] by (auto simp: old_def blk_def)
  have len: "length old = 1024" using S1(2,4) b(1) by (auto simp: bcache_ok_def bufs_ok_def)
  let ?f = "put_bytes (inode_offset ino) ?e"
  let ?S2 = "upd_area (b_data (bufs S1 b)) ?f S1"
  have room: "inode_offset ino + length ?e \<le> length old" using inode_offset_bound [of ino] p(2) len by simp
  have S2: "bcache_ok B ?S2" using area_ok [OF S1(2), of ?f b] S1(4) b(1) room len by simp
  have d2: "bdata b ?S2 = ?f old" "bdata s ?S2 = bdata s (bc U)"
    using bdata_upd_area [OF S1(2) b(1)] b(1) s S1(4,7) by auto
  have "b_blocknr (bufs ?S2 b) = blk" "BH_FLAG b ?S2 BH_lock" "\<not> BH_FLAG b ?S2 BH_dirty" "phase (drive ?S2) = Idle"
    using S1(3,5,6) b(2,4) by (auto simp: same_ids_def)
  from write_then_read [OF S2 b(1) this bound] obtain S3 S4 where
    S3: "bwrite io b ?S2 = Some S3" "bread io 4 blk S3 = Some (b, S4)" "bdata b S4 = ?f old" "bcache_ok B S3" "bcache_ok B S4"
      "same_ids ?S2 S3" "bdata s S3 = bdata s (bc U)" "BH_FLAG b S4 BH_lock"
    using s d2 by auto
  have start: "sb_get s_blk_dilb_start U = Some (get32 (bdata s (bc U)) s_blk_dilb_start)"
    by (rule sb_get_buffer [OF s(3,4)])
  have "write_inode io p U = Some (U\<lparr>bc := S3\<rparr>)"
    using S1(1) S3(1) p(1) start
    by (simp add: write_inode_def ufs_bread_def ufs_bwrite_def DEV_NO_def blk_def inode_block_def Let_def)
  moreover have "usuper U = b_data (bufs S3 s)" using s(3) S1(6) S3(6) by (simp add: same_ids_def)
  then have "sb_get s_blk_dilb_start (U\<lparr>bc := S3\<rparr>) = Some (get32 (bdata s (bc U)) s_blk_dilb_start)"
    using sb_get_buffer [of "U\<lparr>bc := S3\<rparr>" s] s(4) S3(7) by simp
  then have "get_dinode io ino (U\<lparr>bc := S3\<rparr>) = Some (core (inodes U p), U\<lparr>bc := brelse b S4\<rparr>)"
    using S3(2,3) p(2) room
    by (simp add: get_dinode_def ufs_bread_def ufs_brelse_def DEV_NO_def blk_def inode_block_def Let_def)
  ultimately show ?thesis using S3(3,4) brelse_ok [OF S3(5) b(1) S3(8)]
    by (intro exI [of _ "U\<lparr>bc := S3\<rparr>"] exI [of _ "U\<lparr>bc := brelse b S4\<rparr>"]) simp
qed

end

section \<open>The inode cache\<close>

definition held :: "u32 \<Rightarrow> 'd ufs_state \<Rightarrow> bool" where
  "held p U \<longleftrightarrow> IS_FLAG (i_flags (core (inodes U p))) I_lock"

text \<open>The state \<^verbatim>\<open>create_inode_cache\<close> sets up for the inodes \<open>I\<close>: an inode is locked while it is in use, and in use at most
  once.\<close>

definition icache_ok :: "u32 set \<Rightarrow> 'd ufs_state \<Rightarrow> bool" where
  "icache_ok I U \<longleftrightarrow> 0 \<notin> I \<and> inj_on (\<lambda>p. i_no (core (inodes U p))) I \<and> (\<forall>p\<in>I. i_dev (core (inodes U p)) = 4)
     \<and> (\<forall>p\<in>I. i_count (inodes U p) = (if held p U then 1 else 0))
     \<and> (\<exists>F. hashed (ilists U) I (\<lambda>p. i_no (core (inodes U p))) (\<lambda>p. \<not> held p U) F)"

lemma inode_search_find:
  "inode_search_hash 4 inum U = do {
     run \<leftarrow> queue_find (ilists U) inum (\<lambda>p. i_no (core (inodes U p)) = inum \<and> i_dev (core (inodes U p)) = 4);
     (case run of None \<Rightarrow> Some 0 | Some n \<Rightarrow> hash_entry n)
   }"
  by (simp add: inode_search_hash_def queue_find_def cong: option.case_cong)

lemma inode_search_cached:
  assumes ok: "icache_ok I U" and p: "p \<in> I" "i_no (core (inodes U p)) = inum"
  shows "inode_search_hash 4 inum U = Some p" "p \<noteq> 0"
proof -
  obtain F where F: "hashed (ilists U) I (\<lambda>p. i_no (core (inodes U p))) (\<lambda>p. \<not> held p U) F"
    using ok by (auto simp: icache_ok_def)
  have "c = p" if "c \<in> I" "i_no (core (inodes U c)) = inum \<and> i_dev (core (inodes U c)) = 4" for c
    using that p ok by (auto simp: icache_ok_def inj_on_def)
  moreover have "i_no (core (inodes U p)) = inum \<and> i_dev (core (inodes U p)) = 4" using p ok by (auto simp: icache_ok_def)
  ultimately show "inode_search_hash 4 inum U = Some p"
    using queue_find_present [OF F p(1), of "\<lambda>c. i_no (core (inodes U c)) = inum \<and> i_dev (core (inodes U c)) = 4"] p(2)
    by (simp add: inode_search_find)
  show "p \<noteq> 0" using ok p(1) by (auto simp: icache_ok_def)
qed

definition take_inode :: "u32 \<Rightarrow> 'd ufs_state \<Rightarrow> 'd ufs_state" where
  "take_inode p U = locked_inode p (upd_inode p (\<lambda>i. i\<lparr>i_count := i_count i + 1\<rparr>) (upd_ilists (list_del (FreeLink p)) U))"

definition put_inode :: "u32 \<Rightarrow> 'd ufs_state \<Rightarrow> 'd ufs_state" where
  "put_inode p U = unlocked_inode p (upd_ilists (list_add_tail FreeHead (FreeLink p))
     (upd_inode p (\<lambda>i. i\<lparr>i_count := i_count i - 1\<rparr>) (locked_inode p U)))"

lemmas iupd_defs = upd_inode_def upd_core_def upd_ilists_def locked_inode_def unlocked_inode_def

lemma lock_flag_bits: "IS_FLAG (SET_FLAG w I_lock) I_lock" "\<not> IS_FLAG (CLEAR_FLAG w I_lock) I_lock"
  unfolding I_lock_def IS_FLAG_bit [OF zero_less_numeral]
  by (simp_all add: SET_FLAG_def CLEAR_FLAG_def bit_simps)

lemma take_inode_fields:
  "i_no (core (inodes (take_inode p U) c)) = i_no (core (inodes U c))"
  "i_dev (core (inodes (take_inode p U) c)) = i_dev (core (inodes U c))"
  "i_count (inodes (take_inode p U) c) = (if c = p then i_count (inodes U p) + 1 else i_count (inodes U c))"
  "held c (take_inode p U) \<longleftrightarrow> c = p \<or> held c U" "i_state (inodes (take_inode p U) c) = i_state (inodes U c)"
  "ilists (take_inode p U) = list_del (FreeLink p) (ilists U)" "bc (take_inode p U) = bc U"
  by (auto simp: take_inode_def iupd_defs held_def lock_flag_bits)

lemma put_inode_fields:
  "i_no (core (inodes (put_inode p U) c)) = i_no (core (inodes U c))"
  "i_dev (core (inodes (put_inode p U) c)) = i_dev (core (inodes U c))"
  "i_count (inodes (put_inode p U) c) = (if c = p then i_count (inodes U p) - 1 else i_count (inodes U c))"
  "held c (put_inode p U) \<longleftrightarrow> c \<noteq> p \<and> held c U"
  "ilists (put_inode p U) = list_add_tail FreeHead (FreeLink p) (ilists U)"
  by (auto simp: put_inode_def iupd_defs held_def lock_flag_bits)

lemma iget_cached:
  assumes ok: "icache_ok I U" and p: "p \<in> I" "i_no (core (inodes U p)) = inum" "\<not> held p U"
  shows "iget 4 inum U = Some (p, take_inode p U)"
  using inode_search_cached [OF ok p(1,2)] ok p(1,3)
  by (subst iget.simps) (auto simp: take_inode_def held_def icache_ok_def Let_def)

lemma take_inode_ok:
  assumes ok: "icache_ok I U" and p: "p \<in> I" "\<not> held p U"
  shows "icache_ok I (take_inode p U)"
proof -
  obtain F where F: "hashed (ilists U) I (\<lambda>p. i_no (core (inodes U p))) (\<lambda>p. \<not> held p U) F"
    using ok by (auto simp: icache_ok_def)
  have "(\<lambda>c. \<not> held c U \<and> c \<noteq> p) = (\<lambda>c. \<not> held c (take_inode p U))" by (auto simp: take_inode_fields)
  then have "\<exists>F'. hashed (ilists (take_inode p U)) I (\<lambda>c. i_no (core (inodes (take_inode p U) c)))
      (\<lambda>c. \<not> held c (take_inode p U)) F'"
    using hashed_take [OF F p] by (simp add: take_inode_fields)
  then show ?thesis using ok p by (auto simp: icache_ok_def take_inode_fields)
qed

lemma put_inode_ok:
  assumes ok: "icache_ok I U" and p: "p \<in> I" "held p U"
  shows "icache_ok I (put_inode p U)"
proof -
  obtain F where F: "hashed (ilists U) I (\<lambda>p. i_no (core (inodes U p))) (\<lambda>p. \<not> held p U) F"
    using ok by (auto simp: icache_ok_def)
  have "(\<lambda>c. \<not> held c U \<or> c = p) = (\<lambda>c. \<not> held c (put_inode p U))" by (auto simp: put_inode_fields)
  then have "\<exists>F'. hashed (ilists (put_inode p U)) I (\<lambda>c. i_no (core (inodes (put_inode p U) c)))
      (\<lambda>c. \<not> held c (put_inode p U)) F'"
    using hashed_release [OF F p(1), of "list_add_tail FreeHead (FreeLink p)"] p(2) by (simp add: put_inode_fields)
  then show ?thesis using ok p by (auto simp: icache_ok_def put_inode_fields)
qed

lemma iput_clean:
  assumes "p \<noteq> 0" "\<not> IS_FLAG (ucast (i_state (inodes U p))) I_DIRTY"
  shows "iput io p U = Some (put_inode p U)"
  using assms by (simp add: iput_def put_inode_def iupd_defs Let_def)

lemma iget_held:
  assumes ok: "icache_ok I U" and p: "p \<in> I" "i_no (core (inodes U p)) = inum" "held p U"
  shows "iget 4 inum U = None"
proof -
  note s = inode_search_cached [OF ok p(1,2)]
  have "iget 4 inum U = Some y \<Longrightarrow> False" for y
    by (erule iget.raw_induct [rotated, where P = "\<lambda>dev inum' U' y.
        inode_search_hash dev inum' U' = Some p \<longrightarrow> \<not> held p U'", THEN mp, THEN notE])
      (use s p(3) in \<open>auto split: if_splits bind_splits simp: Let_def held_def\<close>)
  then show ?thesis by (cases "iget 4 inum U") auto
qed

lemma iget_uncached:
  assumes ok: "icache_ok I U" and none: "\<And>p. p \<in> I \<Longrightarrow> i_no (core (inodes U p)) \<noteq> inum" and c: "c \<in> I" "\<not> held c U"
  shows "iget 4 inum U = None"
proof -
  obtain F where F: "hashed (ilists U) I (\<lambda>p. i_no (core (inodes U p))) (\<lambda>p. \<not> held p U) F"
    using ok by (auto simp: icache_ok_def)
  have "inode_search_hash 4 inum U = Some 0"
    using hashed_missing [OF F, of "\<lambda>p. i_no (core (inodes U p)) = inum \<and> i_dev (core (inodes U p)) = 4" inum] none
    by (auto simp: inode_search_find)
  moreover have "\<not> list_is_empty (ilists U) FreeHead" by (rule hashed_first_free [OF F c])
  ultimately show ?thesis by (subst iget.simps) simp
qed

section \<open>Paths and allocation\<close>

lemma next_token_at_slash:
  assumes "get_byte path i = Some 47" "i < len"
  shows "next_token path i len = int i - 1"
proof -
  obtain r where "drop i path = 47 # r" using assms(1) by (auto simp: get_byte_def Cons_nth_drop_Suc [symmetric] split: if_splits)
  then have "takeWhile (\<lambda>c. c \<noteq> 47) (take (len - i) (drop i path)) = []" using assms(2) by (cases "len - i") auto
  then show ?thesis by (simp add: next_token_def)
qed

lemma namei_loop_null:
  "namei_loop io path len index work U = Some y \<Longrightarrow> 0 \<le> index \<longrightarrow> index < int len \<longrightarrow> fst y = 0"
proof (erule namei_loop.raw_induct [rotated, where P = "\<lambda>io path len index work U y.
    0 \<le> index \<longrightarrow> index < int len \<longrightarrow> fst y = 0"], intro impI)
  fix rec :: "'d io_ports \<Rightarrow> u8 list \<Rightarrow> nat \<Rightarrow> int \<Rightarrow> u32 \<Rightarrow> 'd ufs_state \<Rightarrow> (u32 \<times> 'd ufs_state) option"
    and io :: "'d io_ports" and path :: "u8 list" and len :: nat and index :: int and work U y
  assume IH: "\<And>io path len index work U y. rec io path len index work U = Some y \<Longrightarrow>
      0 \<le> index \<longrightarrow> index < int len \<longrightarrow> fst y = 0"
    and idx: "0 \<le> index" "index < int len"
  have "next_token path (nat index) len + 1 = index" if "get_byte path (nat index) = Some 47"
    using next_token_at_slash [OF that, of len] idx by auto
  then show "(if index < int len then do {
        c \<leftarrow> get_byte path (nat index);
        if c = 47 then do {
          let en = next_token path (nat index) len;
          let n = nat (en - index + 1);
          (tok, slab) \<leftarrow> kmalloc (of_nat n) 0 (bslab (bc U));
          let U = U\<lparr>bc := (bc U)\<lparr>bslab := slab\<rparr>\<rparr>;
          token \<leftarrow> (if tok = 0 then None else strncpy (replicate n 0) (drop (nat index) path) n);
          (inode, U) \<leftarrow> search_dir io work token n U;
          slab \<leftarrow> kfree tok (bslab (bc U));
          let U = U\<lparr>bc := (bc U)\<lparr>bslab := slab\<rparr>\<rparr>;
          if inode = - 1 then Some (0, U)
          else do {
            U \<leftarrow> iput io work U;
            (work, U) \<leftarrow> iget (of_nat DEV_NO) inode U;
            rec io path len (en + 1) work U
          }
        } else None
      } else Some (work, U)) = Some y \<Longrightarrow> fst y = 0"
    using idx by (auto split: bind_splits if_splits simp: Let_def dest!: IH)
qed

lemma ialloc_none: "ialloc io dev_no U = None"
proof -
  have "ialloc io dev_no U = Some y \<Longrightarrow> False" for y
    by (erule ialloc.raw_induct [rotated, where P = "\<lambda>_ _ _ _. False"])
      (auto split: bind_splits if_splits)
  then show ?thesis by (cases "ialloc io dev_no U") auto
qed

section \<open>Properties\<close>



text \<open>Path lookup finds nothing.  For every path of at least two characters \<open>namei\<close> returns null or does not return
  properly: at a slash the index does not advance, and at any other character an uninitialised variable is used.\<close>

theorem namei_finds_nothing:
  assumes "strlen path = Some len" and "2 \<le> len"
  shows "namei io path U = None \<or> (\<exists>U'. namei io path U = Some (0, U'))"
proof (cases "namei io path U")
  case (Some y)
  then have "\<exists>index work. namei_loop io path len index work U = Some y \<and> 0 \<le> index \<and> index < int len"
    using assms by (auto simp: namei_def split: bind_splits if_splits)
  then have "fst y = 0" using namei_loop_null by blast
  with Some show ?thesis by (cases y) auto
qed simp

definition sample_inode :: inode where
  "sample_inode = \<lparr>core = (init_inode (decode_inode (replicate 128 0)) 4 3 6)\<lparr>i_size := 77\<rparr>, i_state = 0, i_count = 0\<rparr>"

definition sample_areas :: "u32 \<Rightarrow> u8 list" where
  "sample_areas p = (if p = 7000 then put32 s_blk_dilb_start 6 (replicate 1024 0) else replicate 1024 0)"

definition sample_ufs :: "pio_drive ufs_state" where
  "sample_ufs = \<lparr>bc = sample_cache\<lparr>areas := sample_areas\<rparr>, inodes = (\<lambda>_. sample_inode),
     ilists = list_add FreeHead (FreeLink 300) (list_add (HashHead 3) (HashLink 300)
       (INIT_LIST_HEAD FreeHead (init_queues DEV_NO \<lparr>next_of = id, prev_of = id\<rparr>))),
     usuper = 7000, current_root = 0, current_pwd = 0\<rparr>"

lemma sample_inode_fields: "i_no (core sample_inode) = 3" "i_dev (core sample_inode) = 4" "i_flags (core sample_inode) = 0"
  "i_count sample_inode = 0" "i_state sample_inode = 0" "wf_inode (core sample_inode)"
  by (simp_all add: sample_inode_def init_inode_def wf_inode_def INODE_MEMBER_BLOCKS_def decode_inode_def)

lemma length_sample_areas: "length (sample_areas p) = 1024"
  by (simp add: sample_areas_def put32_def s_blk_dilb_start_def)

lemma sample_ufs_bufs: "bcache_ok {100, 200} (bc sample_ufs)"
  using sample_cache_ok
  by (auto simp: sample_ufs_def bcache_ok_def bufs_ok_def bdata_def BH_FLAG_def length_sample_areas)

lemma sample_start: "get32 (sample_areas 7000) s_blk_dilb_start = 6"
  by (simp add: sample_areas_def put32_def put_bytes_def s_blk_dilb_start_def get32_skip)

lemma sample_inode_cached: "inode_cached {100, 200} 200 100 3 sample_ufs"
proof -
  have "inode_block 3 (bdata 200 (bc sample_ufs)) = 6"
    by (simp add: inode_block_def INODES_PER_BLOCK_def U_BLK_SIZE_def bdata_def sample_ufs_def sample_cache_bufs
        sample_bufs_def sample_start)
  moreover have "BH_FLAG 100 (bc sample_ufs) BH_lock = False" "BH_FLAG 100 (bc sample_ufs) BH_dirty = False"
    by (simp_all add: BH_FLAG_simps sample_ufs_def sample_cache_bufs sample_bufs_def)
  ultimately show ?thesis using sample_ufs_bufs
    by (simp add: inode_cached_def) (simp add: sample_ufs_def sample_cache_bufs sample_bufs_def)
qed

lemma sample_icache_ok: "icache_ok {300} sample_ufs"
proof -
  have h: "held p sample_ufs \<longleftrightarrow> False" for p
    by (simp add: held_def sample_ufs_def sample_inode_fields I_lock_def IS_FLAG_def)
  have k: "i_no (core (inodes sample_ufs p)) = 3" for p by (simp add: sample_ufs_def sample_inode_fields)
  obtain F where "hashed (ilists sample_ufs) (insert 300 {}) (\<lambda>p. 3) (\<lambda>p. True) F"
    using hashed_insert [OF hashed_init [of _ "\<lambda>p. 3" "\<lambda>p. True"], of 300 3] unfolding sample_ufs_def by auto
  then have "\<exists>F. hashed (ilists sample_ufs) {300} (\<lambda>p. i_no (core (inodes sample_ufs p))) (\<lambda>p. \<not> held p sample_ufs) F"
    by (auto simp: h k)
  then show ?thesis by (simp add: icache_ok_def h) (simp add: sample_ufs_def sample_inode_fields)
qed



theorem namei_finds_nothing_witness:
  "namei pio_io [47, 97, 0] sample_ufs = None \<or> (\<exists>U'. namei pio_io [47, 97, 0] sample_ufs = Some (0, U'))"
  by (rule namei_finds_nothing [of _ 2]) (code_simp, simp)

end
