(* ===== verification/Spec2Isabelle.thy ===== *)
theory Spec2Isabelle
  imports Namei Fs_Registry Files Mkfs Memory_Init Descriptors Interrupts Ufs_Ok Heap_Alloc
begin

text \<open>
  A verification of the Yega kernel, a 32-bit kernel for one x86 processor, written in C with some assembly.  All paths
  below are relative to \<^verbatim>\<open>src/\<close>.

  \<^bold>\<open>The program.\<close>  GRUB loads the kernel at 1 MiB and calls \<^verbatim>\<open>kernel_main\<close> (\<^verbatim>\<open>kernel/kernel.c\<close>), which brings
  the parts up one after the other.  The multiboot memory map is scanned and a first heap is set up
  (\<^verbatim>\<open>memory-management/manager.c\<close>, \<^verbatim>\<open>allocator.c\<close>).  \<^verbatim>\<open>init_mem\<close> (\<^verbatim>\<open>memory-management/mm.c\<close>) builds the page
  descriptors, the page tables and the zone of the buddy allocator (\<^verbatim>\<open>buddy.c\<close>), on which the slab allocator (\<^verbatim>\<open>slab.c\<close>)
  rests.  Then come the descriptor tables, the interrupt controllers, the timer and the scheduler's task state.  The
  disk driver (\<^verbatim>\<open>drivers/disk.c\<close>) carries the buffer cache (\<^verbatim>\<open>fs/buffer.c\<close>), which carries the file system the kernel
  is built with (\<^verbatim>\<open>fs/ufs\<close>); the ext2 file system and the VFS layer (\<^verbatim>\<open>fs/ext2\<close>) are a second, newer client of the same
  driver and of the slab allocator.  Everything reports through \<^verbatim>\<open>printk\<close> (\<^verbatim>\<open>drivers/serial.c\<close>) and the screen.

  \<^bold>\<open>How the code is modelled.\<close>  A pointer is a 32-bit word, or a value of a datatype whose constructors name the objects
  it can address; memory is one function per field of a structure, from addresses to values, gathered in a record per
  component.  Integers are words of the width the code gives them, so that they wrap around where the code does.  A
  function of the code is a function from its arguments and the state to its result and the new state.  The type of the
  result is an option: \<open>None\<close> is an execution that does not return (an endless loop, a call of \<^verbatim>\<open>sys_exit\<close>, a trap)
  or that leaves the model (a read past an object, a wild pointer), and the code's own null pointers and error codes are
  values inside \<open>Some\<close>.  Loops are recursions: structural or with a measure where they end, and least fixed points in the
  option type where they may not.  The text that \<^verbatim>\<open>printk\<close> sends is modelled where it is the result of a function
  (\<open>Serial\<close>, \<open>Interrupts\<close>, \<open>Descriptors\<close>) and dropped elsewhere.  Hardware is a parameter of type \<open>io_ports\<close>, a function
  for reading and one for writing a port; what the code relies on is stated by the locales \<open>ata_drive\<close>, \<open>uart\<close> and
  \<open>pc_ports\<close>, which the theorems take as hypotheses and which are interpreted on concrete devices.  The addresses that the
  linker chooses are parameters too.  The one fuel argument is the depth of \<open>kmem_cache_alloc\<close> and \<open>kmem_cache_free\<close>, which call
  themselves for the descriptors of off-slab caches; the caches they call for are on-slab, so the depth 2 that all callers
  pass is enough, and \<open>kmem_cache_alloc_correct\<close> shows that depth 1 returns for an on-slab cache.

  \<^bold>\<open>The theories.\<close>
    \<^item> \<open>Prelude\<close>: word types, collections of rules, and lemmas on lists, words and options.
    \<^item> \<open>Linked_List\<close> (\<^verbatim>\<open>data_structures/list.c\<close>, \<^verbatim>\<open>include/list.h\<close>): the intrusive lists, and families of disjoint lists.  The
      locale \<open>list_provider\<close> is the contract that the allocators and caches use.
    \<^item> \<open>Zone\<close>, \<open>Buddy_Blocks\<close>, \<open>Buddy_Spec\<close>, \<open>Buddy\<close>, \<open>Buddy_Init\<close> (\<^verbatim>\<open>include/zone.h\<close>, \<^verbatim>\<open>memory-management/buddy.c\<close>): page
      descriptors and flags; aligned blocks; an abstract buddy system on sets of blocks; the functions of the code; and the proof
      that these refine the abstract system, that allocation takes exactly one aligned free block, that freeing merges fully,
      and that \<open>init_zone\<close> starts with exactly the available pages.
    \<^item> \<open>Heap_Alloc\<close>, \<open>Boot_Memory\<close> (\<^verbatim>\<open>allocator.c\<close>, \<^verbatim>\<open>manager.c\<close>, \<^verbatim>\<open>mm.c\<close>): the early heap, the scan of the memory map and the
      page descriptors it yields.
    \<^item> \<open>Paging\<close> (\<^verbatim>\<open>mm.c\<close>, \<^verbatim>\<open>include/page.h\<close>, \<^verbatim>\<open>include/mm.h\<close>): the page tables, shown against the address translation of
      the processor.
    \<^item> \<open>Slab\<close>, \<open>Slab_Cache\<close>, \<open>Slab_Grow\<close>, \<open>Slab_Alloc\<close> (\<^verbatim>\<open>slab.c\<close>): caches, slabs and objects; the objects in use as the
      abstract state of a cache.  The pages come through the locale \<open>page_source\<close>, which the buddy allocator implements.
    \<^item> \<open>Memory_Init\<close> (\<^verbatim>\<open>mm.c\<close>, \<^verbatim>\<open>kernel/task.c\<close>): the composition of these parts by \<open>init_mem\<close>, and \<open>sched_init\<close>.
    \<^item> \<open>Ports\<close>, \<open>Disk\<close> (\<^verbatim>\<open>include/io_access.h\<close>, \<^verbatim>\<open>drivers/disk.c\<close>): port access and the disk driver over any drive that follows
      the protocol; \<open>block_device\<close> is the contract it gives to its clients.
    \<^item> \<open>Hash_Queues\<close>, \<open>Buffer_Cache\<close>, \<open>Buffer_Ok\<close> (\<^verbatim>\<open>fs/buffer.c\<close>): the buffer cache, its invariant and its failures.
    \<^item> \<open>Strings\<close>, \<open>Bytes\<close> (\<^verbatim>\<open>kernel/string.c\<close>): strings and memory areas; words in byte lists.
    \<^item> \<open>Ufs\<close>, \<open>Ufs_Ok\<close> (\<^verbatim>\<open>fs/ufs/ufs.c\<close>): disk inodes, the inode cache, path lookup.
    \<^item> \<open>Ext2_Layout\<close>, \<open>Ext2_Balloc\<close>, \<open>Mkfs\<close> (\<^verbatim>\<open>fs/ext2/fs.c\<close>, \<^verbatim>\<open>ext2_balloc.c\<close>, \<^verbatim>\<open>mkfs.c\<close>): the ext2 super block and group
      descriptors, the allocation of blocks and inodes from bitmaps, the creation of a file system, and the composition of
      creation with allocation and with mounting.  The disk is seen as an array of blocks and a bitmap as a set of numbers.
    \<^item> \<open>Keyed_Store\<close>, \<open>Dcache\<close>, \<open>Namei\<close> (\<^verbatim>\<open>fs/ext2/dcache.c\<close>, \<^verbatim>\<open>namei.c\<close>): the cache of directory entries as a map from parents and
      names, and the walk along a path over it; the locale \<open>keyed_store\<close> is the contract of the cache.
    \<^item> \<open>Fs_Registry\<close>, \<open>Files\<close> (\<^verbatim>\<open>fs/ext2/super.c\<close>, \<^verbatim>\<open>file.c\<close>, parts of \<^verbatim>\<open>ext2_file.c\<close>): the list of file system types, which implements
      \<open>keyed_store\<close> too, super blocks, open files and tables of descriptors.
    \<^item> \<open>Serial\<close>, \<open>Console\<close> (\<^verbatim>\<open>drivers/serial.c\<close>, \<^verbatim>\<open>kernel/display/vga_display.c\<close>, \<^verbatim>\<open>drivers/keyboard.c\<close>): what \<^verbatim>\<open>printk\<close> sends and
      what the screen shows.
    \<^item> \<open>Interrupts\<close>, \<open>Descriptors\<close> (\<^verbatim>\<open>kernel/idt\<close>, \<^verbatim>\<open>kernel/gdt\<close>, \<^verbatim>\<open>drivers/pit\<close>, \<^verbatim>\<open>drivers/timer.c\<close>): the interrupt
      controllers, the dispatcher and the drivers, the segment and gate descriptors and the trap reports.

  \<^bold>\<open>What is shown.\<close>  For every component: an invariant and its preservation, or the exact effect of its operations on
  an abstract state (free pages, objects in use, sectors, blocks, cached inodes, screen cells, sent text).  Where the code
  does not do what it means to, a theorem states what it does instead: the early heap hands out a block twice, \<open>getblk\<close>
  never returns for a held block and corrupts the free list on a miss, the ext2 allocator hands out the same block again,
  a new ext2 file system leaves a block of its inode table free and cannot be mounted, and others.

  \<^bold>\<open>Bounds.\<close>  Disk addresses are below \<open>2 ^ 24\<close> where a theorem writes (the driver drops higher bits), \<open>mkfs\<close> is shown for 1 to 256
  MB (more than 32 groups do not fit the one block it reserves for the descriptors and the code leaves by \<^verbatim>\<open>sys_exit\<close>), memory
  sizes are below 4 GiB as in the code.

  \<^bold>\<open>Not modelled.\<close>
    \<^item> The parts of \<^verbatim>\<open>fs/ext2\<close> above the block allocator that are not listed above: \<^verbatim>\<open>ext2_inode.c\<close>, \<^verbatim>\<open>ext2_dir.c\<close>, \<^verbatim>\<open>vfs.c\<close>, reading and
      writing in \<^verbatim>\<open>ext2_file.c\<close>, and the rest of \<^verbatim>\<open>fs.c\<close>.  They are not part of the build, and several reinterpret an
      in-core inode as a disk inode by a pointer cast.
    \<^item> \<^verbatim>\<open>kernel_main\<close>, which calls the parts in the order given above.
    \<^item> The assembly stubs that save registers on an interrupt or trap, the boot stub and the instructions that load control
      registers; the linker script.
    \<^item> Interleaving of interrupt handlers with the code they interrupt; the handlers are functions of their own.
\<close>

end
